theory Spec2Isabelle
  imports Main "HOL-Library.Word"
begin

section \<open>Store model of \<^verbatim>\<open>rbtree-ec.c\<close>\<close>

text \<open>
  The C code works on caller-owned nodes linked by pointers and rewires them in place,
  with several local pointers (\<^verbatim>\<open>t\<close>, \<^verbatim>\<open>g\<close>, \<^verbatim>\<open>p\<close>, \<^verbatim>\<open>q\<close>) aliasing nodes of the
  tree. The embedding therefore keeps an explicit store from references to node structs.
  A non-null pointer is a reference: either the address of a caller node (\<open>Ptr a\<close>) or
  the address of the local sentinel \<^verbatim>\<open>head\<close> that \<^verbatim>\<open>jsw_rbinsert\<close> and \<^verbatim>\<open>jsw_rberase\<close> keep
  on their stack (\<open>Head\<close>). A pointer is a reference or \<^verbatim>\<open>NULL\<close> (\<open>None\<close>).
\<close>

datatype ref = Head | Ptr nat

type_synonym ptr = "ref option"

text \<open>
  Modelled from the spec: the header \<^verbatim>\<open>rbtree-ec.h\<close> that declares \<^verbatim>\<open>jsw_rbnode_t\<close>,
  \<^verbatim>\<open>jsw_rbtree_t\<close> and \<^verbatim>\<open>test_data\<close> is not among the sources. The source uses the fields
  \<^verbatim>\<open>red\<close>, \<^verbatim>\<open>link[0]\<close>, \<^verbatim>\<open>link[1]\<close> and \<^verbatim>\<open>data.key\<close> of a node and \<^verbatim>\<open>root\<close> of a tree. The
  spec describes a node as a colour tag (red or black), two child references indexed by
  direction and an embedded key; \<^verbatim>\<open>node_cmp\<close> returns the difference of two keys as an
  \<^verbatim>\<open>int\<close>, so a key is taken to be a 32-bit integer whose subtraction wraps around.
  The payload \<^verbatim>\<open>data\<close> is represented by its key.
\<close>

record jsw_rbnode =
  red :: bool
  link0 :: ptr
  link1 :: ptr
  key :: "32 word"

type_synonym heap = "ref \<Rightarrow> jsw_rbnode"

datatype fault = NullDeref | PathOverflow

text \<open>\<^verbatim>\<open>n->link[d]\<close> and the assignment to it; a direction is \<open>False\<close> for 0, \<open>True\<close> for 1.\<close>

definition link :: "jsw_rbnode \<Rightarrow> bool \<Rightarrow> ptr" where
  "link n d = (if d then link1 n else link0 n)"

definition set_link :: "jsw_rbnode \<Rightarrow> bool \<Rightarrow> ptr \<Rightarrow> jsw_rbnode" where
  "set_link n d v = (if d then n\<lparr>link1 := v\<rparr> else n\<lparr>link0 := v\<rparr>)"

definition HEIGHT_LIMIT :: nat where
  "HEIGHT_LIMIT = 64"

text \<open>\<^verbatim>\<open>node_cmp\<close>: the difference of the keys, second minus first, in 32-bit arithmetic.\<close>

definition node_cmp :: "jsw_rbnode \<Rightarrow> jsw_rbnode \<Rightarrow> 32 word" where
  "node_cmp n1 n2 = key n2 - key n1"

definition is_red :: "heap \<Rightarrow> ptr \<Rightarrow> bool" where
  "is_red h root = (case root of None \<Rightarrow> False | Some r \<Rightarrow> red (h r))"

text \<open>
  \<^verbatim>\<open>jsw_single\<close>: the four assignments in the order of the source. Reading through
  \<^verbatim>\<open>root\<close> or \<^verbatim>\<open>save\<close> when it is \<^verbatim>\<open>NULL\<close> is a fault.
\<close>

definition jsw_single :: "heap \<Rightarrow> ptr \<Rightarrow> bool \<Rightarrow> fault + heap \<times> ptr" where
  "jsw_single h root dir =
     (case root of None \<Rightarrow> Inl NullDeref | Some r \<Rightarrow>
      (case link (h r) (\<not> dir) of None \<Rightarrow> Inl NullDeref | Some s \<Rightarrow>
        let h1 = h(r := set_link (h r) (\<not> dir) (link (h s) dir));
            h2 = h1(s := set_link (h1 s) dir (Some r));
            h3 = h2(r := (h2 r)\<lparr>red := True\<rparr>);
            h4 = h3(s := (h3 s)\<lparr>red := False\<rparr>)
        in Inr (h4, Some s)))"

definition jsw_double :: "heap \<Rightarrow> ptr \<Rightarrow> bool \<Rightarrow> fault + heap \<times> ptr" where
  "jsw_double h root dir =
     (case root of None \<Rightarrow> Inl NullDeref | Some r \<Rightarrow>
      (case jsw_single h (link (h r) (\<not> dir)) (\<not> dir) of Inl e \<Rightarrow> Inl e
       | Inr (h1, s) \<Rightarrow> jsw_single (h1(r := set_link (h1 r) (\<not> dir) s)) (Some r) dir))"

definition new_node :: "heap \<Rightarrow> ptr \<Rightarrow> fault + heap \<times> ptr" where
  "new_node h rn =
     (case rn of None \<Rightarrow> Inl NullDeref | Some r \<Rightarrow>
        Inr (h(r := (h r)\<lparr>red := True, link0 := None, link1 := None\<rparr>), Some r))"

subsection \<open>Search\<close>

text \<open>
  The loop of \<^verbatim>\<open>jsw_rbfind\<close>. A loop that does not return (on a cyclic store) has the
  value \<open>None\<close>.
\<close>

partial_function (option) find_loop :: "heap \<Rightarrow> ptr \<Rightarrow> ref \<Rightarrow> ptr option" where
  "find_loop h it node =
     (case it of None \<Rightarrow> Some None | Some r \<Rightarrow>
        let cmp = node_cmp (h r) (h node) in
        if cmp = 0 then Some it else find_loop h (link (h r) (cmp <s 0)) node)"

definition jsw_rbfind :: "heap \<Rightarrow> ptr \<Rightarrow> ptr \<Rightarrow> (fault + ptr) option" where
  "jsw_rbfind h root node =
     (case node of None \<Rightarrow> (if root = None then Some (Inr None) else Some (Inl NullDeref))
      | Some n \<Rightarrow> map_option Inr (find_loop h root n))"

subsection \<open>Insertion\<close>

text \<open>
  The body of the \<^verbatim>\<open>for ( ; ; )\<close> loop of \<^verbatim>\<open>jsw_rbinsert\<close>, in three parts as in the
  source: attach or colour flip, rotation on a red violation, then the comparison that
  ends the loop or moves the helpers down. The loop yields the store and \<open>Some r\<close> when
  the function returned \<open>r\<close> from inside the loop, \<open>None\<close> when it left by \<^verbatim>\<open>break\<close>.
\<close>

definition ins_attach :: "heap \<Rightarrow> ptr \<Rightarrow> ptr \<Rightarrow> ptr \<Rightarrow> bool \<Rightarrow> fault + heap \<times> ptr" where
  "ins_attach h node p q dir =
     (case q of
        None \<Rightarrow>
          (case new_node h node of Inl e \<Rightarrow> Inl e
           | Inr (h1, n) \<Rightarrow>
              (case p of None \<Rightarrow> Inl NullDeref
               | Some pr \<Rightarrow> Inr (h1(pr := set_link (h1 pr) dir n), n)))
      | Some qr \<Rightarrow>
          if is_red h (link (h qr) False) \<and> is_red h (link (h qr) True) then
            let h1 = h(qr := (h qr)\<lparr>red := True\<rparr>) in
            (case link (h1 qr) False of None \<Rightarrow> Inl NullDeref | Some a \<Rightarrow>
              let h2 = h1(a := (h1 a)\<lparr>red := False\<rparr>) in
              (case link (h2 qr) True of None \<Rightarrow> Inl NullDeref | Some b \<Rightarrow>
                Inr (h2(b := (h2 b)\<lparr>red := False\<rparr>), q)))
          else Inr (h, q))"

definition ins_rotate :: "heap \<Rightarrow> ptr \<Rightarrow> ptr \<Rightarrow> ptr \<Rightarrow> ptr \<Rightarrow> bool \<Rightarrow> fault + heap" where
  "ins_rotate h t g p q lastd =
     (if is_red h q \<and> is_red h p then
        (case t of None \<Rightarrow> Inl NullDeref | Some tr \<Rightarrow>
         (case p of None \<Rightarrow> Inl NullDeref | Some pr \<Rightarrow>
           let dir2 = (link (h tr) True = g) in
           (case (if q = link (h pr) lastd then jsw_single h g (\<not> lastd)
                  else jsw_double h g (\<not> lastd)) of
              Inl e \<Rightarrow> Inl e
            | Inr (h1, s) \<Rightarrow> Inr (h1(tr := set_link (h1 tr) dir2 s)))))
      else Inr h)"

partial_function (option) insert_loop ::
  "heap \<Rightarrow> ref \<Rightarrow> ptr \<Rightarrow> ptr \<Rightarrow> ptr \<Rightarrow> ptr \<Rightarrow> bool \<Rightarrow> bool \<Rightarrow> (fault + heap \<times> int option) option"
where
  "insert_loop h node t g p q dir lastd =
     (case ins_attach h (Some node) p q dir of Inl e \<Rightarrow> Some (Inl e)
      | Inr (h1, q1) \<Rightarrow>
        (case q1 of None \<Rightarrow> Some (Inr (h1, Some 0))
         | Some qr \<Rightarrow>
           (case ins_rotate h1 t g p q1 lastd of Inl e \<Rightarrow> Some (Inl e)
            | Inr h2 \<Rightarrow>
               if node_cmp (h2 qr) (h2 node) = 0 then Some (Inr (h2, None))
               else
                 let lastd' = dir;
                     dir' = (node_cmp (h2 qr) (h2 node) <s 0);
                     t' = (if g \<noteq> None then g else t)
                 in insert_loop h2 node t' p q1 (link (h2 qr) dir') dir' lastd')))"

text \<open>
  \<^verbatim>\<open>jsw_rbinsert\<close> takes the store, the tree's root pointer and the node to insert, and
  yields the store, the new root pointer and the returned \<^verbatim>\<open>int\<close>. The sentinel
  \<^verbatim>\<open>head\<close> lives in the cell \<open>Head\<close> for the duration of the call; the cell gets its
  former content back when the function returns.
\<close>

definition head_init :: jsw_rbnode where
  "head_init = \<lparr>red = False, link0 = None, link1 = None, key = 0\<rparr>"

definition jsw_rbinsert :: "heap \<Rightarrow> ptr \<Rightarrow> ptr \<Rightarrow> (fault + heap \<times> ptr \<times> int) option" where
  "jsw_rbinsert h root node =
     (if root = None then
        (case new_node h node of Inl e \<Rightarrow> Some (Inl e)
         | Inr (h1, r1) \<Rightarrow>
            (case r1 of None \<Rightarrow> Some (Inr (h1, r1, 0))
             | Some rr \<Rightarrow> Some (Inr (h1(rr := (h1 rr)\<lparr>red := False\<rparr>), r1, 1))))
      else
        (case node of None \<Rightarrow> Some (Inl NullDeref) | Some n \<Rightarrow>
          let h0 = h(Head := head_init);
              h1 = h0(Head := set_link (h0 Head) True root)
          in (case insert_loop h1 n (Some Head) None None root False False of
                None \<Rightarrow> None
              | Some (Inl e) \<Rightarrow> Some (Inl e)
              | Some (Inr (h2, Some r)) \<Rightarrow> Some (Inr (h2(Head := h Head), root, r))
              | Some (Inr (h2, None)) \<Rightarrow>
                  (case link (h2 Head) True of None \<Rightarrow> Some (Inl NullDeref)
                   | Some rr \<Rightarrow>
                      Some (Inr ((h2(rr := (h2 rr)\<lparr>red := False\<rparr>))(Head := h Head),
                                 Some rr, 1))))))"

subsection \<open>Removal\<close>

text \<open>
  The body of the \<^verbatim>\<open>while\<close> loop of \<^verbatim>\<open>jsw_rberase\<close> after the helpers have moved down:
  \<open>erase_push\<close> is the part guarded by \<^verbatim>\<open>!is_red ( q ) && !is_red ( q->link[dir] )\<close>
  and yields the store and the new \<^verbatim>\<open>p\<close>.
\<close>

definition erase_recolor :: "heap \<Rightarrow> ref \<Rightarrow> ref \<Rightarrow> bool \<Rightarrow> fault + heap" where
  "erase_recolor h gr qr dir2 =
     (case link (h gr) dir2 of None \<Rightarrow> Inl NullDeref | Some n \<Rightarrow>
       let h1 = h(n := (h n)\<lparr>red := True\<rparr>);
           h2 = h1(qr := (h1 qr)\<lparr>red := True\<rparr>)
       in (case link (h2 gr) dir2 of None \<Rightarrow> Inl NullDeref | Some n1 \<Rightarrow>
            (case link (h2 n1) False of None \<Rightarrow> Inl NullDeref | Some a \<Rightarrow>
              let h3 = h2(a := (h2 a)\<lparr>red := False\<rparr>) in
              (case link (h3 gr) dir2 of None \<Rightarrow> Inl NullDeref | Some n2 \<Rightarrow>
                (case link (h3 n2) True of None \<Rightarrow> Inl NullDeref | Some b \<Rightarrow>
                  Inr (h3(b := (h3 b)\<lparr>red := False\<rparr>)))))))"

definition erase_push :: "heap \<Rightarrow> ptr \<Rightarrow> ref \<Rightarrow> ref \<Rightarrow> bool \<Rightarrow> bool \<Rightarrow> fault + heap \<times> ref" where
  "erase_push h g pr qr dir lastd =
     (if is_red h (link (h qr) (\<not> dir)) then
        (case jsw_single h (Some qr) dir of Inl e \<Rightarrow> Inl e
         | Inr (h1, n) \<Rightarrow>
            (case n of None \<Rightarrow> Inr (h1(pr := set_link (h1 pr) lastd n), pr)
             | Some nr \<Rightarrow> Inr (h1(pr := set_link (h1 pr) lastd n), nr)))
      else
        (case link (h pr) (\<not> lastd) of None \<Rightarrow> Inr (h, pr)
         | Some s \<Rightarrow>
            if \<not> is_red h (link (h s) (\<not> lastd)) \<and> \<not> is_red h (link (h s) lastd) then
              let h1 = h(pr := (h pr)\<lparr>red := False\<rparr>);
                  h2 = h1(s := (h1 s)\<lparr>red := True\<rparr>)
              in Inr (h2(qr := (h2 qr)\<lparr>red := True\<rparr>), pr)
            else
              (case g of None \<Rightarrow> Inl NullDeref | Some gr \<Rightarrow>
                let dir2 = (link (h gr) True = Some pr) in
                (case (if is_red h (link (h s) lastd) then
                         (case jsw_double h (Some pr) lastd of Inl e \<Rightarrow> Inl e
                          | Inr (h1, n) \<Rightarrow> Inr (h1(gr := set_link (h1 gr) dir2 n)))
                       else if is_red h (link (h s) (\<not> lastd)) then
                         (case jsw_single h (Some pr) lastd of Inl e \<Rightarrow> Inl e
                          | Inr (h1, n) \<Rightarrow> Inr (h1(gr := set_link (h1 gr) dir2 n)))
                       else Inr h) of
                   Inl e \<Rightarrow> Inl e
                 | Inr h1 \<Rightarrow>
                    (case erase_recolor h1 gr qr dir2 of Inl e \<Rightarrow> Inl e
                     | Inr h2 \<Rightarrow> Inr (h2, pr))))))"

partial_function (option) erase_loop ::
  "heap \<Rightarrow> ref \<Rightarrow> ptr \<Rightarrow> ptr \<Rightarrow> ptr \<Rightarrow> ref \<Rightarrow> bool \<Rightarrow> (fault + heap \<times> ptr \<times> ptr \<times> ref) option"
where
  "erase_loop h node f g p q dir =
     (case link (h q) dir of None \<Rightarrow> Some (Inr (h, f, p, q))
      | Some q1 \<Rightarrow>
         let lastd = dir;
             g1 = p;
             p1 = q;
             dir1 = (node_cmp (h q1) (h node) <s 0);
             f1 = (if node_cmp (h q1) (h node) = 0 then Some q1 else f)
         in if \<not> is_red h (Some q1) \<and> \<not> is_red h (link (h q1) dir1) then
              (case erase_push h g1 p1 q1 dir1 lastd of Inl e \<Rightarrow> Some (Inl e)
               | Inr (h1, p2) \<Rightarrow> erase_loop h1 node f1 g1 (Some p2) q1 dir1)
            else erase_loop h node f1 g1 (Some p1) q1 dir1)"

text \<open>
  The removal after the loop: the data of the found node and of the last node on the
  path are exchanged, and the last node is replaced under its parent by its child.
\<close>

definition erase_unlink :: "heap \<Rightarrow> ptr \<Rightarrow> ptr \<Rightarrow> ref \<Rightarrow> fault + heap" where
  "erase_unlink h f p q =
     (case f of None \<Rightarrow> Inr h
      | Some fr \<Rightarrow>
         let tmp = key (h fr);
             h1 = h(fr := (h fr)\<lparr>key := key (h q)\<rparr>);
             h2 = h1(q := (h1 q)\<lparr>key := tmp\<rparr>)
         in (case p of None \<Rightarrow> Inl NullDeref
             | Some pr \<Rightarrow>
                Inr (h2(pr := set_link (h2 pr) (link (h2 pr) True = Some q)
                                 (link (h2 q) (link (h2 q) False = None))))))"

definition jsw_rberase :: "heap \<Rightarrow> ptr \<Rightarrow> ptr \<Rightarrow> (fault + heap \<times> ptr \<times> int) option" where
  "jsw_rberase h root node =
     (if root \<noteq> None then
        (case node of None \<Rightarrow> Some (Inl NullDeref) | Some n \<Rightarrow>
          let h0 = h(Head := head_init);
              h1 = h0(Head := set_link (h0 Head) True root)
          in (case erase_loop h1 n None None None Head True of
                None \<Rightarrow> None
              | Some (Inl e) \<Rightarrow> Some (Inl e)
              | Some (Inr (h2, f, p, q)) \<Rightarrow>
                 (case erase_unlink h2 f p q of Inl e \<Rightarrow> Some (Inl e)
                  | Inr h3 \<Rightarrow>
                     (case link (h3 Head) True of
                        None \<Rightarrow> Some (Inr (h3(Head := h Head), None, 1))
                      | Some rr \<Rightarrow>
                         Some (Inr ((h3(rr := (h3 rr)\<lparr>red := False\<rparr>))(Head := h Head),
                                    Some rr, 1))))))
      else Some (Inr (h, root, 1)))"

subsection \<open>Cursor\<close>

text \<open>
  \<^verbatim>\<open>struct jsw_rbtrav\<close>: the paired tree (kept as the root pointer seen at seeding), the
  current node, the path array of \<^verbatim>\<open>HEIGHT_LIMIT\<close> entries and the top of stack.
  \<^verbatim>\<open>jsw_rbtnew\<close> allocates the object without initialising it; the model fills it with
  null pointers.
\<close>

record jsw_rbtrav =
  tree :: ptr
  it :: ptr
  path :: "ptr list"
  top :: nat

definition jsw_rbtnew :: jsw_rbtrav where
  "jsw_rbtnew = \<lparr>tree = None, it = None, path = replicate HEIGHT_LIMIT None, top = 0\<rparr>"

text \<open>
  \<^verbatim>\<open>trav->path[trav->top++] = trav->it\<close>: a store at an index outside the array is
  the fault \<open>PathOverflow\<close>.
\<close>

definition push_path :: "jsw_rbtrav \<Rightarrow> fault + jsw_rbtrav" where
  "push_path trav =
     (if top trav < HEIGHT_LIMIT
      then Inr (trav\<lparr>path := (path trav)[top trav := it trav], top := top trav + 1\<rparr>)
      else Inl PathOverflow)"

text \<open>
  The loop \<^verbatim>\<open>while ( trav->it->link[d] != NULL )\<close> with the body push and descend; it
  occurs in \<^verbatim>\<open>start\<close> with \<open>d = dir\<close> and in \<^verbatim>\<open>move\<close> with \<open>d = !dir\<close>.
\<close>

partial_function (option) walk_down :: "heap \<Rightarrow> jsw_rbtrav \<Rightarrow> bool \<Rightarrow> (fault + jsw_rbtrav) option"
where
  "walk_down h trav d =
     (case it trav of None \<Rightarrow> Some (Inl NullDeref)
      | Some r \<Rightarrow>
         (case link (h r) d of None \<Rightarrow> Some (Inr trav)
          | Some c \<Rightarrow>
             (case push_path trav of Inl e \<Rightarrow> Some (Inl e)
              | Inr trav1 \<Rightarrow> walk_down h (trav1\<lparr>it := Some c\<rparr>) d)))"

definition start :: "heap \<Rightarrow> jsw_rbtrav \<Rightarrow> ptr \<Rightarrow> bool \<Rightarrow> (fault + jsw_rbtrav) option" where
  "start h trav root dir =
     (let trav1 = trav\<lparr>tree := root, it := root, top := 0\<rparr>
      in if it trav1 \<noteq> None then walk_down h trav1 dir else Some (Inr trav1))"

text \<open>
  The \<^verbatim>\<open>do ... while\<close> loop of \<^verbatim>\<open>move\<close> that pops the path until the node left
  behind was not the \<open>dir\<close> child of the popped one.
\<close>

function move_up :: "heap \<Rightarrow> jsw_rbtrav \<Rightarrow> bool \<Rightarrow> fault + jsw_rbtrav" where
  "move_up h trav dir =
     (if top trav = 0 then Inr (trav\<lparr>it := None\<rparr>)
      else
        let lastn = it trav;
            top1 = top trav - 1
        in if top1 < HEIGHT_LIMIT then
             let trav1 = trav\<lparr>top := top1, it := path trav ! top1\<rparr>
             in (case it trav1 of None \<Rightarrow> Inl NullDeref
                 | Some r \<Rightarrow> if lastn = link (h r) dir then move_up h trav1 dir else Inr trav1)
           else Inl PathOverflow)"
  by pat_completeness auto
termination
  by (relation "measure (\<lambda>(h, trav, dir). top trav)") auto

definition move :: "heap \<Rightarrow> jsw_rbtrav \<Rightarrow> bool \<Rightarrow> (fault + jsw_rbtrav) option" where
  "move h trav dir =
     (case it trav of None \<Rightarrow> Some (Inl NullDeref)
      | Some r \<Rightarrow>
         (case link (h r) dir of
            Some c \<Rightarrow>
              (case push_path trav of Inl e \<Rightarrow> Some (Inl e)
               | Inr trav1 \<Rightarrow> walk_down h (trav1\<lparr>it := Some c\<rparr>) (\<not> dir))
          | None \<Rightarrow> Some (move_up h trav dir)))"

definition jsw_rbtfirst :: "heap \<Rightarrow> jsw_rbtrav \<Rightarrow> ptr \<Rightarrow> (fault + jsw_rbtrav) option" where
  "jsw_rbtfirst h trav root = start h trav root False"

definition jsw_rbtlast :: "heap \<Rightarrow> jsw_rbtrav \<Rightarrow> ptr \<Rightarrow> (fault + jsw_rbtrav) option" where
  "jsw_rbtlast h trav root = start h trav root True"

definition jsw_rbtnext :: "heap \<Rightarrow> jsw_rbtrav \<Rightarrow> (fault + jsw_rbtrav) option" where
  "jsw_rbtnext h trav = move h trav True"

definition jsw_rbtprev :: "heap \<Rightarrow> jsw_rbtrav \<Rightarrow> (fault + jsw_rbtrav) option" where
  "jsw_rbtprev h trav = move h trav False"

declare find_loop.simps [code] insert_loop.simps [code] erase_loop.simps [code]
  walk_down.simps [code]

section \<open>Trees held by a store\<close>

text \<open>
  The tree that a store holds below a pointer, written as a term: \<open>Node l a c k r\<close> is
  the node at reference \<open>a\<close> with colour tag \<open>c\<close> (\<open>True\<close> for red) and key \<open>k\<close>, whose
  \<^verbatim>\<open>link[0]\<close> subtree is \<open>l\<close> and whose \<^verbatim>\<open>link[1]\<close> subtree is \<open>r\<close>; \<open>Leaf\<close> stands for
  an absent child. \<open>repr h p t\<close> says that following the links of the store \<open>h\<close> from
  the pointer \<open>p\<close> reads exactly \<open>t\<close>. The structure is a tree when no reference occurs
  twice (\<open>distinct_nodes\<close>); the sentinel is never one of its nodes.
\<close>

datatype atree = Leaf | Node atree ref bool "32 word" atree

fun repr :: "heap \<Rightarrow> ptr \<Rightarrow> atree \<Rightarrow> bool" where
  "repr h p Leaf = (p = None)"
| "repr h p (Node l a c k r) =
     (p = Some a \<and> red (h a) = c \<and> key (h a) = k \<and>
      repr h (link0 (h a)) l \<and> repr h (link1 (h a)) r)"

fun addrs :: "atree \<Rightarrow> ref list" where
  "addrs Leaf = []"
| "addrs (Node l a c k r) = addrs l @ a # addrs r"

definition distinct_nodes :: "atree \<Rightarrow> bool" where
  "distinct_nodes t = (distinct (addrs t) \<and> Head \<notin> set (addrs t))"

text \<open>The keys in link order: the \<^verbatim>\<open>link[0]\<close> subtree, the node, the \<^verbatim>\<open>link[1]\<close> subtree.\<close>

fun keys_of :: "atree \<Rightarrow> 32 word list" where
  "keys_of Leaf = []"
| "keys_of (Node l a c k r) = keys_of l @ k # keys_of r"

subsection \<open>The balance invariants\<close>

fun is_red_tree :: "atree \<Rightarrow> bool" where
  "is_red_tree Leaf = False"
| "is_red_tree (Node l a c k r) = c"

text \<open>The root, if present, is black.\<close>

definition root_black :: "atree \<Rightarrow> bool" where
  "root_black t = (\<not> is_red_tree t)"

text \<open>No red node has a red child.\<close>

fun no_red_red :: "atree \<Rightarrow> bool" where
  "no_red_red Leaf = True"
| "no_red_red (Node l a c k r) =
     ((if c then \<not> is_red_tree l \<and> \<not> is_red_tree r else True) \<and> no_red_red l \<and> no_red_red r)"

text \<open>
  The number of black nodes on each path from the root to an absent child, one entry
  per absent child, and the invariant that all these numbers are the same.
\<close>

fun black_counts :: "atree \<Rightarrow> nat list" where
  "black_counts Leaf = [0]"
| "black_counts (Node l a c k r) =
     map (\<lambda>n. n + (if c then 0 else 1)) (black_counts l @ black_counts r)"

definition uniform_black :: "atree \<Rightarrow> bool" where
  "uniform_black t = (\<forall>n \<in> set (black_counts t). n = hd (black_counts t))"

definition rb_inv :: "atree \<Rightarrow> bool" where
  "rb_inv t = (root_black t \<and> no_red_red t \<and> uniform_black t)"

subsection \<open>Call sequences on example stores\<close>

text \<open>
  \<open>store_of ks\<close> holds the caller's nodes \<open>Ptr 1\<close>, \<open>Ptr 2\<close>, ... carrying the keys
  \<open>ks\<close>, not linked to anything. A call passes one of these nodes to \<^verbatim>\<open>jsw_rbinsert\<close>
  or \<^verbatim>\<open>jsw_rberase\<close>.
\<close>

definition store_of :: "32 word list \<Rightarrow> heap" where
  "store_of ks =
     (\<lambda>r. case r of Head \<Rightarrow> head_init
          | Ptr a \<Rightarrow> if 0 < a \<and> a \<le> length ks then head_init\<lparr>key := ks ! (a - 1)\<rparr>
                     else head_init)"

datatype call = Insert nat | Erase nat

fun run_calls :: "heap \<Rightarrow> ptr \<Rightarrow> call list \<Rightarrow> (fault + heap \<times> ptr \<times> int list) option" where
  "run_calls h root [] = Some (Inr (h, root, []))"
| "run_calls h root (c # cs) =
     (case (case c of Insert a \<Rightarrow> jsw_rbinsert h root (Some (Ptr a))
                    | Erase a \<Rightarrow> jsw_rberase h root (Some (Ptr a))) of
        None \<Rightarrow> None
      | Some (Inl e) \<Rightarrow> Some (Inl e)
      | Some (Inr (h1, root1, x)) \<Rightarrow>
          (case run_calls h1 root1 cs of None \<Rightarrow> None
           | Some (Inl e) \<Rightarrow> Some (Inl e)
           | Some (Inr (h2, root2, xs)) \<Rightarrow> Some (Inr (h2, root2, x # xs))))"

text \<open>What a finished call sequence left: the tree, the values returned, a search.\<close>

definition leaves_tree :: "(fault + heap \<times> ptr \<times> int list) option \<Rightarrow> atree \<Rightarrow> bool" where
  "leaves_tree res t = (case res of Some (Inr (h, root, xs)) \<Rightarrow> repr h root t | _ \<Rightarrow> False)"

definition returned :: "(fault + heap \<times> ptr \<times> int list) option \<Rightarrow> int list option" where
  "returned res = (case res of Some (Inr (h, root, xs)) \<Rightarrow> Some xs | _ \<Rightarrow> None)"

definition then_find :: "(fault + heap \<times> ptr \<times> int list) option \<Rightarrow> nat \<Rightarrow> (fault + ptr) option" where
  "then_find res a =
     (case res of Some (Inr (h, root, xs)) \<Rightarrow> jsw_rbfind h root (Some (Ptr a))
      | Some (Inl e) \<Rightarrow> Some (Inl e) | None \<Rightarrow> None)"

text \<open>
  The keys a cursor visits: seeded by \<open>seed\<close>, stepped by \<open>step\<close> until it is empty,
  at most \<open>n\<close> times. \<open>None\<close> when a call faults or the cursor is not empty after \<open>n\<close>
  nodes.
\<close>

fun visit :: "(heap \<Rightarrow> jsw_rbtrav \<Rightarrow> (fault + jsw_rbtrav) option) \<Rightarrow> heap \<Rightarrow> nat \<Rightarrow>
    (fault + jsw_rbtrav) option \<Rightarrow> 32 word list option" where
  "visit step h n res =
     (case res of
        Some (Inr trav) \<Rightarrow>
          (case it trav of None \<Rightarrow> Some []
           | Some r \<Rightarrow>
              (case n of 0 \<Rightarrow> None
               | Suc m \<Rightarrow> map_option ((#) (key (h r))) (visit step h m (step h trav))))
      | _ \<Rightarrow> None)"

definition forward_keys :: "(fault + heap \<times> ptr \<times> int list) option \<Rightarrow> nat \<Rightarrow> 32 word list option" where
  "forward_keys res n =
     (case res of Some (Inr (h, root, xs)) \<Rightarrow> visit jsw_rbtnext h n (jsw_rbtfirst h jsw_rbtnew root)
      | _ \<Rightarrow> None)"

definition backward_keys :: "(fault + heap \<times> ptr \<times> int list) option \<Rightarrow> nat \<Rightarrow> 32 word list option" where
  "backward_keys res n =
     (case res of Some (Inr (h, root, xs)) \<Rightarrow> visit jsw_rbtprev h n (jsw_rbtlast h jsw_rbtnew root)
      | _ \<Rightarrow> None)"

subsection \<open>Positions in a tree\<close>

text \<open>
  \<open>mk d x a c k y\<close> is the node at \<open>a\<close> whose \<^verbatim>\<open>link[d]\<close> subtree is \<open>x\<close> and whose
  \<^verbatim>\<open>link[!d]\<close> subtree is \<open>y\<close>. A position in a tree is the list of nodes passed on the
  way down to it, nearest first, each with the direction taken and the subtree left
  aside; \<open>plug fs t\<close> is the tree that has \<open>t\<close> at the position \<open>fs\<close>.
\<close>

definition mk :: "bool \<Rightarrow> atree \<Rightarrow> ref \<Rightarrow> bool \<Rightarrow> 32 word \<Rightarrow> atree \<Rightarrow> atree" where
  "mk d x a c k y = (if d then Node y a c k x else Node x a c k y)"

type_synonym frame = "bool \<times> ref \<times> bool \<times> 32 word \<times> atree"

fun plug :: "frame list \<Rightarrow> atree \<Rightarrow> atree" where
  "plug [] t = t"
| "plug ((d, a, c, k, y) # fs) t = plug fs (mk d t a c k y)"

fun rootptr :: "atree \<Rightarrow> ptr" where
  "rootptr Leaf = None"
| "rootptr (Node l a c k r) = Some a"

fun height_of :: "atree \<Rightarrow> nat" where
  "height_of Leaf = 0"
| "height_of (Node l a c k r) = Suc (max (height_of l) (height_of r))"

fun size_of :: "atree \<Rightarrow> nat" where
  "size_of Leaf = 0"
| "size_of (Node l a c k r) = Suc (size_of l + size_of r)"

text \<open>
  The black height read along \<^verbatim>\<open>link[0]\<close>, and the tree-shaped form of the third
  invariant: at every node both subtrees have the same black height.
\<close>

fun bheight :: "atree \<Rightarrow> nat" where
  "bheight Leaf = 0"
| "bheight (Node l a c k r) = bheight l + (if c then 0 else 1)"

fun balanced :: "atree \<Rightarrow> bool" where
  "balanced Leaf = True"
| "balanced (Node l a c k r) = (bheight l = bheight r \<and> balanced l \<and> balanced r)"

fun paint :: "bool \<Rightarrow> atree \<Rightarrow> atree" where
  "paint c Leaf = Leaf"
| "paint c (Node l a c' k r) = Node l a c k r"

subsection \<open>Cursors in use\<close>

text \<open>
  The cursors a caller can hold on an unchanged store: one seeded by \<^verbatim>\<open>jsw_rbtfirst\<close> or
  \<^verbatim>\<open>jsw_rbtlast\<close> on a cursor object (whose path array has \<^verbatim>\<open>HEIGHT_LIMIT\<close> entries), or
  obtained from such a cursor by \<^verbatim>\<open>jsw_rbtnext\<close> or \<^verbatim>\<open>jsw_rbtprev\<close>.
\<close>

inductive seeded :: "heap \<Rightarrow> ptr \<Rightarrow> jsw_rbtrav \<Rightarrow> bool" for h :: heap and root :: ptr where
  seeded_first:
    "length (path trav0) = HEIGHT_LIMIT \<Longrightarrow> jsw_rbtfirst h trav0 root = Some (Inr trav) \<Longrightarrow>
     seeded h root trav"
| seeded_last:
    "length (path trav0) = HEIGHT_LIMIT \<Longrightarrow> jsw_rbtlast h trav0 root = Some (Inr trav) \<Longrightarrow>
     seeded h root trav"
| seeded_next:
    "seeded h root trav \<Longrightarrow> jsw_rbtnext h trav = Some (Inr trav') \<Longrightarrow> seeded h root trav'"
| seeded_prev:
    "seeded h root trav \<Longrightarrow> jsw_rbtprev h trav = Some (Inr trav') \<Longrightarrow> seeded h root trav'"

text \<open>
  What such a cursor holds, in terms of the tree \<open>t\<close> of the store: the current node is
  the root of the subtree at some position of \<open>t\<close>, and the path array lists, from index
  0 up to the top of stack, the nodes above it from the root downwards.
\<close>

definition frame_addr :: "frame \<Rightarrow> ref" where
  "frame_addr f = fst (snd f)"

definition trav_at :: "atree \<Rightarrow> jsw_rbtrav \<Rightarrow> bool" where
  "trav_at t trav =
     (length (path trav) = HEIGHT_LIMIT \<and>
      (case it trav of None \<Rightarrow> top trav = 0
       | Some a \<Rightarrow>
          (\<exists>fs s. t = plug fs s \<and> rootptr s = Some a \<and> top trav = length fs \<and>
             length fs \<le> HEIGHT_LIMIT \<and>
             take (length fs) (path trav) = map (\<lambda>f. Some (frame_addr f)) (rev fs))))"

subsection \<open>The state of the removal loop\<close>

text \<open>
  During \<^verbatim>\<open>jsw_rberase\<close> and \<^verbatim>\<open>jsw_rbinsert\<close> the sentinel \<open>Head\<close> stands above the root:
  its \<^verbatim>\<open>link[1]\<close> is the root, its \<^verbatim>\<open>link[0]\<close> is null and it is black.
\<close>

definition head_frame :: frame where
  "head_frame = (True, Head, False, 0, Leaf)"

definition head_tree :: "atree \<Rightarrow> atree" where
  "head_tree t = Node Leaf Head False 0 t"

definition parent_ref :: "frame list \<Rightarrow> ref" where
  "parent_ref fs = (case fs of [] \<Rightarrow> Head | f # _ \<Rightarrow> frame_addr f)"

text \<open>
  The loop invariant of \<^verbatim>\<open>jsw_rberase\<close> at the loop test, once \<^verbatim>\<open>q\<close> is a node of the
  tree. The tree of the store is \<open>plug fs s\<close> with \<open>s\<close> the subtree at \<^verbatim>\<open>q\<close>; it has the
  nodes of the initial tree \<open>t0\<close> in the same order from left to right, its key sequence, no red node with a red child and
  equal black heights (\<open>erase_base\<close>); \<^verbatim>\<open>p\<close> is the parent of \<^verbatim>\<open>q\<close>; and a red node has been
  pushed down: \<^verbatim>\<open>q\<close> or its child in direction \<^verbatim>\<open>dir\<close> is red, unless \<^verbatim>\<open>q\<close> is the root
  and its other child is not red. \<open>h0\<close> is the store at the start, \<open>node\<close> the node passed
  by the caller. A node is found (\<^verbatim>\<open>f\<close> is set) only if the key of \<open>node\<close> is in the tree
  (\<open>erase_hit\<close>, which also covers a \<open>node\<close> that is itself linked in the tree).
\<close>

definition erase_hit :: "atree \<Rightarrow> heap \<Rightarrow> ref \<Rightarrow> bool" where
  "erase_hit t0 h0 node =
     (node \<in> set (addrs t0) \<or> node = Head \<or> key (h0 node) \<in> set (keys_of t0))"

definition erase_base ::
  "atree \<Rightarrow> heap \<Rightarrow> heap \<Rightarrow> ref \<Rightarrow> ptr \<Rightarrow> frame list \<Rightarrow> atree \<Rightarrow> bool"
where
  "erase_base t0 h0 h node f fs s =
     (repr h (Some Head) (head_tree (plug fs s)) \<and>
      distinct_nodes (plug fs s) \<and>
      set (addrs (plug fs s)) = set (addrs t0) \<and>
      keys_of (plug fs s) = keys_of t0 \<and>
      (\<forall>x. x \<notin> set (addrs t0) \<longrightarrow> x \<noteq> Head \<longrightarrow> h x = h0 x) \<and>
      no_red_red (plug fs s) \<and> balanced (plug fs s) \<and>
      (f \<noteq> None \<longrightarrow> erase_hit t0 h0 node) \<and>
      addrs (plug fs s) = addrs t0)"

definition erase_inv ::
  "atree \<Rightarrow> heap \<Rightarrow> heap \<Rightarrow> ref \<Rightarrow> ptr \<Rightarrow> ptr \<Rightarrow> ref \<Rightarrow> bool \<Rightarrow> frame list \<Rightarrow> atree \<Rightarrow> bool"
where
  "erase_inv t0 h0 h node f p q dir fs s =
     (erase_base t0 h0 h node f fs s \<and>
      rootptr s = Some q \<and> p = Some (parent_ref fs) \<and>
      (\<exists>x cq kq y. s = mk dir x q cq kq y \<and>
         (cq \<or> is_red_tree x \<or> (fs = [] \<and> \<not> is_red_tree y))))"

text \<open>The tree of the same nodes with the keys read from the store.\<close>

fun rekey :: "heap \<Rightarrow> atree \<Rightarrow> atree" where
  "rekey h Leaf = Leaf"
| "rekey h (Node l a c k r) = Node (rekey h l) a c (key (h a)) (rekey h r)"

subsection \<open>The loop of insertion\<close>

text \<open>
  What the loop of \<^verbatim>\<open>jsw_rbinsert\<close> compares against: \<open>next_sub kn t\<close> is the subtree the
  search for the key \<open>kn\<close> turns to at the root of \<open>t\<close> (\<^verbatim>\<open>link[node_cmp(q, node) < 0]\<close>),
  and \<open>hits kn t\<close> says that this search meets a node that compares equal to \<open>kn\<close>.
  \<open>on_path kn fs\<close>: every node of the position \<open>fs\<close> compares unequal to \<open>kn\<close> and was
  left in the direction of the comparison.
\<close>

fun frame_dir :: "frame \<Rightarrow> bool" where
  "frame_dir (d, a, c, k, y) = d"

fun frame_red :: "frame \<Rightarrow> bool" where
  "frame_red (d, a, c, k, y) = c"

fun frame_key :: "frame \<Rightarrow> 32 word" where
  "frame_key (d, a, c, k, y) = k"

fun frame_sib :: "frame \<Rightarrow> atree" where
  "frame_sib (d, a, c, k, y) = y"

fun next_sub :: "32 word \<Rightarrow> atree \<Rightarrow> atree" where
  "next_sub kn Leaf = Leaf"
| "next_sub kn (Node l a c k r) = (if kn - k <s 0 then r else l)"

text \<open>The entry that the position gains when the search leaves the root of \<open>t\<close>.\<close>

fun down_frame :: "32 word \<Rightarrow> atree \<Rightarrow> frame" where
  "down_frame kn Leaf = (False, Head, False, 0, Leaf)"
| "down_frame kn (Node l a c k r) = (kn - k <s 0, a, c, k, if kn - k <s 0 then l else r)"

fun hits :: "32 word \<Rightarrow> atree \<Rightarrow> bool" where
  "hits kn Leaf = False"
| "hits kn (Node l a c k r) = (kn - k = 0 \<or> hits kn (if kn - k <s 0 then r else l))"

fun differs :: "32 word \<Rightarrow> atree \<Rightarrow> bool" where
  "differs kn Leaf = True"
| "differs kn (Node l a c k r) = (kn - k \<noteq> 0)"

definition on_path :: "32 word \<Rightarrow> frame list \<Rightarrow> bool" where
  "on_path kn fs =
     list_all (\<lambda>f. kn - frame_key f \<noteq> 0 \<and> frame_dir f = (kn - frame_key f <s 0)) fs"

text \<open>The node \<open>i\<close> levels above the position \<open>fs\<close>, counted from the parent.\<close>

definition anc :: "frame list \<Rightarrow> nat \<Rightarrow> ptr" where
  "anc fs i = (if i < length fs then Some (frame_addr (fs ! i)) else None)"

fun red_kids :: "atree \<Rightarrow> bool" where
  "red_kids Leaf = False"
| "red_kids (Node l a c k r) = (is_red_tree l \<and> is_red_tree r)"

fun black_kids :: "atree \<Rightarrow> bool" where
  "black_kids Leaf = True"
| "black_kids (Node l a c k r) = (\<not> is_red_tree l \<and> \<not> is_red_tree r)"

text \<open>A black node without a red child: the loop body changes nothing at such a node.\<close>

definition quiet :: "atree \<Rightarrow> bool" where
  "quiet s = (s \<noteq> Leaf \<and> \<not> is_red_tree s \<and> black_kids s)"

text \<open>
  The loop invariant of \<^verbatim>\<open>jsw_rbinsert\<close> at the top of the loop body. The tree of the store
  is \<open>plug fs s\<close> with \<open>s\<close> the subtree at \<^verbatim>\<open>q\<close> (a leaf when \<^verbatim>\<open>q\<close> is null); it has the nodes
  of the initial tree \<open>t0\<close> in the same order, its keys, no red node with a red child and equal black
  heights, and \<open>fs\<close> is the search path of the key of \<open>node\<close> (\<open>ins_base\<close>). \<^verbatim>\<open>p\<close> is the
  parent of \<^verbatim>\<open>q\<close>. The helpers \<^verbatim>\<open>g\<close> and \<^verbatim>\<open>t\<close> are the next two nodes up only in the phase
  \<open>Aligned\<close>; after a rotation they lag behind, and the loop passes through nodes at
  which no rotation can happen until they are right again:

  \<^item> \<open>Aligned\<close>: \<^verbatim>\<open>g\<close> is the parent of \<^verbatim>\<open>p\<close> and \<^verbatim>\<open>t\<close> the parent of \<^verbatim>\<open>g\<close> (\<^verbatim>\<open>head\<close> above the
    root). If \<^verbatim>\<open>p\<close> is red, \<^verbatim>\<open>g\<close> exists and the sibling of \<^verbatim>\<open>p\<close> is black; if \<^verbatim>\<open>p\<close> is black,
    \<^verbatim>\<open>q\<close> and its sibling are not both red.
  \<^item> \<open>Quiet\<close>: \<^verbatim>\<open>q\<close> is a black node without a red child, \<^verbatim>\<open>g\<close> is the parent of \<^verbatim>\<open>p\<close>.
  \<^item> \<open>Revisit\<close>: after a double rotation \<^verbatim>\<open>q\<close> is a red node the search has passed
    before; the search leaves it for a black node without a red child.
\<close>

datatype phase = Aligned | Quiet | Revisit

definition ins_base ::
  "atree \<Rightarrow> heap \<Rightarrow> heap \<Rightarrow> ref \<Rightarrow> frame list \<Rightarrow> atree \<Rightarrow> bool"
where
  "ins_base t0 h0 h node fs s =
     (repr h (Some Head) (head_tree (plug fs s)) \<and>
      distinct_nodes (plug fs s) \<and>
      set (addrs (plug fs s)) = set (addrs t0) \<and>
      keys_of (plug fs s) = keys_of t0 \<and>
      (\<forall>x. x \<notin> set (addrs t0) \<longrightarrow> x \<noteq> Head \<longrightarrow> h x = h0 x) \<and>
      node \<notin> set (addrs t0) \<and> node \<noteq> Head \<and>
      no_red_red (plug fs s) \<and> balanced (plug fs s) \<and>
      on_path (key (h0 node)) fs \<and>
      addrs (plug fs s) = addrs t0)"

definition ins_phase ::
  "phase \<Rightarrow> 32 word \<Rightarrow> bool \<Rightarrow> ptr \<Rightarrow> ptr \<Rightarrow> bool \<Rightarrow> frame list \<Rightarrow> atree \<Rightarrow> bool"
where
  "ins_phase ph kn hit t g lastd fs s =
     (case ph of
        Aligned \<Rightarrow>
          g = anc fs 1 \<and> (1 < length fs \<longrightarrow> lastd = frame_dir (fs ! 1)) \<and>
          t = Some (parent_ref (drop 2 fs)) \<and>
          hits kn s = hit \<and>
          (case fs of
             [] \<Rightarrow> s \<noteq> Leaf \<and> \<not> is_red_tree s
           | f # fs' \<Rightarrow>
               if frame_red f then
                 (case fs' of [] \<Rightarrow> False | f' # _ \<Rightarrow> \<not> is_red_tree (frame_sib f'))
               else \<not> (is_red_tree s \<and> is_red_tree (frame_sib f)))
      | Quiet \<Rightarrow>
          g = anc fs 1 \<and> (1 < length fs \<longrightarrow> lastd = frame_dir (fs ! 1)) \<and>
          (length fs < 2 \<longrightarrow> t = Some Head) \<and>
          hits kn s = hit \<and> quiet s
      | Revisit \<Rightarrow>
          fs \<noteq> [] \<and> is_red_tree s \<and> black_kids s \<and> differs kn s \<and>
          quiet (next_sub kn s) \<and> hits kn (next_sub kn s) = hit)"

definition ins_inv ::
  "phase \<Rightarrow> atree \<Rightarrow> heap \<Rightarrow> heap \<Rightarrow> ref \<Rightarrow> ptr \<Rightarrow> ptr \<Rightarrow> ptr \<Rightarrow> ptr \<Rightarrow> bool \<Rightarrow> bool \<Rightarrow>
   frame list \<Rightarrow> atree \<Rightarrow> bool"
where
  "ins_inv ph t0 h0 h node t g p q dir lastd fs s =
     (ins_base t0 h0 h node fs s \<and>
      rootptr s = q \<and> p = anc fs 0 \<and> (fs \<noteq> [] \<longrightarrow> dir = frame_dir (fs ! 0)) \<and>
      ins_phase ph (key (h0 node)) (hits (key (h0 node)) t0) t g lastd fs s)"

definition ins_measure :: "phase \<Rightarrow> 32 word \<Rightarrow> atree \<Rightarrow> nat" where
  "ins_measure ph kn s =
     (case ph of Revisit \<Rightarrow> 3 * size_of (next_sub kn s) + 1 | _ \<Rightarrow> 3 * size_of s)"

text \<open>
  What the loop leaves: a tree with no red node below a red node and equal black
  heights (its root may be red). If the search for the key of \<open>node\<close> met an equal key,
  the tree has the nodes of \<open>t0\<close> in the same order and no cell outside \<open>t0\<close> has changed;
  otherwise \<open>node\<close> has joined the tree and its key stands at one place of the key
  sequence.
\<close>

definition ins_post :: "atree \<Rightarrow> heap \<Rightarrow> heap \<Rightarrow> ref \<Rightarrow> atree \<Rightarrow> bool" where
  "ins_post t0 h0 h' node t' =
     (repr h' (Some Head) (head_tree t') \<and> distinct_nodes t' \<and>
      no_red_red t' \<and> balanced t' \<and> t' \<noteq> Leaf \<and>
      (if hits (key (h0 node)) t0 then
         set (addrs t') = set (addrs t0) \<and> keys_of t' = keys_of t0 \<and>
         (\<forall>x. x \<notin> set (addrs t0) \<longrightarrow> x \<noteq> Head \<longrightarrow> h' x = h0 x) \<and>
         addrs t' = addrs t0
       else
         set (addrs t') = insert node (set (addrs t0)) \<and>
         (\<exists>ks1 ks2. keys_of t0 = ks1 @ ks2 \<and> keys_of t' = ks1 @ key (h0 node) # ks2) \<and>
         key (h' node) = key (h0 node) \<and>
         (\<forall>x. x \<notin> set (addrs t0) \<longrightarrow> x \<noteq> Head \<longrightarrow> x \<noteq> node \<longrightarrow> h' x = h0 x)))"

text \<open>
  The value of the loop is as wanted (\<open>ins_goal\<close>): the loop ends by \<^verbatim>\<open>break\<close> and leaves a
  store as described by \<open>ins_post\<close>. One pass through the body either ends the loop in
  this way or reaches the top of the body again in a state that satisfies the invariant
  and is nearer to the end (\<open>ins_next\<close>).
\<close>

definition ins_goal ::
  "atree \<Rightarrow> heap \<Rightarrow> ref \<Rightarrow> (fault + heap \<times> int option) option \<Rightarrow> bool"
where
  "ins_goal t0 h0 node r = (\<exists>h' t'. r = Some (Inr (h', None)) \<and> ins_post t0 h0 h' node t')"

definition ins_next ::
  "phase \<Rightarrow> atree \<Rightarrow> heap \<Rightarrow> ref \<Rightarrow> (fault + heap \<times> int option) option \<Rightarrow> atree \<Rightarrow> bool"
where
  "ins_next ph t0 h0 node r s =
     (ins_goal t0 h0 node r \<or>
      (\<exists>ph' h' t' g' p' q' dir' lastd' fs' s'.
          r = insert_loop h' node t' g' p' q' dir' lastd' \<and>
          ins_inv ph' t0 h0 h' node t' g' p' q' dir' lastd' fs' s' \<and>
          ins_measure ph' (key (h0 node)) s' < ins_measure ph (key (h0 node)) s))"

subsection \<open>Example stores\<close>

text \<open>
  The store after inserting the keys 2, 1, 3 from the nodes 1, 2, 3: node 1 is the black
  root, node 3 (key 3) hangs at its \<^verbatim>\<open>link[0]\<close> and node 2 (key 1) at its \<^verbatim>\<open>link[1]\<close>.
  Node 4 carries the key 1 again, node 5 the key 9; neither is linked.
\<close>

definition ex_store :: heap where
  "ex_store = (store_of [2, 1, 3, 1, 9])
     (Ptr 1 := \<lparr>red = False, link0 = Some (Ptr 3), link1 = Some (Ptr 2), key = 2\<rparr>,
      Ptr 2 := \<lparr>red = True, link0 = None, link1 = None, key = 1\<rparr>,
      Ptr 3 := \<lparr>red = True, link0 = None, link1 = None, key = 3\<rparr>)"

definition ex_tree :: atree where
  "ex_tree = Node (Node Leaf (Ptr 3) True 3 Leaf) (Ptr 1) False 2 (Node Leaf (Ptr 2) True 1 Leaf)"

text \<open>The cursor that \<^verbatim>\<open>jsw_rbtfirst\<close> leaves on this tree.\<close>

definition ex_trav :: jsw_rbtrav where
  "ex_trav = \<lparr>tree = Some (Ptr 1), it = Some (Ptr 3),
              path = (replicate HEIGHT_LIMIT None)[0 := Some (Ptr 1)], top = 1\<rparr>"

section \<open>Lemmas about stores and trees\<close>

lemma link_simps [simp]:
  "link n True = link1 n" "link n False = link0 n"
  by (simp_all add: link_def)

lemma set_link_simps [simp]:
  "set_link n True v = n\<lparr>link1 := v\<rparr>" "set_link n False v = n\<lparr>link0 := v\<rparr>"
  by (simp_all add: set_link_def)

lemma is_red_simps [simp]:
  "is_red h None = False" "is_red h (Some r) = red (h r)"
  by (simp_all add: is_red_def)

lemma repr_Some: "repr h (Some a) t \<Longrightarrow> a \<in> set (addrs t)"
  by (cases t) auto

lemma repr_None [simp]: "repr h None t \<longleftrightarrow> t = Leaf"
  by (cases t) auto

lemma repr_rootptr: "repr h p t \<Longrightarrow> p = rootptr t"
  by (cases t) auto

lemma repr_is_red: "repr h p t \<Longrightarrow> is_red h p = is_red_tree t"
  by (cases t) auto

lemma repr_cong: "(\<And>x. x \<in> set (addrs t) \<Longrightarrow> h' x = h x) \<Longrightarrow> repr h' p t = repr h p t"
  by (induction t arbitrary: p) auto

lemma repr_upd [simp]: "a \<notin> set (addrs t) \<Longrightarrow> repr (h(a := n)) p t = repr h p t"
  by (rule repr_cong) auto

lemma repr_unique: "repr h p t \<Longrightarrow> repr h p t' \<Longrightarrow> t = t'"
proof (induction t arbitrary: p t')
  case Leaf
  then show ?case by simp
next
  case (Node l a c k r)
  then show ?case by (cases t') auto
qed

lemma distinct_nodes_Leaf [simp]: "distinct_nodes Leaf"
  by (simp add: distinct_nodes_def)

lemma distinct_nodes_Node [simp]:
  "distinct_nodes (Node l a c k r) \<longleftrightarrow>
     distinct_nodes l \<and> distinct_nodes r \<and> a \<noteq> Head \<and> a \<notin> set (addrs l) \<and>
     a \<notin> set (addrs r) \<and> set (addrs l) \<inter> set (addrs r) = {}"
  by (auto simp: distinct_nodes_def)

lemma repr_mk [simp]:
  "repr h p (mk d x a c k y) \<longleftrightarrow>
     p = Some a \<and> red (h a) = c \<and> key (h a) = k \<and> repr h (link (h a) d) x \<and>
     repr h (link (h a) (\<not> d)) y"
  by (cases d) (auto simp: mk_def)

lemma addrs_mk [simp]: "set (addrs (mk d x a c k y)) = insert a (set (addrs x) \<union> set (addrs y))"
  by (cases d) (auto simp: mk_def)

lemma distinct_nodes_mk [simp]:
  "distinct_nodes (mk d x a c k y) \<longleftrightarrow>
     distinct_nodes x \<and> distinct_nodes y \<and> a \<noteq> Head \<and> a \<notin> set (addrs x) \<and>
     a \<notin> set (addrs y) \<and> set (addrs x) \<inter> set (addrs y) = {}"
  by (cases d) (auto simp: mk_def)

lemma rootptr_mk [simp]: "rootptr (mk d x a c k y) = Some a"
  by (simp add: mk_def)

lemma is_red_tree_mk [simp]: "is_red_tree (mk d x a c k y) = c"
  by (simp add: mk_def)

lemma Node_as_mk: "Node l a c k r = mk d (if d then r else l) a c k (if d then l else r)"
  by (simp add: mk_def)

lemma size_of_mk [simp]: "size_of (mk d x a c k y) = Suc (size_of x + size_of y)"
  by (simp add: mk_def)

lemma height_of_mk [simp]: "height_of (mk d x a c k y) = Suc (max (height_of x) (height_of y))"
  by (simp add: mk_def max.commute)

lemma no_red_red_mk [simp]:
  "no_red_red (mk d x a c k y) \<longleftrightarrow>
     (c \<longrightarrow> \<not> is_red_tree x \<and> \<not> is_red_tree y) \<and> no_red_red x \<and> no_red_red y"
  by (cases d) (auto simp: mk_def)

lemma balanced_mk [simp]:
  "balanced (mk d x a c k y) \<longleftrightarrow> bheight x = bheight y \<and> balanced x \<and> balanced y"
  by (cases d) (auto simp: mk_def)

lemma bheight_mk: "balanced (mk d x a c k y) \<Longrightarrow> bheight (mk d x a c k y) = bheight x + (if c then 0 else 1)"
  by (cases d) (auto simp: mk_def)

lemma addrs_plug: "set (addrs (plug fs t)) = set (addrs (plug fs Leaf)) \<union> set (addrs t)"
proof (induction fs arbitrary: t)
  case Nil
  then show ?case by simp
next
  case (Cons f fs)
  obtain d a c k y where f: "f = (d, a, c, k, y)" by (cases f)
  have "set (addrs (plug fs (mk d t a c k y))) =
          set (addrs (plug fs Leaf)) \<union> set (addrs (mk d t a c k y))"
    by (rule Cons.IH)
  moreover have "set (addrs (plug fs (mk d Leaf a c k y))) =
          set (addrs (plug fs Leaf)) \<union> set (addrs (mk d Leaf a c k y))"
    by (rule Cons.IH)
  ultimately show ?case by (auto simp: f)
qed

lemma plug_append: "plug (fs @ gs) t = plug gs (plug fs t)"
  by (induction fs arbitrary: t) auto

lemma repr_plug_focus: "repr h p (plug fs s) \<Longrightarrow> repr h (rootptr s) s"
proof (induction fs arbitrary: s)
  case Nil
  then show ?case using repr_rootptr by fastforce
next
  case (Cons f fs)
  obtain d a c k y where f: "f = (d, a, c, k, y)" by (cases f)
  from Cons.prems have "repr h p (plug fs (mk d s a c k y))" by (simp add: f)
  then have "repr h (rootptr (mk d s a c k y)) (mk d s a c k y)" by (rule Cons.IH)
  then have "repr h (link (h a) d) s" by simp
  then show ?case using repr_rootptr by fastforce
qed

lemma distinct_plug_focus: "distinct_nodes (plug fs s) \<Longrightarrow> distinct_nodes s"
proof (induction fs arbitrary: s)
  case Nil
  then show ?case by simp
next
  case (Cons f fs)
  obtain d a c k y where f: "f = (d, a, c, k, y)" by (cases f)
  from Cons.prems have "distinct_nodes (plug fs (mk d s a c k y))" by (simp add: f)
  then have "distinct_nodes (mk d s a c k y)" by (rule Cons.IH)
  then show ?case by simp
qed

lemma height_plug: "length fs + height_of s \<le> height_of (plug fs s)"
proof (induction fs arbitrary: s)
  case Nil
  then show ?case by simp
next
  case (Cons f fs)
  obtain d a c k y where f: "f = (d, a, c, k, y)" by (cases f)
  have "length fs + height_of (mk d s a c k y) \<le> height_of (plug fs (mk d s a c k y))"
    by (rule Cons.IH)
  then show ?case by (simp add: f)
qed

section \<open>Replacing a subtree at a position\<close>

lemma link_set_link [simp]: "link (set_link n d v) d' = (if d' = d then v else link n d')"
  by (cases d; cases d') (simp_all add: link_def set_link_def)

lemma red_set_link [simp]: "red (set_link n d v) = red n"
  by (simp add: set_link_def)

lemma key_set_link [simp]: "key (set_link n d v) = key n"
  by (simp add: set_link_def)

lemma link_red_update [simp]: "link (n\<lparr>red := c\<rparr>) d = link n d"
  by (simp add: link_def)

lemma link_key_update [simp]: "link (n\<lparr>key := k\<rparr>) d = link n d"
  by (simp add: link_def)

lemma set_link_red_update: "(set_link n d v)\<lparr>red := c\<rparr> = set_link (n\<lparr>red := c\<rparr>) d v"
  by (simp add: set_link_def)

lemma distinct_addrs_mk [simp]:
  "distinct (addrs (mk d x a c k y)) \<longleftrightarrow>
     distinct (addrs x) \<and> distinct (addrs y) \<and> a \<notin> set (addrs x) \<and>
     a \<notin> set (addrs y) \<and> set (addrs x) \<inter> set (addrs y) = {}"
  by (cases d) (auto simp: mk_def)

lemma keys_of_mk: "keys_of (mk d x a c k y) = (if d then keys_of y @ k # keys_of x else keys_of x @ k # keys_of y)"
  by (simp add: mk_def)

lemma repr_mk_dest:
  assumes "repr h p (mk d x a c k y)"
  shows "p = Some a" "red (h a) = c" "key (h a) = k" "link (h a) d = rootptr x"
    "link (h a) (\<not> d) = rootptr y" "repr h (rootptr x) x" "repr h (rootptr y) y"
  using assms repr_rootptr[of h "link (h a) d" x] repr_rootptr[of h "link (h a) (\<not> d)" y]
  by auto

lemma distinct_plug_focus': "distinct (addrs (plug fs s)) \<Longrightarrow> distinct (addrs s)"
proof (induction fs arbitrary: s)
  case Nil
  then show ?case by simp
next
  case (Cons f fs)
  obtain d a c k y where f: "f = (d, a, c, k, y)" by (cases f)
  from Cons.prems have "distinct (addrs (plug fs (mk d s a c k y)))" by (simp add: f)
  then have "distinct (addrs (mk d s a c k y))" by (rule Cons.IH)
  then show ?case by simp
qed

lemma plug_replace_repr:
  assumes "repr h rt (plug fs s)" "distinct (addrs (plug fs s))"
    "repr h' (rootptr s) s'" "set (addrs s') \<subseteq> set (addrs s)"
    "\<And>x. x \<notin> set (addrs s) \<Longrightarrow> h' x = h x"
  shows "repr h' rt (plug fs s')"
  using assms
proof (induction fs arbitrary: s s')
  case Nil
  then show ?case using repr_rootptr[of h rt s] by simp
next
  case (Cons f fs)
  obtain d a c k y where f: "f = (d, a, c, k, y)" by (cases f)
  have R: "repr h rt (plug fs (mk d s a c k y))" and D: "distinct (addrs (plug fs (mk d s a c k y)))"
    using Cons.prems(1,2) by (simp_all add: f)
  have foc: "repr h (Some a) (mk d s a c k y)"
    using repr_plug_focus[OF R] by simp
  have dis: "distinct (addrs (mk d s a c k y))"
    using distinct_plug_focus'[OF D] .
  have a: "h' a = h a" using dis by (intro Cons.prems(5)) simp
  have y: "repr h' (rootptr y) y = repr h (rootptr y) y"
    using dis by (intro repr_cong Cons.prems(5)) auto
  have "repr h' (Some a) (mk d s' a c k y)"
    using repr_mk_dest[OF foc] Cons.prems(3) a y by simp
  then have "repr h' rt (plug fs (mk d s' a c k y))"
    using R D Cons.prems(4,5)
    by (intro Cons.IH[where s = "mk d s a c k y"]) auto
  then show ?case by (simp add: f)
qed

lemma plug_replace_addrs:
  "set (addrs s') = set (addrs s) \<Longrightarrow> set (addrs (plug fs s')) = set (addrs (plug fs s))"
  using addrs_plug[of fs s] addrs_plug[of fs s'] by simp

lemma plug_replace_distinct:
  assumes "distinct (addrs (plug fs s))" "distinct (addrs s')" "set (addrs s') \<subseteq> set (addrs s)"
  shows "distinct (addrs (plug fs s'))"
  using assms
proof (induction fs arbitrary: s s')
  case Nil
  then show ?case by simp
next
  case (Cons f fs)
  obtain d a c k y where f: "f = (d, a, c, k, y)" by (cases f)
  have D: "distinct (addrs (plug fs (mk d s a c k y)))"
    using Cons.prems(1) by (simp add: f)
  have dis: "distinct (addrs (mk d s a c k y))"
    using distinct_plug_focus'[OF D] .
  have d': "distinct (addrs (mk d s' a c k y))"
    using dis Cons.prems(2,3) unfolding distinct_addrs_mk by blast
  have sub: "set (addrs (mk d s' a c k y)) \<subseteq> set (addrs (mk d s a c k y))"
    using Cons.prems(3) unfolding addrs_mk by blast
  have "distinct (addrs (plug fs (mk d s' a c k y)))"
    using D d' sub by (rule Cons.IH)
  then show ?case by (simp add: f)
qed

lemma plug_replace_keys:
  "keys_of s' = keys_of s \<Longrightarrow> keys_of (plug fs s') = keys_of (plug fs s)"
proof (induction fs arbitrary: s s')
  case Nil
  then show ?case by simp
next
  case (Cons f fs)
  obtain d a c k y where f: "f = (d, a, c, k, y)" by (cases f)
  have "keys_of (plug fs (mk d s' a c k y)) = keys_of (plug fs (mk d s a c k y))"
    using Cons.prems by (intro Cons.IH) (simp add: keys_of_mk)
  then show ?case by (simp add: f)
qed

lemma addrs_mk_list:
  "addrs (mk d x a c k y) = (if d then addrs y @ a # addrs x else addrs x @ a # addrs y)"
  by (simp add: mk_def)

lemma plug_replace_addrs_list:
  "addrs s' = addrs s \<Longrightarrow> addrs (plug fs s') = addrs (plug fs s)"
proof (induction fs arbitrary: s s')
  case Nil
  then show ?case by simp
next
  case (Cons f fs)
  obtain d a c k y where f: "f = (d, a, c, k, y)" by (cases f)
  have "addrs (plug fs (mk d s' a c k y)) = addrs (plug fs (mk d s a c k y))"
    using Cons.prems by (intro Cons.IH) (simp add: addrs_mk_list)
  then show ?case by (simp add: f)
qed

lemma plug_focus_nrr: "no_red_red (plug fs s) \<Longrightarrow> no_red_red s"
proof (induction fs arbitrary: s)
  case Nil
  then show ?case by simp
next
  case (Cons f fs)
  obtain d a c k y where f: "f = (d, a, c, k, y)" by (cases f)
  from Cons.prems have "no_red_red (plug fs (mk d s a c k y))" by (simp add: f)
  then have "no_red_red (mk d s a c k y)" by (rule Cons.IH)
  then show ?case by simp
qed

lemma plug_focus_bal: "balanced (plug fs s) \<Longrightarrow> balanced s"
proof (induction fs arbitrary: s)
  case Nil
  then show ?case by simp
next
  case (Cons f fs)
  obtain d a c k y where f: "f = (d, a, c, k, y)" by (cases f)
  from Cons.prems have "balanced (plug fs (mk d s a c k y))" by (simp add: f)
  then have "balanced (mk d s a c k y)" by (rule Cons.IH)
  then show ?case by simp
qed

lemma bheight_mk' [simp]: "bheight (mk d x a c k y) = (if d then bheight y else bheight x) + (if c then 0 else 1)"
  by (simp add: mk_def)

lemma plug_replace_inv:
  assumes "no_red_red (plug fs s)" "balanced (plug fs s)"
    "no_red_red s'" "balanced s'" "bheight s' = bheight s" "is_red_tree s' \<longrightarrow> is_red_tree s"
  shows "no_red_red (plug fs s') \<and> balanced (plug fs s')"
  using assms
proof (induction fs arbitrary: s s')
  case Nil
  then show ?case by simp
next
  case (Cons f fs)
  obtain d a c k y where f: "f = (d, a, c, k, y)" by (cases f)
  have N: "no_red_red (plug fs (mk d s a c k y))" and B: "balanced (plug fs (mk d s a c k y))"
    using Cons.prems(1,2) by (simp_all add: f)
  have n: "no_red_red (mk d s a c k y)" and b: "balanced (mk d s a c k y)"
    using plug_focus_nrr[OF N] plug_focus_bal[OF B] by simp_all
  have "no_red_red (plug fs (mk d s' a c k y)) \<and> balanced (plug fs (mk d s' a c k y))"
    using N B n b Cons.prems(3-6)
    by (intro Cons.IH[where s = "mk d s a c k y"]) auto
  then show ?case by (simp add: f)
qed

section \<open>Black height and height\<close>

lemma black_counts_nonempty [simp]: "black_counts t \<noteq> []"
  by (induction t) auto

lemma hd_black_counts: "hd (black_counts t) = bheight t"
  by (induction t) (auto simp: hd_map hd_append)

lemma bheight_in_counts: "bheight t \<in> set (black_counts t)"
  using hd_in_set[OF black_counts_nonempty, of t] by (simp add: hd_black_counts)

lemma uniform_black_balanced: "uniform_black t \<longleftrightarrow> balanced t"
proof -
  have "(\<forall>n \<in> set (black_counts t). n = bheight t) \<longleftrightarrow> balanced t"
  proof (induction t)
    case Leaf
    then show ?case by simp
  next
    case (Node l a c k r)
    show ?case
    proof
      assume A: "\<forall>n\<in>set (black_counts (Node l a c k r)). n = bheight (Node l a c k r)"
      have L: "\<forall>n \<in> set (black_counts l). n = bheight l"
      proof
        fix n assume "n \<in> set (black_counts l)"
        then have "n + (if c then 0 else 1) \<in> set (black_counts (Node l a c k r))" by simp
        with A show "n = bheight l" by fastforce
      qed
      have R: "\<forall>n \<in> set (black_counts r). n = bheight l"
      proof
        fix n assume "n \<in> set (black_counts r)"
        then have "n + (if c then 0 else 1) \<in> set (black_counts (Node l a c k r))" by simp
        with A show "n = bheight l" by fastforce
      qed
      from R bheight_in_counts[of r] have eq: "bheight r = bheight l" by auto
      with L R Node.IH show "balanced (Node l a c k r)" by simp
    next
      assume "balanced (Node l a c k r)"
      with Node.IH show "\<forall>n\<in>set (black_counts (Node l a c k r)). n = bheight (Node l a c k r)"
        by auto
    qed
  qed
  then show ?thesis by (simp add: uniform_black_def hd_black_counts)
qed






section \<open>The cursor on a tree\<close>

lemma take_Suc_update:
  "n < length xs \<Longrightarrow> take (Suc n) (xs[n := v]) = take n xs @ [v]"
  by (simp add: take_Suc_conv_app_nth)

lemma trav_atI:
  "length (path trav) = HEIGHT_LIMIT \<Longrightarrow> it trav = Some a \<Longrightarrow> t = plug fs s \<Longrightarrow>
   rootptr s = Some a \<Longrightarrow> top trav = length fs \<Longrightarrow> length fs \<le> HEIGHT_LIMIT \<Longrightarrow>
   take (length fs) (path trav) = map (\<lambda>f. Some (frame_addr f)) (rev fs) \<Longrightarrow> trav_at t trav"
  unfolding trav_at_def by auto

lemma walk_down_tree:
  assumes "repr h root (plug fs s)" "rootptr s = Some a" "it trav = Some a"
    "top trav = length fs" "length (path trav) = HEIGHT_LIMIT" "length fs \<le> HEIGHT_LIMIT"
    "take (length fs) (path trav) = map (\<lambda>f. Some (frame_addr f)) (rev fs)"
  shows "(\<exists>trav'. walk_down h trav d = Some (Inr trav') \<and> trav_at (plug fs s) trav' \<and>
            it trav' \<noteq> None)
         \<or> (walk_down h trav d = Some (Inl PathOverflow) \<and> HEIGHT_LIMIT < height_of (plug fs s))"
  using assms
proof (induction s arbitrary: fs a trav)
  case Leaf
  then show ?case by simp
next
  case (Node l b c k r)
  define x where "x = (if d then r else l)"
  define y where "y = (if d then l else r)"
  have ba: "b = a" using Node.prems(2) by simp
  have s: "Node l a c k r = mk d x a c k y"
    by (simp add: x_def y_def mk_def)
  note P = Node.prems[unfolded ba s]
  have foc: "repr h (Some a) (mk d x a c k y)"
    using repr_plug_focus[OF P(1)] by simp
  then have lx: "repr h (link (h a) d) x" by simp
  have "(\<exists>trav'. walk_down h trav d = Some (Inr trav') \<and> trav_at (plug fs (mk d x a c k y)) trav' \<and>
            it trav' \<noteq> None)
         \<or> (walk_down h trav d = Some (Inl PathOverflow) \<and>
             HEIGHT_LIMIT < height_of (plug fs (mk d x a c k y)))"
  proof (cases x)
    case Leaf
    with lx have "link (h a) d = None" by simp
    then have "walk_down h trav d = Some (Inr trav)"
      by (subst walk_down.simps) (simp add: P(3))
    moreover have "trav_at (plug fs (mk d x a c k y)) trav"
      by (rule trav_atI[where fs = fs and s = "mk d x a c k y" and a = a])
         (use P in simp_all)
    ultimately show ?thesis using P(3) by auto
  next
    case (Node xl e xc xk xr)
    with lx have le: "link (h a) d = Some e" by simp
    show ?thesis
    proof (cases "top trav < HEIGHT_LIMIT")
      case False
      then have "walk_down h trav d = Some (Inl PathOverflow)"
        by (subst walk_down.simps) (simp add: P(3) le push_path_def)
      moreover have "length fs + height_of (mk d x a c k y) \<le> height_of (plug fs (mk d x a c k y))"
        by (rule height_plug)
      ultimately show ?thesis
        using False P(4) \<open>x = Node xl e xc xk xr\<close> by simp
    next
      case True
      define trav1 where
        "trav1 = trav\<lparr>path := (path trav)[top trav := it trav], top := top trav + 1, it := Some e\<rparr>"
      have wd: "walk_down h trav d = walk_down h trav1 d"
        by (subst walk_down.simps) (simp add: P(3) le push_path_def True trav1_def)
      define fs' where "fs' = (d, a, c, k, y) # fs"
      have pl: "plug fs' x = plug fs (mk d x a c k y)"
        by (simp add: fs'_def)
      have tk: "take (length fs') (path trav1) = map (\<lambda>f. Some (frame_addr f)) (rev fs')"
        using True P(3,4,5,7)
        by (simp add: trav1_def fs'_def take_Suc_update frame_addr_def)
      have pre: "repr h root (plug fs' x)" "rootptr x = Some e" "it trav1 = Some e"
        "top trav1 = length fs'" "length (path trav1) = HEIGHT_LIMIT" "length fs' \<le> HEIGHT_LIMIT"
        using P True \<open>x = Node xl e xc xk xr\<close> by (simp_all add: trav1_def fs'_def)
      have xIH: "(\<exists>trav'. walk_down h trav1 d = Some (Inr trav') \<and> trav_at (plug fs' x) trav' \<and>
            it trav' \<noteq> None)
         \<or> (walk_down h trav1 d = Some (Inl PathOverflow) \<and> HEIGHT_LIMIT < height_of (plug fs' x))"
      proof (cases d)
        case True
        then have xr: "x = r" by (simp add: x_def)
        show ?thesis using Node.IH(2)[OF pre(1)[unfolded xr] pre(2)[unfolded xr] pre(3,4,5,6) tk]
          by (simp add: xr)
      next
        case False
        then have xr: "x = l" by (simp add: x_def)
        show ?thesis using Node.IH(1)[OF pre(1)[unfolded xr] pre(2)[unfolded xr] pre(3,4,5,6) tk]
          by (simp add: xr)
      qed
      then show ?thesis by (simp add: wd pl)
    qed
  qed
  then show ?case unfolding ba s .
qed

lemma move_up_tree:
  assumes "repr h root (plug fs s)" "distinct_nodes (plug fs s)" "rootptr s = Some a"
    "it trav = Some a" "top trav = length fs" "length (path trav) = HEIGHT_LIMIT"
    "length fs \<le> HEIGHT_LIMIT"
    "take (length fs) (path trav) = map (\<lambda>f. Some (frame_addr f)) (rev fs)"
  shows "\<exists>trav'. move_up h trav d = Inr trav' \<and> trav_at (plug fs s) trav'"
  using assms
proof (induction fs arbitrary: s a trav)
  case Nil
  then show ?case by (simp add: trav_at_def)
next
  case (Cons f fs)
  obtain fd b c k y where f: "f = (fd, b, c, k, y)" by (cases f)
  define s' where "s' = mk fd s b c k y"
  have pl: "plug (f # fs) s = plug fs s'" by (simp add: f s'_def)
  note P = Cons.prems[unfolded pl]
  have foc: "repr h (Some b) (mk fd s b c k y)"
    using repr_plug_focus[OF P(1)] by (simp add: s'_def)
  have dis: "distinct_nodes (mk fd s b c k y)"
    using distinct_plug_focus[OF P(2)] by (simp add: s'_def)
  have sa: "repr h (Some a) s"
    using foc repr_rootptr[of h _ s] Cons.prems(3) by auto
  have a_in: "a \<in> set (addrs s)" using sa by (rule repr_Some)
  have lnk: "link (h b) d = Some a \<longleftrightarrow> fd = d"
  proof (cases "fd = d")
    case True
    then show ?thesis using foc sa repr_rootptr[of h "link (h b) d" s] Cons.prems(3) by auto
  next
    case False
    then have "repr h (link (h b) d) y" using foc by (cases d; cases fd) auto
    then have "link (h b) d = Some a \<Longrightarrow> a \<in> set (addrs y)" using repr_Some by metis
    then show ?thesis using False dis a_in by auto
  qed
  have n: "top trav = Suc (length fs)" "length fs < HEIGHT_LIMIT"
    using Cons.prems by simp_all
  have nth: "path trav ! length fs = Some b"
  proof -
    have "take (Suc (length fs)) (path trav) ! length fs = (map (\<lambda>f. Some (frame_addr f)) (rev (f # fs))) ! length fs"
      using Cons.prems(8) by simp
    then show ?thesis by (simp add: nth_append f frame_addr_def)
  qed
  define trav1 where "trav1 = trav\<lparr>top := length fs, it := Some b\<rparr>"
  have tk: "take (length fs) (path trav1) = map (\<lambda>f. Some (frame_addr f)) (rev fs)"
  proof -
    have "take (length fs) (take (Suc (length fs)) (path trav)) = take (length fs) (map (\<lambda>f. Some (frame_addr f)) (rev (f # fs)))"
      using Cons.prems(8) by simp
    then show ?thesis by (simp add: trav1_def)
  qed
  have pre: "rootptr s' = Some b" "it trav1 = Some b" "top trav1 = length fs"
    "length (path trav1) = HEIGHT_LIMIT" "length fs \<le> HEIGHT_LIMIT"
    using Cons.prems by (simp_all add: trav1_def s'_def)
  show ?case
  proof (cases "fd = d")
    case True
    have "move_up h trav d = move_up h trav1 d"
      using lnk True n nth Cons.prems(4)
      by (subst move_up.simps) (simp add: trav1_def Let_def)
    then show ?thesis
      using Cons.IH[OF P(1,2) pre tk] by (simp add: pl)
  next
    case False
    have "move_up h trav d = Inr trav1"
      using lnk False n nth Cons.prems(4)
      by (subst move_up.simps) (auto simp add: trav1_def Let_def)
    moreover have "trav_at (plug fs s') trav1"
      by (rule trav_atI[where fs = fs and s = s' and a = b]) (use pre tk in simp_all)
    ultimately show ?thesis by (simp add: pl)
  qed
qed


lemma start_tree:
  assumes "repr h root t" "length (path trav0) = HEIGHT_LIMIT"
  shows "(\<exists>trav. start h trav0 root d = Some (Inr trav) \<and> trav_at t trav)
         \<or> (start h trav0 root d = Some (Inl PathOverflow) \<and> HEIGHT_LIMIT < height_of t)"
proof (cases root)
  case None
  then show ?thesis using assms by (simp add: start_def trav_at_def)
next
  case (Some a)
  define trav1 where "trav1 = trav0\<lparr>tree := root, it := root, top := 0\<rparr>"
  have st: "start h trav0 root d = walk_down h trav1 d"
    by (simp add: start_def Some trav1_def)
  have "rootptr t = Some a" using assms(1) Some repr_rootptr by fastforce
  then have "(\<exists>trav'. walk_down h trav1 d = Some (Inr trav') \<and> trav_at (plug [] t) trav' \<and>
            it trav' \<noteq> None)
         \<or> (walk_down h trav1 d = Some (Inl PathOverflow) \<and> HEIGHT_LIMIT < height_of (plug [] t))"
    using assms Some by (intro walk_down_tree[where root = root and a = a]) (simp_all add: trav1_def)
  then show ?thesis by (auto simp: st)
qed

lemma move_tree:
  assumes "repr h root t" "distinct_nodes t" "trav_at t trav" "it trav \<noteq> None"
  shows "(\<exists>trav'. move h trav d = Some (Inr trav') \<and> trav_at t trav')
         \<or> (move h trav d = Some (Inl PathOverflow) \<and> HEIGHT_LIMIT < height_of t)"
proof -
  from assms(4) obtain a where ita: "it trav = Some a" by auto
  from assms(3) ita obtain fs s where
    t: "t = plug fs s" and rs: "rootptr s = Some a" and tp: "top trav = length fs"
    and le: "length fs \<le> HEIGHT_LIMIT" and len: "length (path trav) = HEIGHT_LIMIT"
    and tk: "take (length fs) (path trav) = map (\<lambda>f. Some (frame_addr f)) (rev fs)"
    by (auto simp: trav_at_def)
  from rs obtain l c k r where s: "s = Node l a c k r" by (cases s) auto
  define x where "x = (if d then r else l)"
  define y where "y = (if d then l else r)"
  have smk: "s = mk d x a c k y" by (simp add: s x_def y_def mk_def)
  note R = assms(1)[unfolded t]
  have foc: "repr h (Some a) (mk d x a c k y)"
    using repr_plug_focus[OF R] by (simp add: smk)
  then have lx: "repr h (link (h a) d) x" by simp
  show ?thesis
  proof (cases x)
    case Leaf
    with lx have "link (h a) d = None" by simp
    then have "move h trav d = Some (move_up h trav d)"
      by (simp add: move_def ita)
    moreover have "\<exists>trav'. move_up h trav d = Inr trav' \<and> trav_at (plug fs s) trav'"
      using R assms(2) rs ita tp len le tk unfolding t by (rule move_up_tree)
    ultimately show ?thesis by (auto simp: t)
  next
    case (Node xl e xc xk xr)
    with lx have lnk: "link (h a) d = Some e" by simp
    show ?thesis
    proof (cases "top trav < HEIGHT_LIMIT")
      case False
      then have "move h trav d = Some (Inl PathOverflow)"
        by (simp add: move_def ita lnk push_path_def)
      moreover have "length fs + height_of s \<le> height_of (plug fs s)"
        by (rule height_plug)
      ultimately show ?thesis using False tp by (simp add: t s)
    next
      case True
      define trav1 where
        "trav1 = trav\<lparr>path := (path trav)[top trav := it trav], top := top trav + 1, it := Some e\<rparr>"
      have mv: "move h trav d = walk_down h trav1 (\<not> d)"
        by (simp add: move_def ita lnk push_path_def True trav1_def)
      define fs' where "fs' = (d, a, c, k, y) # fs"
      have pl: "plug fs' x = t" by (simp add: fs'_def t smk)
      have tk': "take (length fs') (path trav1) = map (\<lambda>f. Some (frame_addr f)) (rev fs')"
        using True ita tp len tk
        by (simp add: trav1_def fs'_def take_Suc_update frame_addr_def)
      have "(\<exists>trav'. walk_down h trav1 (\<not> d) = Some (Inr trav') \<and> trav_at (plug fs' x) trav' \<and>
            it trav' \<noteq> None)
         \<or> (walk_down h trav1 (\<not> d) = Some (Inl PathOverflow) \<and> HEIGHT_LIMIT < height_of (plug fs' x))"
      proof (rule walk_down_tree[where root = root and a = e])
        show "repr h root (plug fs' x)" using assms(1) by (simp only: pl)
        show "rootptr x = Some e" using Node by simp
        show "it trav1 = Some e" by (simp add: trav1_def)
        show "top trav1 = length fs'" using tp by (simp add: trav1_def fs'_def)
        show "length (path trav1) = HEIGHT_LIMIT" using len by (simp add: trav1_def)
        show "length fs' \<le> HEIGHT_LIMIT" using True tp by (simp add: fs'_def)
        show "take (length fs') (path trav1) = map (\<lambda>f. Some (frame_addr f)) (rev fs')" by (rule tk')
      qed
      then show ?thesis by (auto simp: mv pl)
    qed
  qed
qed

lemma seeded_trav_at:
  assumes "seeded h root trav" "repr h root t" "distinct_nodes t"
  shows "trav_at t trav"
  using assms
proof (induction rule: seeded.induct)
  case (seeded_first trav0 trav)
  then show ?case using start_tree[of h root t trav0 False] by (auto simp: jsw_rbtfirst_def)
next
  case (seeded_last trav0 trav)
  then show ?case using start_tree[of h root t trav0 True] by (auto simp: jsw_rbtlast_def)
next
  case (seeded_next trav trav')
  then have ta: "trav_at t trav" by simp
  have "it trav \<noteq> None" using seeded_next.hyps(2)
    by (auto simp: jsw_rbtnext_def move_def split: option.splits)
  then show ?case
    using move_tree[OF seeded_next.prems ta, of True] seeded_next.hyps(2)
    by (auto simp: jsw_rbtnext_def)
next
  case (seeded_prev trav trav')
  then have ta: "trav_at t trav" by simp
  have "it trav \<noteq> None" using seeded_prev.hyps(2)
    by (auto simp: jsw_rbtprev_def move_def split: option.splits)
  then show ?case
    using move_tree[OF seeded_prev.prems ta, of False] seeded_prev.hyps(2)
    by (auto simp: jsw_rbtprev_def)
qed

section \<open>Rotations and the push-down step of removal on a store\<close>

lemma mk_flip: "mk (\<not> d) x a c k y = mk d y a c k x"
  by (simp add: mk_def)

lemma rootptr_eq_Some: "rootptr t = Some a \<Longrightarrow> \<exists>l c k r. t = Node l a c k r"
  by (cases t) auto

lemma jsw_single_mk:
  assumes "repr h (Some a) (mk d C a ca ka (mk d B s cs ks A))"
    "distinct (addrs (mk d C a ca ka (mk d B s cs ks A)))"
  shows "\<exists>h'. jsw_single h (Some a) d = Inr (h', Some s) \<and>
           repr h' (Some s) (mk d (mk d C a True ka B) s False ks A) \<and>
           (\<forall>x. x \<noteq> a \<longrightarrow> x \<noteq> s \<longrightarrow> h' x = h x)"
proof -
  note A = repr_mk_dest[OF assms(1)]
  have S: "repr h (Some s) (mk d B s cs ks A)" using A(7) by simp
  note B = repr_mk_dest[OF S]
  have ne: "a \<noteq> s" using assms(2) by auto
  show ?thesis
    using A B ne assms(2)
    by (simp add: jsw_single_def Let_def)
qed


lemma jsw_double_mk:
  assumes "repr h (Some a) (mk d C a ca ka (mk d (mk d R1 r cr kr R2) s cs ks A))"
    "distinct (addrs (mk d C a ca ka (mk d (mk d R1 r cr kr R2) s cs ks A)))"
  shows "\<exists>h'. jsw_double h (Some a) d = Inr (h', Some r) \<and>
           repr h' (Some r) (mk d (mk d C a True ka R1) r False kr (mk d R2 s True ks A)) \<and>
           (\<forall>x. x \<noteq> a \<longrightarrow> x \<noteq> s \<longrightarrow> x \<noteq> r \<longrightarrow> h' x = h x)"
proof -
  note A = repr_mk_dest[OF assms(1)]
  have S: "repr h (Some s) (mk (\<not> d) A s cs ks (mk (\<not> d) R2 r cr kr R1))"
    using A(7) by (simp add: mk_flip)
  have dS: "distinct (addrs (mk (\<not> d) A s cs ks (mk (\<not> d) R2 r cr kr R1)))"
    using assms(2) by (simp add: mk_flip; blast)
  from jsw_single_mk[OF S dS] obtain h1 where
    h1: "jsw_single h (Some s) (\<not> d) = Inr (h1, Some r)"
    and r1: "repr h1 (Some r) (mk (\<not> d) (mk (\<not> d) A s True ks R2) r False kr R1)"
    and f1: "\<forall>x. x \<noteq> s \<longrightarrow> x \<noteq> r \<longrightarrow> h1 x = h x"
    by auto
  have ne: "a \<noteq> s" "a \<noteq> r" "a \<notin> set (addrs R1)" "a \<notin> set (addrs R2)" "a \<notin> set (addrs A)"
    using assms(2) by auto
  define h2 where "h2 = h1(a := set_link (h1 a) (\<not> d) (Some r))"
  have C: "repr h2 (rootptr C) C"
  proof -
    have "repr h2 (rootptr C) C = repr h (rootptr C) C"
      using assms(2) f1 by (intro repr_cong) (auto simp: h2_def)
    then show ?thesis using A(6) by simp
  qed
  have r2: "repr h2 (Some r) (mk d R1 r False kr (mk d R2 s True ks A))"
    using r1 ne by (simp add: mk_flip h2_def)
  have a2: "repr h2 (Some a) (mk d C a ca ka (mk d R1 r False kr (mk d R2 s True ks A)))"
    using A(2,3,4) r2 C f1 ne by (simp add: h2_def)
  have d2: "distinct (addrs (mk d C a ca ka (mk d R1 r False kr (mk d R2 s True ks A))))"
    using assms(2) by (simp; blast)
  from jsw_single_mk[OF a2 d2] obtain h3 where
    h3: "jsw_single h2 (Some a) d = Inr (h3, Some r)"
    and r3: "repr h3 (Some r) (mk d (mk d C a True ka R1) r False kr (mk d R2 s True ks A))"
    and f3: "\<forall>x. x \<noteq> a \<longrightarrow> x \<noteq> r \<longrightarrow> h3 x = h2 x"
    by auto
  have "jsw_double h (Some a) d = Inr (h3, Some r)"
    using A(5) h1 h3 by (simp add: jsw_double_def h2_def)
  moreover have "\<forall>x. x \<noteq> a \<longrightarrow> x \<noteq> s \<longrightarrow> x \<noteq> r \<longrightarrow> h3 x = h x"
    using f1 f3 by (simp add: h2_def)
  ultimately show ?thesis using r3 by blast
qed

lemma repr_paint:
  assumes "repr h (Some a) t" "distinct (addrs t)"
  shows "repr (h(a := (h a)\<lparr>red := c\<rparr>)) (Some a) (paint c t)"
proof -
  from assms(1) obtain l c0 k r where t: "t = Node l a c0 k r" by (cases t) auto
  show ?thesis using assms unfolding t by simp
qed

lemma addrs_paint [simp]: "addrs (paint c t) = addrs t"
  by (cases t) auto

lemma rootptr_paint [simp]: "rootptr (paint c t) = rootptr t"
  by (cases t) auto

lemma child_dir:
  assumes "repr h (Some g) (mk dg s g c k y)" "rootptr s = Some p" "p \<notin> set (addrs y)"
  shows "(link (h g) True = Some p) = dg"
proof (cases dg)
  case True
  then show ?thesis using repr_mk_dest(4)[OF assms(1)] assms(2) by simp
next
  case False
  have "link (h g) True = rootptr y" using repr_mk_dest(5)[OF assms(1)] False by simp
  moreover have "rootptr y \<noteq> Some p"
    using assms(3) repr_mk_dest(7)[OF assms(1)] repr_Some by fastforce
  ultimately show ?thesis using False by simp
qed


text \<open>erase_push, case: the other child of q is red (rotation at q).\<close>

lemma erase_push_rotate_q:
  assumes "repr h (Some P) (mk dP (mk dQ X1 Q cQ kQ (mk dQ B S True kS A)) P cP kP Y)"
    "distinct (addrs (mk dP (mk dQ X1 Q cQ kQ (mk dQ B S True kS A)) P cP kP Y))"
  shows "\<exists>h'. erase_push h g P Q dQ dP = Inr (h', S) \<and>
           repr h' (Some P) (mk dP (mk dQ (mk dQ X1 Q True kQ B) S False kS A) P cP kP Y) \<and>
           (\<forall>x. x \<notin> set (addrs (mk dP (mk dQ X1 Q cQ kQ (mk dQ B S True kS A)) P cP kP Y)) \<longrightarrow>
              h' x = h x)"
proof -
  note A = repr_mk_dest[OF assms(1)]
  have Qr: "repr h (Some Q) (mk dQ X1 Q cQ kQ (mk dQ B S True kS A))" using A(6) by simp
  have Qd: "distinct (addrs (mk dQ X1 Q cQ kQ (mk dQ B S True kS A)))" using assms(2) by simp
  note B = repr_mk_dest[OF Qr]
  have Sr: "repr h (Some S) (mk dQ B S True kS A)" using B(7) by simp
  from jsw_single_mk[OF Qr Qd] obtain h1 where
    h1: "jsw_single h (Some Q) dQ = Inr (h1, Some S)"
    and r1: "repr h1 (Some S) (mk dQ (mk dQ X1 Q True kQ B) S False kS A)"
    and f1: "\<forall>x. x \<noteq> Q \<longrightarrow> x \<noteq> S \<longrightarrow> h1 x = h x"
    by auto
  define h2 where "h2 = h1(P := set_link (h1 P) dP (Some S))"
  have ne: "P \<noteq> Q" "P \<noteq> S" "P \<notin> set (addrs X1)" "P \<notin> set (addrs B)" "P \<notin> set (addrs A)"
    using assms(2) by auto
  have Y: "repr h2 (rootptr Y) Y"
  proof -
    have "repr h2 (rootptr Y) Y = repr h (rootptr Y) Y"
      using assms(2) f1 by (intro repr_cong) (auto simp: h2_def)
    then show ?thesis using A(7) by simp
  qed
  have "erase_push h g P Q dQ dP = Inr (h2, S)"
    using B(5) repr_mk_dest(2)[OF Sr] h1 by (simp add: erase_push_def h2_def)
  moreover have "repr h2 (Some P) (mk dP (mk dQ (mk dQ X1 Q True kQ B) S False kS A) P cP kP Y)"
    using A(2,3,5) r1 Y f1 ne by (simp add: h2_def)
  moreover have "\<forall>x. x \<notin> set (addrs (mk dP (mk dQ X1 Q cQ kQ (mk dQ B S True kS A)) P cP kP Y)) \<longrightarrow>
              h2 x = h x"
    using f1 by (simp add: h2_def)
  ultimately show ?thesis by blast
qed

text \<open>erase_push, case: no red child of q, no sibling.\<close>

lemma erase_push_no_sibling:
  assumes "repr h (Some P) (mk dP (mk dQ X1 Q cQ kQ Y1) P cP kP Leaf)" "\<not> is_red_tree Y1"
  shows "erase_push h g P Q dQ dP = Inr (h, P)"
proof -
  note A = repr_mk_dest[OF assms(1)]
  have Qr: "repr h (Some Q) (mk dQ X1 Q cQ kQ Y1)" using A(6) by simp
  note B = repr_mk_dest[OF Qr]
  have "is_red h (link (h Q) (\<not> dQ)) = False"
    using repr_is_red[OF B(7)] B(5) assms(2) by simp
  then show ?thesis using A(5) by (simp add: erase_push_def)
qed

text \<open>erase_push, case: the sibling has no red child (colour flip).\<close>

lemma erase_push_flip:
  assumes "repr h (Some P) (mk dP (mk dQ X1 Q cQ kQ Y1) P cP kP (mk dP Sl S cS kS Sn))"
    "distinct (addrs (mk dP (mk dQ X1 Q cQ kQ Y1) P cP kP (mk dP Sl S cS kS Sn)))"
    "\<not> is_red_tree Y1" "\<not> is_red_tree Sl" "\<not> is_red_tree Sn"
  shows "\<exists>h'. erase_push h g P Q dQ dP = Inr (h', P) \<and>
           repr h' (Some P) (mk dP (mk dQ X1 Q True kQ Y1) P False kP (mk dP Sl S True kS Sn)) \<and>
           (\<forall>x. x \<noteq> P \<longrightarrow> x \<noteq> Q \<longrightarrow> x \<noteq> S \<longrightarrow> h' x = h x)"
proof -
  note A = repr_mk_dest[OF assms(1)]
  have Qr: "repr h (Some Q) (mk dQ X1 Q cQ kQ Y1)" using A(6) by simp
  note B = repr_mk_dest[OF Qr]
  have Sr: "repr h (Some S) (mk dP Sl S cS kS Sn)" using A(7) by simp
  note C = repr_mk_dest[OF Sr]
  have reds: "is_red h (link (h Q) (\<not> dQ)) = False" "is_red h (link (h S) (\<not> dP)) = False"
    "is_red h (link (h S) dP) = False"
    using repr_is_red[OF B(7)] B(5) repr_is_red[OF C(6)] repr_is_red[OF C(7)] C(4,5) assms(3,4,5)
    by simp_all
  define h' where "h' = h(P := (h P)\<lparr>red := False\<rparr>, S := (h S)\<lparr>red := True\<rparr>,
      Q := (h Q)\<lparr>red := True\<rparr>)"
  have ne: "P \<noteq> Q" "P \<noteq> S" "Q \<noteq> S" using assms(2) by auto
  have ep: "erase_push h g P Q dQ dP = Inr (h', P)"
    using reds A(5) ne by (simp add: erase_push_def h'_def Let_def)
  have sub: "repr h' (rootptr X1) X1" "repr h' (rootptr Y1) Y1" "repr h' (rootptr Sl) Sl"
    "repr h' (rootptr Sn) Sn"
    using assms(2) B(6,7) C(6,7) by (simp_all add: h'_def)
  have "repr h' (Some P) (mk dP (mk dQ X1 Q True kQ Y1) P False kP (mk dP Sl S True kS Sn))"
    using A(3,4,5) B(3,4,5) C(3,4,5) sub ne by (simp add: h'_def)
  moreover have "\<forall>x. x \<noteq> P \<longrightarrow> x \<noteq> Q \<longrightarrow> x \<noteq> S \<longrightarrow> h' x = h x"
    by (simp add: h'_def)
  ultimately show ?thesis using ep by blast
qed


lemma erase_recolor_mk:
  assumes "repr h (Some G) (mk dG (mk dP (mk dP Xq P cP kP L) n cn kn Z) G cG kG yG)"
    "distinct (addrs (mk dG (mk dP (mk dP Xq P cP kP L) n cn kn Z) G cG kG yG))"
    "rootptr Xq = Some Q" "rootptr Z = Some z"
  shows "\<exists>h'. erase_recolor h G Q dG = Inr h' \<and>
           repr h' (Some G)
             (mk dG (mk dP (mk dP (paint True Xq) P False kP L) n True kn (paint False Z)) G cG kG yG) \<and>
           (\<forall>x. x \<notin> set (addrs (mk dG (mk dP (mk dP Xq P cP kP L) n cn kn Z) G cG kG yG)) \<longrightarrow>
              h' x = h x)"
proof -
  from assms(3) obtain ql qc qk qr where Xq: "Xq = Node ql Q qc qk qr" by (cases Xq) auto
  from assms(4) obtain zl zc zk zr where Z: "Z = Node zl z zc zk zr" by (cases Z) auto
  define h' where "h' = h(n := (h n)\<lparr>red := True\<rparr>, Q := (h Q)\<lparr>red := True\<rparr>,
      P := (h P)\<lparr>red := False\<rparr>, z := (h z)\<lparr>red := False\<rparr>)"
  note A = repr_mk_dest[OF assms(1)]
  have Nr: "repr h (Some n) (mk dP (mk dP Xq P cP kP L) n cn kn Z)" using A(6) by simp
  note B = repr_mk_dest[OF Nr]
  have Pr: "repr h (Some P) (mk dP Xq P cP kP L)" using B(6) by simp
  note C = repr_mk_dest[OF Pr]
  have ne: "G \<noteq> n" "G \<noteq> Q" "G \<noteq> P" "G \<noteq> z" "n \<noteq> Q" "n \<noteq> P" "n \<noteq> z" "Q \<noteq> P" "Q \<noteq> z"
    "P \<noteq> z"
    using assms(2) by (auto simp: Xq Z)
  have rc: "erase_recolor h G Q dG = Inr h'"
  proof (cases dP)
    case True
    have "h(n := (h n)\<lparr>red := True\<rparr>, Q := (h Q)\<lparr>red := True\<rparr>,
      z := (h z)\<lparr>red := False\<rparr>, P := (h P)\<lparr>red := False\<rparr>) = h'"
      using ne by (auto simp: h'_def)
    then show ?thesis
      using A(4) B(4,5) True ne by (simp add: erase_recolor_def Let_def Z)
  next
    case False
    then show ?thesis
      using A(4) B(4,5) ne by (simp add: erase_recolor_def Let_def Z h'_def)
  qed
  have frame: "\<forall>x. x \<notin> set (addrs (mk dG (mk dP (mk dP Xq P cP kP L) n cn kn Z) G cG kG yG)) \<longrightarrow>
              h' x = h x"
    by (auto simp: h'_def Xq Z)
  have sub: "repr h' (rootptr ql) ql" "repr h' (rootptr qr) qr" "repr h' (rootptr zl) zl"
    "repr h' (rootptr zr) zr" "repr h' (rootptr L) L" "repr h' (rootptr yG) yG"
    using assms(2) A(7) B(7) C(6,7) repr_rootptr[of h _ ql] repr_rootptr[of h _ qr]
      repr_rootptr[of h _ zl] repr_rootptr[of h _ zr]
    by (auto simp: h'_def Xq Z)
  have lk: "link0 (h Q) = rootptr ql" "link1 (h Q) = rootptr qr" "link0 (h z) = rootptr zl"
    "link1 (h z) = rootptr zr" "key (h Q) = qk" "key (h z) = zk"
    using C(6) B(7) repr_rootptr[of h _ ql] repr_rootptr[of h _ qr]
      repr_rootptr[of h _ zl] repr_rootptr[of h _ zr]
    by (auto simp: Xq Z)
  have "repr h' (Some G)
             (mk dG (mk dP (mk dP (paint True Xq) P False kP L) n True kn (paint False Z)) G cG kG yG)"
    using A(2,3,4,5) B(3,4,5) C(3,4,5) sub lk ne
    by (simp add: h'_def Xq Z)
  then show ?thesis using rc frame by blast
qed


text \<open>erase_push, case: the sibling's near child is red (double rotation at p).\<close>

lemma erase_push_double:
  assumes "repr h (Some G)
      (mk dG (mk dP Xq P cP kP (mk dP (mk dP R1 r True kr R2) S cS kS Sn)) G cG kG yG)"
    "distinct (addrs (mk dG (mk dP Xq P cP kP (mk dP (mk dP R1 r True kr R2) S cS kS Sn)) G cG kG yG))"
    "Xq = mk dQ X1 Q cQ kQ Y1" "\<not> is_red_tree Y1"
  shows "\<exists>h'. erase_push h (Some G) P Q dQ dP = Inr (h', P) \<and>
           repr h' (Some G)
             (mk dG (mk dP (mk dP (paint True Xq) P False kP R1) r True kr (mk dP R2 S False kS Sn))
                G cG kG yG) \<and>
           (\<forall>x. x \<notin> set (addrs (mk dG (mk dP Xq P cP kP (mk dP (mk dP R1 r True kr R2) S cS kS Sn))
                G cG kG yG)) \<longrightarrow> h' x = h x)"
proof -
  let ?Pn = "mk dP Xq P cP kP (mk dP (mk dP R1 r True kr R2) S cS kS Sn)"
  note A = repr_mk_dest[OF assms(1)]
  have Pr: "repr h (Some P) ?Pn" using A(6) by simp
  have Pd: "distinct (addrs ?Pn)" using assms(2) by simp
  note B = repr_mk_dest[OF Pr]
  have Qr: "repr h (Some Q) (mk dQ X1 Q cQ kQ Y1)" using B(6) by (simp add: assms(3))
  note Bq = repr_mk_dest[OF Qr]
  have Sr: "repr h (Some S) (mk dP (mk dP R1 r True kr R2) S cS kS Sn)" using B(7) by simp
  note C = repr_mk_dest[OF Sr]
  have Rr: "repr h (Some r) (mk dP R1 r True kr R2)" using C(6) by simp
  have c1: "is_red h (link (h Q) (\<not> dQ)) = False"
    using repr_is_red[OF Bq(7)] Bq(5) assms(4) by simp
  have c2: "is_red h (link (h S) dP) = True"
    using C(4) repr_mk_dest(2)[OF Rr] by simp
  have dir2: "(link (h G) True = Some P) = dG"
    using assms(2) by (intro child_dir[OF assms(1)]) auto
  from jsw_double_mk[OF Pr Pd] obtain h1 where
    h1: "jsw_double h (Some P) dP = Inr (h1, Some r)"
    and r1: "repr h1 (Some r) (mk dP (mk dP Xq P True kP R1) r False kr (mk dP R2 S True kS Sn))"
    and f1: "\<forall>x. x \<noteq> P \<longrightarrow> x \<noteq> S \<longrightarrow> x \<noteq> r \<longrightarrow> h1 x = h x"
    by auto
  define h2 where "h2 = h1(G := set_link (h1 G) dG (Some r))"
  have ne: "G \<noteq> P" "G \<noteq> S" "G \<noteq> r" using assms(2) by auto
  have G1: "h1 G = h G" using f1 ne by simp
  have yG: "repr h2 (rootptr yG) yG"
  proof -
    have "repr h2 (rootptr yG) yG = repr h (rootptr yG) yG"
      using assms(2) f1 by (intro repr_cong) (auto simp: h2_def)
    then show ?thesis using A(7) by simp
  qed
  have r2: "repr h2 (Some r) (mk dP (mk dP Xq P True kP R1) r False kr (mk dP R2 S True kS Sn))"
  proof -
    have "G \<notin> set (addrs (mk dP (mk dP Xq P True kP R1) r False kr (mk dP R2 S True kS Sn)))"
      using assms(2) by auto
    then show ?thesis unfolding h2_def using r1 by (simp only: repr_upd simp_thms)
  qed
  have g2: "repr h2 (Some G)
      (mk dG (mk dP (mk dP Xq P True kP R1) r False kr (mk dP R2 S True kS Sn)) G cG kG yG)"
    using A(2,3,5) G1 r2 yG by (simp add: h2_def)
  have d2: "distinct (addrs
      (mk dG (mk dP (mk dP Xq P True kP R1) r False kr (mk dP R2 S True kS Sn)) G cG kG yG))"
    using assms(2) by (simp; blast)
  have rq: "rootptr Xq = Some Q" by (simp add: assms(3))
  have rz: "rootptr (mk dP R2 S True kS Sn) = Some S" by simp
  from erase_recolor_mk[OF g2 d2 rq rz] obtain h3 where
    h3: "erase_recolor h2 G Q dG = Inr h3"
    and r3: "repr h3 (Some G)
      (mk dG (mk dP (mk dP (paint True Xq) P False kP R1) r True kr (paint False (mk dP R2 S True kS Sn)))
        G cG kG yG)"
    and f3: "\<forall>x. x \<notin> set (addrs
      (mk dG (mk dP (mk dP Xq P True kP R1) r False kr (mk dP R2 S True kS Sn)) G cG kG yG)) \<longrightarrow>
        h3 x = h2 x"
    by auto
  have "erase_push h (Some G) P Q dQ dP = Inr (h3, P)"
    using c1 c2 B(5) dir2 h1 h3 C(5)
    by (simp add: erase_push_def h2_def)
  moreover have "paint False (mk dP R2 S True kS Sn) = mk dP R2 S False kS Sn"
    by (simp add: mk_def)
  moreover have "\<forall>x. x \<notin> set (addrs (mk dG (mk dP Xq P cP kP (mk dP (mk dP R1 r True kr R2) S cS kS Sn))
                G cG kG yG)) \<longrightarrow> h3 x = h x"
    using f1 f3 by (auto simp: h2_def)
  ultimately show ?thesis using r3 by auto
qed

text \<open>erase_push, case: only the sibling's far child is red (single rotation at p).\<close>

lemma erase_push_single:
  assumes "repr h (Some G) (mk dG (mk dP Xq P cP kP (mk dP Sl S cS kS Sn)) G cG kG yG)"
    "distinct (addrs (mk dG (mk dP Xq P cP kP (mk dP Sl S cS kS Sn)) G cG kG yG))"
    "Xq = mk dQ X1 Q cQ kQ Y1" "\<not> is_red_tree Y1" "\<not> is_red_tree Sl" "is_red_tree Sn"
  shows "\<exists>h'. erase_push h (Some G) P Q dQ dP = Inr (h', P) \<and>
           repr h' (Some G)
             (mk dG (mk dP (mk dP (paint True Xq) P False kP Sl) S True kS (paint False Sn))
                G cG kG yG) \<and>
           (\<forall>x. x \<notin> set (addrs (mk dG (mk dP Xq P cP kP (mk dP Sl S cS kS Sn)) G cG kG yG)) \<longrightarrow>
              h' x = h x)"
proof -
  let ?Pn = "mk dP Xq P cP kP (mk dP Sl S cS kS Sn)"
  from assms(6) obtain z where rz: "rootptr Sn = Some z" by (cases Sn) auto
  note A = repr_mk_dest[OF assms(1)]
  have Pr: "repr h (Some P) ?Pn" using A(6) by simp
  have Pd: "distinct (addrs ?Pn)" using assms(2) by simp
  note B = repr_mk_dest[OF Pr]
  have Qr: "repr h (Some Q) (mk dQ X1 Q cQ kQ Y1)" using B(6) by (simp add: assms(3))
  note Bq = repr_mk_dest[OF Qr]
  have Sr: "repr h (Some S) (mk dP Sl S cS kS Sn)" using B(7) by simp
  note C = repr_mk_dest[OF Sr]
  have c1: "is_red h (link (h Q) (\<not> dQ)) = False"
    using repr_is_red[OF Bq(7)] Bq(5) assms(4) by simp
  have c2: "is_red h (link (h S) dP) = False" "is_red h (link (h S) (\<not> dP)) = True"
    using repr_is_red[OF C(6)] repr_is_red[OF C(7)] C(4,5) assms(5,6) by simp_all
  have dir2: "(link (h G) True = Some P) = dG"
    using assms(2) by (intro child_dir[OF assms(1)]) auto
  from jsw_single_mk[OF Pr Pd] obtain h1 where
    h1: "jsw_single h (Some P) dP = Inr (h1, Some S)"
    and r1: "repr h1 (Some S) (mk dP (mk dP Xq P True kP Sl) S False kS Sn)"
    and f1: "\<forall>x. x \<noteq> P \<longrightarrow> x \<noteq> S \<longrightarrow> h1 x = h x"
    by auto
  define h2 where "h2 = h1(G := set_link (h1 G) dG (Some S))"
  have ne: "G \<noteq> P" "G \<noteq> S" using assms(2) by auto
  have G1: "h1 G = h G" using f1 ne by simp
  have yG: "repr h2 (rootptr yG) yG"
  proof -
    have "repr h2 (rootptr yG) yG = repr h (rootptr yG) yG"
      using assms(2) f1 by (intro repr_cong) (auto simp: h2_def)
    then show ?thesis using A(7) by simp
  qed
  have r2: "repr h2 (Some S) (mk dP (mk dP Xq P True kP Sl) S False kS Sn)"
  proof -
    have "G \<notin> set (addrs (mk dP (mk dP Xq P True kP Sl) S False kS Sn))"
      using assms(2) by auto
    then show ?thesis unfolding h2_def using r1 by (simp only: repr_upd simp_thms)
  qed
  have g2: "repr h2 (Some G) (mk dG (mk dP (mk dP Xq P True kP Sl) S False kS Sn) G cG kG yG)"
    using A(2,3,5) G1 r2 yG by (simp add: h2_def)
  have d2: "distinct (addrs (mk dG (mk dP (mk dP Xq P True kP Sl) S False kS Sn) G cG kG yG))"
    using assms(2) by (simp; blast)
  have rq: "rootptr Xq = Some Q" by (simp add: assms(3))
  from erase_recolor_mk[OF g2 d2 rq rz] obtain h3 where
    h3: "erase_recolor h2 G Q dG = Inr h3"
    and r3: "repr h3 (Some G)
      (mk dG (mk dP (mk dP (paint True Xq) P False kP Sl) S True kS (paint False Sn)) G cG kG yG)"
    and f3: "\<forall>x. x \<notin> set (addrs
      (mk dG (mk dP (mk dP Xq P True kP Sl) S False kS Sn) G cG kG yG)) \<longrightarrow> h3 x = h2 x"
    by auto
  have "erase_push h (Some G) P Q dQ dP = Inr (h3, P)"
    using c1 c2 B(5) dir2 h1 h3
    by (simp add: erase_push_def h2_def)
  moreover have "\<forall>x. x \<notin> set (addrs (mk dG (mk dP Xq P cP kP (mk dP Sl S cS kS Sn)) G cG kG yG)) \<longrightarrow>
      h3 x = h x"
    using f1 f3 by (auto simp: h2_def)
  ultimately show ?thesis using r3 by auto
qed

section \<open>The invariant of the removal loop\<close>

lemma head_tree_plug: "head_tree (plug fs s) = plug (fs @ [head_frame]) s"
  by (simp add: plug_append head_frame_def head_tree_def mk_def)

lemma head_tree_mk: "head_tree t = mk True t Head False 0 Leaf"
  by (simp add: head_tree_def mk_def)

lemma distinct_head_tree: "distinct_nodes t \<Longrightarrow> distinct (addrs (head_tree t))"
  by (simp add: head_tree_def distinct_nodes_def)

lemma addrs_head_tree [simp]: "set (addrs (head_tree t)) = insert Head (set (addrs t))"
  by (simp add: head_tree_def)

lemma node_focus:
  assumes "repr h (Some Head) (head_tree (plug fs s))" "distinct_nodes (plug fs s)"
  shows "repr h (rootptr s) s" "distinct (addrs s)"
    "\<And>h' s'. repr h' (rootptr s) s' \<Longrightarrow> set (addrs s') \<subseteq> set (addrs s) \<Longrightarrow>
        (\<forall>x. x \<notin> set (addrs s) \<longrightarrow> h' x = h x) \<Longrightarrow>
        repr h' (Some Head) (head_tree (plug fs s'))"
proof -
  have R: "repr h (Some Head) (plug (fs @ [head_frame]) s)"
    using assms(1) by (simp add: head_tree_plug)
  have D: "distinct (addrs (plug (fs @ [head_frame]) s))"
    using distinct_head_tree[OF assms(2)] by (simp add: head_tree_plug)
  show "repr h (rootptr s) s" using R by (rule repr_plug_focus)
  show "distinct (addrs s)" using D by (rule distinct_plug_focus')
  fix h' s'
  assume "repr h' (rootptr s) s'" "set (addrs s') \<subseteq> set (addrs s)"
    "\<forall>x. x \<notin> set (addrs s) \<longrightarrow> h' x = h x"
  then have "repr h' (Some Head) (plug (fs @ [head_frame]) s')"
    by (intro plug_replace_repr[OF R D]) blast+
  then show "repr h' (Some Head) (head_tree (plug fs s'))" by (simp add: head_tree_plug)
qed

lemma parent_focus:
  assumes "repr h (Some Head) (head_tree (plug fs s))" "distinct_nodes (plug fs s)"
  obtains dG cG kG yG where
    "repr h (Some (parent_ref fs)) (mk dG s (parent_ref fs) cG kG yG)"
    "distinct (addrs (mk dG s (parent_ref fs) cG kG yG))"
    "set (addrs (mk dG s (parent_ref fs) cG kG yG)) \<subseteq> insert Head (set (addrs (plug fs s)))"
    "\<And>h' s'. repr h' (Some (parent_ref fs)) (mk dG s' (parent_ref fs) cG kG yG) \<Longrightarrow>
        set (addrs s') \<subseteq> set (addrs s) \<Longrightarrow>
        (\<forall>x. x \<notin> set (addrs (mk dG s (parent_ref fs) cG kG yG)) \<longrightarrow> h' x = h x) \<Longrightarrow>
        repr h' (Some Head) (head_tree (plug fs s'))"
proof (cases fs)
  case Nil
  have p: "parent_ref fs = Head" by (simp add: Nil parent_ref_def)
  have pl: "plug fs t = t" for t by (simp add: Nil)
  have 1: "repr h (Some (parent_ref fs)) (mk True s (parent_ref fs) False 0 Leaf)"
    using assms(1) unfolding p pl head_tree_mk .
  have 2: "distinct (addrs (mk True s (parent_ref fs) False 0 Leaf))"
    using distinct_head_tree[OF assms(2)] unfolding p pl head_tree_mk .
  have 3: "set (addrs (mk True s (parent_ref fs) False 0 Leaf)) \<subseteq> insert Head (set (addrs (plug fs s)))"
    unfolding p pl by simp
  have 4: "repr h' (Some Head) (head_tree (plug fs s'))"
    if "repr h' (Some (parent_ref fs)) (mk True s' (parent_ref fs) False 0 Leaf)" for h' s'
    using that unfolding p pl head_tree_mk .
  show ?thesis using that[OF 1 2 3] 4 by blast
next
  case (Cons f fs')
  obtain dG G cG kG yG where f: "f = (dG, G, cG, kG, yG)" by (cases f)
  have p: "parent_ref fs = G" by (simp add: Cons f parent_ref_def frame_addr_def)
  have pl: "plug fs t = plug fs' (mk dG t G cG kG yG)" for t by (simp add: Cons f)
  have R: "repr h (Some Head) (head_tree (plug fs' (mk dG s G cG kG yG)))"
    and D: "distinct_nodes (plug fs' (mk dG s G cG kG yG))"
    using assms by (simp_all add: pl)
  note N = node_focus[OF R D]
  have 1: "repr h (Some (parent_ref fs)) (mk dG s (parent_ref fs) cG kG yG)"
    using N(1) by (simp add: p)
  have 2: "distinct (addrs (mk dG s (parent_ref fs) cG kG yG))"
    using N(2) by (simp add: p)
  have 3: "set (addrs (mk dG s (parent_ref fs) cG kG yG)) \<subseteq> insert Head (set (addrs (plug fs s)))"
    unfolding p pl[of s] using addrs_plug[of fs' "mk dG s G cG kG yG"] by blast
  have 4: "repr h' (Some Head) (head_tree (plug fs s'))"
    if "repr h' (Some (parent_ref fs)) (mk dG s' (parent_ref fs) cG kG yG)"
      "set (addrs s') \<subseteq> set (addrs s)"
      "\<forall>x. x \<notin> set (addrs (mk dG s (parent_ref fs) cG kG yG)) \<longrightarrow> h' x = h x" for h' s'
  proof -
    have "repr h' (Some Head) (head_tree (plug fs' (mk dG s' G cG kG yG)))"
      using that by (intro N(3)) (auto simp: p)
    then show ?thesis by (simp add: pl)
  qed
  show ?thesis using that[OF 1 2 3] 4 by blast
qed

lemma erase_baseD:
  assumes "erase_base t0 h0 h node f fs s"
  shows "repr h (Some Head) (head_tree (plug fs s))"
    "distinct_nodes (plug fs s)"
    "set (addrs (plug fs s)) = set (addrs t0)"
    "keys_of (plug fs s) = keys_of t0"
    "\<forall>x. x \<notin> set (addrs t0) \<longrightarrow> x \<noteq> Head \<longrightarrow> h x = h0 x"
    "Head \<notin> set (addrs t0)" "distinct (addrs (plug fs s))"
    "no_red_red (plug fs s)" "balanced (plug fs s)"
    "f \<noteq> None \<longrightarrow> erase_hit t0 h0 node"
    "addrs (plug fs s) = addrs t0"
proof -
  note A = assms[unfolded erase_base_def]
  show "repr h (Some Head) (head_tree (plug fs s))" using A by (elim conjE)
  show "distinct_nodes (plug fs s)" using A by (elim conjE)
  show "set (addrs (plug fs s)) = set (addrs t0)" using A by (elim conjE)
  show "keys_of (plug fs s) = keys_of t0" using A by (elim conjE)
  show "\<forall>x. x \<notin> set (addrs t0) \<longrightarrow> x \<noteq> Head \<longrightarrow> h x = h0 x" using A by (elim conjE)
  have d: "distinct_nodes (plug fs s)" using A by (elim conjE)
  have a: "set (addrs (plug fs s)) = set (addrs t0)" using A by (elim conjE)
  show "Head \<notin> set (addrs t0)" using d a by (simp add: distinct_nodes_def)
  show "distinct (addrs (plug fs s))" using d by (simp add: distinct_nodes_def)
  show "no_red_red (plug fs s)" using A by (elim conjE)
  show "balanced (plug fs s)" using A by (elim conjE)
  show "f \<noteq> None \<longrightarrow> erase_hit t0 h0 node" using A by (elim conjE)
  show "addrs (plug fs s) = addrs t0" using A by (elim conjE)
qed

lemma erase_inv_base: "erase_inv t0 h0 h node f p q dir fs s \<Longrightarrow> erase_base t0 h0 h node f fs s"
  unfolding erase_inv_def by (elim conjE)

lemma erase_invD:
  assumes "erase_inv t0 h0 h node f p q dir fs s"
  shows "repr h (Some Head) (head_tree (plug fs s))"
    "distinct_nodes (plug fs s)"
    "set (addrs (plug fs s)) = set (addrs t0)"
    "keys_of (plug fs s) = keys_of t0"
    "\<forall>x. x \<notin> set (addrs t0) \<longrightarrow> x \<noteq> Head \<longrightarrow> h x = h0 x"
    "Head \<notin> set (addrs t0)" "distinct (addrs (plug fs s))"
    "rootptr s = Some q" "p = Some (parent_ref fs)"
    "no_red_red (plug fs s)" "balanced (plug fs s)"
    "\<exists>x cq kq y. s = mk dir x q cq kq y \<and>
         (cq \<or> is_red_tree x \<or> (fs = [] \<and> \<not> is_red_tree y))"
    "f \<noteq> None \<longrightarrow> erase_hit t0 h0 node"
    "addrs (plug fs s) = addrs t0"
proof -
  note B = erase_baseD[OF erase_inv_base[OF assms]]
  note A = assms[unfolded erase_inv_def]
  show "repr h (Some Head) (head_tree (plug fs s))" by (rule B(1))
  show "distinct_nodes (plug fs s)" by (rule B(2))
  show "set (addrs (plug fs s)) = set (addrs t0)" by (rule B(3))
  show "keys_of (plug fs s) = keys_of t0" by (rule B(4))
  show "\<forall>x. x \<notin> set (addrs t0) \<longrightarrow> x \<noteq> Head \<longrightarrow> h x = h0 x" by (rule B(5))
  show "Head \<notin> set (addrs t0)" by (rule B(6))
  show "distinct (addrs (plug fs s))" by (rule B(7))
  show "rootptr s = Some q" using A by (elim conjE)
  show "p = Some (parent_ref fs)" using A by (elim conjE)
  show "no_red_red (plug fs s)" by (rule B(8))
  show "balanced (plug fs s)" by (rule B(9))
  show "\<exists>x cq kq y. s = mk dir x q cq kq y \<and>
         (cq \<or> is_red_tree x \<or> (fs = [] \<and> \<not> is_red_tree y))" using A by (elim conjE)
  show "f \<noteq> None \<longrightarrow> erase_hit t0 h0 node" by (rule B(10))
  show "addrs (plug fs s) = addrs t0" by (rule B(11))
qed

lemma erase_inv_replace:
  assumes old: "erase_base t0 h0 h node f fs s"
    and heap: "repr h' (Some Head) (head_tree (plug fs s'))"
      "\<forall>x. x \<notin> set (addrs (plug fs s)) \<longrightarrow> x \<noteq> Head \<longrightarrow> h' x = h x"
    and loc: "set (addrs s') = set (addrs s)" "distinct (addrs s')" "keys_of s' = keys_of s"
      "addrs s' = addrs s"
    and col: "no_red_red s'" "balanced s'"
      "(bheight s' = bheight s \<and> (is_red_tree s' \<longrightarrow> is_red_tree s)) \<or> fs = []"
    and new: "plug fs s' = plug fs2 s2" "s2 = mk dir2 x2 q2 c2 k2 y2"
      "c2 \<or> is_red_tree x2 \<or> (fs2 = [] \<and> \<not> is_red_tree y2)"
      "p2 = Some (parent_ref fs2)"
      "f2 \<noteq> None \<longrightarrow> f \<noteq> None \<or> erase_hit t0 h0 node"
  shows "erase_inv t0 h0 h' node f2 p2 q2 dir2 fs2 s2"
proof -
  note O = erase_baseD[OF old]
  have dn: "distinct_nodes (plug fs s')"
  proof -
    have d: "distinct (addrs (plug fs s))" using O(2) by (simp add: distinct_nodes_def)
    have sub: "set (addrs s') \<subseteq> set (addrs s)" using loc(1) by simp
    have "distinct (addrs (plug fs s'))"
      using d loc(2) sub by (rule plug_replace_distinct)
    moreover have "set (addrs (plug fs s')) = set (addrs (plug fs s))"
      using loc(1) by (rule plug_replace_addrs)
    ultimately show ?thesis using O(2) by (simp add: distinct_nodes_def)
  qed
  have ad: "set (addrs (plug fs s')) = set (addrs t0)"
    using plug_replace_addrs[OF loc(1), of fs] O(3) by simp
  have ks: "keys_of (plug fs s') = keys_of t0"
    using plug_replace_keys[OF loc(3), of fs] O(4) by simp
  have al: "addrs (plug fs s') = addrs t0"
    using plug_replace_addrs_list[OF loc(4), of fs] O(11) by simp
  have inv: "no_red_red (plug fs s') \<and> balanced (plug fs s')"
  proof (cases "fs = []")
    case True
    then show ?thesis using col by simp
  next
    case False
    with col(3) have c: "bheight s' = bheight s" "is_red_tree s' \<longrightarrow> is_red_tree s" by blast+
    show ?thesis using O(8,9) col(1,2) c by (rule plug_replace_inv)
  qed
  have fr: "\<forall>x. x \<notin> set (addrs t0) \<longrightarrow> x \<noteq> Head \<longrightarrow> h' x = h0 x"
    using heap(2) O(3,5) by simp
  have sh: "\<exists>x cq kq y. s2 = mk dir2 x q2 cq kq y \<and>
         (cq \<or> is_red_tree x \<or> (fs2 = [] \<and> \<not> is_red_tree y))"
    using new(2,3) by blast
  have rp: "rootptr s2 = Some q2" by (simp add: new(2))
  have ff: "f2 \<noteq> None \<longrightarrow> erase_hit t0 h0 node"
    using new(5) O(10) by blast
  have "erase_base t0 h0 h' node f2 fs2 s2"
    unfolding erase_base_def new(1)[symmetric]
    using heap(1) dn ad ks al inv fr ff by blast
  then show ?thesis
    unfolding erase_inv_def using rp new(4) sh by blast
qed

section \<open>One iteration of the removal loop\<close>

lemma keys_plug: "set (keys_of (plug fs s)) = set (keys_of (plug fs Leaf)) \<union> set (keys_of s)"
proof (induction fs arbitrary: s)
  case Nil
  then show ?case by simp
next
  case (Cons f fs)
  obtain d a c k y where f: "f = (d, a, c, k, y)" by (cases f)
  have "set (keys_of (plug fs (mk d s a c k y))) =
          set (keys_of (plug fs Leaf)) \<union> set (keys_of (mk d s a c k y))"
    by (rule Cons.IH)
  moreover have "set (keys_of (plug fs (mk d Leaf a c k y))) =
          set (keys_of (plug fs Leaf)) \<union> set (keys_of (mk d Leaf a c k y))"
    by (rule Cons.IH)
  ultimately show ?case by (auto simp: f keys_of_mk)
qed

lemma addrs_sub_plug: "set (addrs s) \<subseteq> set (addrs (plug fs s))"
  using addrs_plug[of fs s] by blast

lemma parent_ref_Cons [simp]: "parent_ref ((d, a, c, k, y) # fs) = a"
  by (simp add: parent_ref_def frame_addr_def)

lemma erase_move:
  assumes inv: "erase_inv t0 h0 h node f p q dir fs s"
    and s: "s = mk dir (mk dQ X1 Q cQ kQ Y1) q cq kq y"
    and f1: "f1 \<noteq> None \<longrightarrow> f \<noteq> None \<or> erase_hit t0 h0 node"
    and c: "cQ \<or> is_red_tree X1"
  shows "erase_inv t0 h0 h node f1 (Some q) Q dQ ((dir, q, cq, kq, y) # fs) (mk dQ X1 Q cQ kQ Y1)"
proof -
  note I = erase_invD[OF inv]
  note NF = node_focus[OF I(1,2)]
  show ?thesis
  proof (rule erase_inv_replace[OF erase_inv_base[OF inv], where s' = s])
    show "repr h (Some Head) (head_tree (plug fs s))" by (rule I(1))
    show "plug fs s = plug ((dir, q, cq, kq, y) # fs) (mk dQ X1 Q cQ kQ Y1)" by (simp add: s)
    show "mk dQ X1 Q cQ kQ Y1 = mk dQ X1 Q cQ kQ Y1" ..
    show "cQ \<or> is_red_tree X1 \<or> ((dir, q, cq, kq, y) # fs = [] \<and> \<not> is_red_tree Y1)"
      using c by blast
    show "Some q = Some (parent_ref ((dir, q, cq, kq, y) # fs))" by simp
    show "f1 \<noteq> None \<longrightarrow> f \<noteq> None \<or> erase_hit t0 h0 node" by (rule f1)
    show "distinct (addrs s)" by (rule NF(2))
    show "no_red_red s" using I(10) by (rule plug_focus_nrr)
    show "balanced s" using I(11) by (rule plug_focus_bal)
  qed simp_all
qed

lemma erase_step_rotate_q:
  assumes inv: "erase_inv t0 h0 h node f p q dir fs s"
    and s: "s = mk dir (mk dQ X1 Q False kQ (mk dQ B S True kS A)) q cq kq y"
    and f1: "f1 \<noteq> None \<longrightarrow> f \<noteq> None \<or> erase_hit t0 h0 node"
    and c: "\<not> is_red_tree X1"
  shows "\<exists>h1 p2 fs2 s2. erase_push h p q Q dQ dir = Inr (h1, p2) \<and>
           erase_inv t0 h0 h1 node f1 (Some p2) Q dQ fs2 s2 \<and> size_of s2 < size_of s"
proof -
  note I = erase_invD[OF inv]
  note NF = node_focus[OF I(1,2)]
  let ?s' = "mk dir (mk dQ (mk dQ X1 Q True kQ B) S False kS A) q cq kq y"
  let ?fs2 = "(dQ, S, False, kS, A) # (dir, q, cq, kq, y) # fs"
  let ?s2 = "mk dQ X1 Q True kQ B"
  have rq: "repr h (Some q) s" using NF(1) by (simp add: s)
  have ds: "distinct (addrs s)" by (rule NF(2))
  from erase_push_rotate_q[OF rq[unfolded s] ds[unfolded s], of p] obtain h1 where
    ep: "erase_push h p q Q dQ dir = Inr (h1, S)"
    and r1: "repr h1 (Some q) ?s'"
    and fr: "\<forall>x. x \<notin> set (addrs s) \<longrightarrow> h1 x = h x"
    unfolding s by blast
  have nrr: "no_red_red s" using I(10) by (rule plug_focus_nrr)
  have bal: "balanced s" using I(11) by (rule plug_focus_bal)
  have inv': "erase_inv t0 h0 h1 node f1 (Some S) Q dQ ?fs2 ?s2"
  proof (rule erase_inv_replace[OF erase_inv_base[OF inv], where s' = ?s'])
    show "repr h1 (Some Head) (head_tree (plug fs ?s'))"
      using r1 fr by (intro NF(3)) (auto simp: s)
    show "\<forall>x. x \<notin> set (addrs (plug fs s)) \<longrightarrow> x \<noteq> Head \<longrightarrow> h1 x = h x"
      using fr addrs_sub_plug[of s fs] by blast
    show "set (addrs ?s') = set (addrs s)" by (auto simp: s)
    show "distinct (addrs ?s')" using ds unfolding s by (simp; blast)
    show "keys_of ?s' = keys_of s" by (simp add: s keys_of_mk)
    show "addrs ?s' = addrs s" by (simp add: s addrs_mk_list)
    show "no_red_red ?s'" using nrr c unfolding s by simp
    show "balanced ?s'" using bal unfolding s by (auto split: if_splits)
    show "(bheight ?s' = bheight s \<and> (is_red_tree ?s' \<longrightarrow> is_red_tree s)) \<or> fs = []"
      using bal unfolding s by (auto split: if_splits)
    show "plug fs ?s' = plug ?fs2 ?s2" by simp
    show "?s2 = mk dQ X1 Q True kQ B" ..
    show "True \<or> is_red_tree X1 \<or> (?fs2 = [] \<and> \<not> is_red_tree B)" by simp
    show "Some S = Some (parent_ref ?fs2)" by simp
    show "f1 \<noteq> None \<longrightarrow> f \<noteq> None \<or> erase_hit t0 h0 node" by (rule f1)
  qed
  have "size_of ?s2 < size_of s" by (simp add: s)
  with ep inv' show ?thesis by blast
qed


lemma paint_mk [simp]: "paint c (mk d x a c0 k y) = mk d x a c k y"
  by (simp add: mk_def)

lemma keys_of_paint [simp]: "keys_of (paint c t) = keys_of t"
  by (cases t) auto

lemma size_of_paint [simp]: "size_of (paint c t) = size_of t"
  by (cases t) auto

lemma balanced_paint [simp]: "balanced (paint c t) = balanced t"
  by (cases t) auto

lemma no_red_red_paint_black: "no_red_red t \<Longrightarrow> no_red_red (paint False t)"
  by (cases t) auto

lemma is_red_tree_paint_black [simp]: "is_red_tree (paint False t) = False"
  by (cases t) auto

lemma bheight_paint_black: "is_red_tree t \<Longrightarrow> bheight (paint False t) = Suc (bheight t)"
  by (cases t) auto

lemma erase_step_flip:
  assumes inv: "erase_inv t0 h0 h node f p q dir fs s"
    and s: "s = mk dir (mk dQ X1 Q False kQ Y1) q cq kq (mk dir Sl S cS kS Sn)"
    and pushed: "cq \<or> (fs = [] \<and> \<not> cS)"
    and f1: "f1 \<noteq> None \<longrightarrow> f \<noteq> None \<or> erase_hit t0 h0 node"
    and c: "\<not> is_red_tree X1" "\<not> is_red_tree Y1" "\<not> is_red_tree Sl" "\<not> is_red_tree Sn"
  shows "\<exists>h1 p2 fs2 s2. erase_push h p q Q dQ dir = Inr (h1, p2) \<and>
           erase_inv t0 h0 h1 node f1 (Some p2) Q dQ fs2 s2 \<and> size_of s2 < size_of s"
proof -
  note I = erase_invD[OF inv]
  note NF = node_focus[OF I(1,2)]
  let ?s' = "mk dir (mk dQ X1 Q True kQ Y1) q False kq (mk dir Sl S True kS Sn)"
  let ?fs2 = "(dir, q, False, kq, mk dir Sl S True kS Sn) # fs"
  let ?s2 = "mk dQ X1 Q True kQ Y1"
  have rq: "repr h (Some q) s" using NF(1) by (simp add: s)
  have ds: "distinct (addrs s)" by (rule NF(2))
  from erase_push_flip[OF rq[unfolded s] ds[unfolded s] c(2,3,4), of p] obtain h1 where
    ep: "erase_push h p q Q dQ dir = Inr (h1, q)"
    and r1: "repr h1 (Some q) ?s'"
    and fr: "\<forall>x. x \<noteq> q \<longrightarrow> x \<noteq> Q \<longrightarrow> x \<noteq> S \<longrightarrow> h1 x = h x"
    by blast
  have nrr: "no_red_red s" using I(10) by (rule plug_focus_nrr)
  have bal: "balanced s" using I(11) by (rule plug_focus_bal)
  have cS: "\<not> cS" using pushed nrr unfolding s by auto
  have inv': "erase_inv t0 h0 h1 node f1 (Some q) Q dQ ?fs2 ?s2"
  proof (rule erase_inv_replace[OF erase_inv_base[OF inv], where s' = ?s'])
    show "repr h1 (Some Head) (head_tree (plug fs ?s'))"
      using r1 fr by (intro NF(3)) (auto simp: s)
    show "\<forall>x. x \<notin> set (addrs (plug fs s)) \<longrightarrow> x \<noteq> Head \<longrightarrow> h1 x = h x"
    proof (intro allI impI)
      fix x assume "x \<notin> set (addrs (plug fs s))"
      then have "x \<notin> set (addrs s)" using addrs_sub_plug[of s fs] by blast
      then show "h1 x = h x" using fr by (simp add: s)
    qed
    show "set (addrs ?s') = set (addrs s)" by (auto simp: s)
    show "distinct (addrs ?s')" using ds unfolding s by (simp; blast)
    show "keys_of ?s' = keys_of s" by (simp add: s keys_of_mk)
    show "addrs ?s' = addrs s" by (simp add: s addrs_mk_list)
    show "no_red_red ?s'" using nrr c unfolding s by simp
    show "balanced ?s'" using bal cS unfolding s by (auto split: if_splits)
    show "(bheight ?s' = bheight s \<and> (is_red_tree ?s' \<longrightarrow> is_red_tree s)) \<or> fs = []"
      using bal pushed cS unfolding s by (auto split: if_splits)
    show "plug fs ?s' = plug ?fs2 ?s2" by simp
    show "?s2 = mk dQ X1 Q True kQ Y1" ..
    show "True \<or> is_red_tree X1 \<or> (?fs2 = [] \<and> \<not> is_red_tree Y1)" by simp
    show "Some q = Some (parent_ref ?fs2)" by simp
    show "f1 \<noteq> None \<longrightarrow> f \<noteq> None \<or> erase_hit t0 h0 node" by (rule f1)
  qed
  have "size_of ?s2 < size_of s" by (simp add: s)
  with ep inv' show ?thesis by blast
qed

lemma erase_step_double:
  assumes inv: "erase_inv t0 h0 h node f p q dir fs s"
    and s: "s = mk dir (mk dQ X1 Q False kQ Y1) q cq kq (mk dir (mk dir R1 r True kr R2) S cS kS Sn)"
    and pushed: "cq \<or> (fs = [] \<and> \<not> cS)"
    and f1: "f1 \<noteq> None \<longrightarrow> f \<noteq> None \<or> erase_hit t0 h0 node"
    and c: "\<not> is_red_tree X1" "\<not> is_red_tree Y1"
  shows "\<exists>h1 p2 fs2 s2. erase_push h p q Q dQ dir = Inr (h1, p2) \<and>
           erase_inv t0 h0 h1 node f1 (Some p2) Q dQ fs2 s2 \<and> size_of s2 < size_of s"
proof -
  note I = erase_invD[OF inv]
  let ?G = "parent_ref fs"
  let ?Xq = "mk dQ X1 Q False kQ Y1"
  let ?s' = "mk dir (mk dir (mk dQ X1 Q True kQ Y1) q False kq R1) r True kr (mk dir R2 S False kS Sn)"
  let ?fs2 = "(dir, q, False, kq, R1) # (dir, r, True, kr, mk dir R2 S False kS Sn) # fs"
  let ?s2 = "mk dQ X1 Q True kQ Y1"
  from parent_focus[OF I(1,2)] obtain dG cG kG yG where
    PF: "repr h (Some ?G) (mk dG s ?G cG kG yG)"
      "distinct (addrs (mk dG s ?G cG kG yG))"
      "set (addrs (mk dG s ?G cG kG yG)) \<subseteq> insert Head (set (addrs (plug fs s)))"
      "\<And>h' s'. repr h' (Some ?G) (mk dG s' ?G cG kG yG) \<Longrightarrow>
        set (addrs s') \<subseteq> set (addrs s) \<Longrightarrow>
        (\<forall>x. x \<notin> set (addrs (mk dG s ?G cG kG yG)) \<longrightarrow> h' x = h x) \<Longrightarrow>
        repr h' (Some Head) (head_tree (plug fs s'))"
    by blast
  have xq: "?Xq = mk dQ X1 Q False kQ Y1" ..
  from erase_push_double[OF PF(1)[unfolded s] PF(2)[unfolded s] xq c(2)] obtain h1 where
    ep: "erase_push h (Some ?G) q Q dQ dir = Inr (h1, q)"
    and r1: "repr h1 (Some ?G) (mk dG ?s' ?G cG kG yG)"
    and fr: "\<forall>x. x \<notin> set (addrs (mk dG s ?G cG kG yG)) \<longrightarrow> h1 x = h x"
    unfolding s by (auto simp: paint_mk)
  have ds: "distinct (addrs s)" using PF(2) by simp
  have nrr: "no_red_red s" using I(10) by (rule plug_focus_nrr)
  have bal: "balanced s" using I(11) by (rule plug_focus_bal)
  have cS: "\<not> cS" using pushed nrr unfolding s by auto
  have inv': "erase_inv t0 h0 h1 node f1 (Some q) Q dQ ?fs2 ?s2"
  proof (rule erase_inv_replace[OF erase_inv_base[OF inv], where s' = ?s'])
    show "repr h1 (Some Head) (head_tree (plug fs ?s'))"
      using r1 fr by (intro PF(4)) (auto simp: s)
    show "\<forall>x. x \<notin> set (addrs (plug fs s)) \<longrightarrow> x \<noteq> Head \<longrightarrow> h1 x = h x"
      using fr PF(3) by blast
    show "set (addrs ?s') = set (addrs s)" by (auto simp: s)
    show "distinct (addrs ?s')" using ds unfolding s by (simp; blast)
    show "keys_of ?s' = keys_of s" by (simp add: s keys_of_mk)
    show "addrs ?s' = addrs s" by (simp add: s addrs_mk_list)
    show "no_red_red ?s'" using nrr c unfolding s by simp
    show "balanced ?s'" using bal cS unfolding s by (auto split: if_splits)
    show "(bheight ?s' = bheight s \<and> (is_red_tree ?s' \<longrightarrow> is_red_tree s)) \<or> fs = []"
      using bal pushed cS unfolding s by (auto split: if_splits)
    show "plug fs ?s' = plug ?fs2 ?s2" by simp
    show "?s2 = mk dQ X1 Q True kQ Y1" ..
    show "True \<or> is_red_tree X1 \<or> (?fs2 = [] \<and> \<not> is_red_tree Y1)" by simp
    show "Some q = Some (parent_ref ?fs2)" by simp
    show "f1 \<noteq> None \<longrightarrow> f \<noteq> None \<or> erase_hit t0 h0 node" by (rule f1)
  qed
  have "size_of ?s2 < size_of s" by (simp add: s)
  with ep inv' I(9) show ?thesis by blast
qed

lemma erase_step_single:
  assumes inv: "erase_inv t0 h0 h node f p q dir fs s"
    and s: "s = mk dir (mk dQ X1 Q False kQ Y1) q cq kq (mk dir Sl S cS kS Sn)"
    and pushed: "cq \<or> (fs = [] \<and> \<not> cS)"
    and f1: "f1 \<noteq> None \<longrightarrow> f \<noteq> None \<or> erase_hit t0 h0 node"
    and c: "\<not> is_red_tree X1" "\<not> is_red_tree Y1" "\<not> is_red_tree Sl" "is_red_tree Sn"
  shows "\<exists>h1 p2 fs2 s2. erase_push h p q Q dQ dir = Inr (h1, p2) \<and>
           erase_inv t0 h0 h1 node f1 (Some p2) Q dQ fs2 s2 \<and> size_of s2 < size_of s"
proof -
  note I = erase_invD[OF inv]
  let ?G = "parent_ref fs"
  let ?Xq = "mk dQ X1 Q False kQ Y1"
  let ?s' = "mk dir (mk dir (mk dQ X1 Q True kQ Y1) q False kq Sl) S True kS (paint False Sn)"
  let ?fs2 = "(dir, q, False, kq, Sl) # (dir, S, True, kS, paint False Sn) # fs"
  let ?s2 = "mk dQ X1 Q True kQ Y1"
  from parent_focus[OF I(1,2)] obtain dG cG kG yG where
    PF: "repr h (Some ?G) (mk dG s ?G cG kG yG)"
      "distinct (addrs (mk dG s ?G cG kG yG))"
      "set (addrs (mk dG s ?G cG kG yG)) \<subseteq> insert Head (set (addrs (plug fs s)))"
      "\<And>h' s'. repr h' (Some ?G) (mk dG s' ?G cG kG yG) \<Longrightarrow>
        set (addrs s') \<subseteq> set (addrs s) \<Longrightarrow>
        (\<forall>x. x \<notin> set (addrs (mk dG s ?G cG kG yG)) \<longrightarrow> h' x = h x) \<Longrightarrow>
        repr h' (Some Head) (head_tree (plug fs s'))"
    by blast
  have xq: "?Xq = mk dQ X1 Q False kQ Y1" ..
  from erase_push_single[OF PF(1)[unfolded s] PF(2)[unfolded s] xq c(2,3,4)] obtain h1 where
    ep: "erase_push h (Some ?G) q Q dQ dir = Inr (h1, q)"
    and r1: "repr h1 (Some ?G) (mk dG ?s' ?G cG kG yG)"
    and fr: "\<forall>x. x \<notin> set (addrs (mk dG s ?G cG kG yG)) \<longrightarrow> h1 x = h x"
    unfolding s by (auto simp: paint_mk)
  have ds: "distinct (addrs s)" using PF(2) by simp
  have nrr: "no_red_red s" using I(10) by (rule plug_focus_nrr)
  have bal: "balanced s" using I(11) by (rule plug_focus_bal)
  have cS: "\<not> cS" using pushed nrr unfolding s by auto
  have inv': "erase_inv t0 h0 h1 node f1 (Some q) Q dQ ?fs2 ?s2"
  proof (rule erase_inv_replace[OF erase_inv_base[OF inv], where s' = ?s'])
    show "repr h1 (Some Head) (head_tree (plug fs ?s'))"
      using r1 fr by (intro PF(4)) (auto simp: s)
    show "\<forall>x. x \<notin> set (addrs (plug fs s)) \<longrightarrow> x \<noteq> Head \<longrightarrow> h1 x = h x"
      using fr PF(3) by blast
    show "set (addrs ?s') = set (addrs s)" by (auto simp: s)
    show "distinct (addrs ?s')" using ds unfolding s by (simp; blast)
    show "keys_of ?s' = keys_of s" by (simp add: s keys_of_mk)
    show "addrs ?s' = addrs s" by (simp add: s addrs_mk_list)
    show "no_red_red ?s'" using nrr c unfolding s by (simp add: no_red_red_paint_black)
    show "balanced ?s'" using bal cS c(4) unfolding s
      by (auto split: if_splits simp: bheight_paint_black)
    show "(bheight ?s' = bheight s \<and> (is_red_tree ?s' \<longrightarrow> is_red_tree s)) \<or> fs = []"
      using bal pushed cS c(4) unfolding s by (auto split: if_splits simp: bheight_paint_black)
    show "plug fs ?s' = plug ?fs2 ?s2" by simp
    show "?s2 = mk dQ X1 Q True kQ Y1" ..
    show "True \<or> is_red_tree X1 \<or> (?fs2 = [] \<and> \<not> is_red_tree Y1)" by simp
    show "Some q = Some (parent_ref ?fs2)" by simp
    show "f1 \<noteq> None \<longrightarrow> f \<noteq> None \<or> erase_hit t0 h0 node" by (rule f1)
  qed
  have "size_of ?s2 < size_of s" by (simp add: s)
  with ep inv' I(9) show ?thesis by blast
qed

section \<open>The removal loop\<close>

lemma mk_exhaust: "t = Leaf \<or> (\<exists>x a c k y. t = mk d x a c k y)"
proof (cases t)
  case Leaf
  then show ?thesis by simp
next
  case (Node l a c k r)
  show ?thesis unfolding Node using Node_as_mk[of l a c k r d] by blast
qed

lemma red_mk_exhaust: "is_red_tree t \<Longrightarrow> \<exists>x a k y. t = mk d x a True k y"
proof -
  assume r: "is_red_tree t"
  then have "t \<noteq> Leaf" by auto
  with mk_exhaust[of t d] obtain x a c k y where t: "t = mk d x a c k y" by blast
  from r have "c = True" by (simp add: t)
  then have "t = mk d x a True k y" using t by simp
  then show ?thesis by (intro exI)
qed

lemma erase_loop_inv:
  assumes "erase_inv t0 h0 h node f p q dir fs s"
  shows "\<exists>h' f' q' dir' fs' cq kq y.
           erase_loop h node f g p q dir = Some (Inr (h', f', Some (parent_ref fs'), q')) \<and>
           erase_inv t0 h0 h' node f' (Some (parent_ref fs')) q' dir' fs' (mk dir' Leaf q' cq kq y)"
  using assms
proof (induction "size_of s" arbitrary: h f g p q dir fs s rule: less_induct)
  case less
  note inv = less.prems
  note I = erase_invD[OF inv]
  from I(12) obtain x cq kq y where s: "s = mk dir x q cq kq y"
    and pushed: "cq \<or> is_red_tree x \<or> (fs = [] \<and> \<not> is_red_tree y)" by blast
  note F = node_focus[OF I(1,2)]
  have rq: "repr h (Some q) (mk dir x q cq kq y)" using F(1) by (simp add: s)
  note Dq = repr_mk_dest[OF rq]
  have bs: "balanced (mk dir x q cq kq y)" using plug_focus_bal[OF I(11)] by (simp add: s)
  show ?case
  proof (cases x)
    case Leaf
    have l: "link (h q) dir = None" using Dq(4) by (simp add: Leaf)
    have e: "erase_loop h node f g p q dir = Some (Inr (h, f, p, q))"
      by (subst erase_loop.simps) (simp add: l)
    show ?thesis using e inv I(9) unfolding s Leaf by blast
  next
    case (Node l Q cQ kQ r)
    define dQ where "dQ = (node_cmp (h Q) (h node) <s 0)"
    define f1 where "f1 = (if node_cmp (h Q) (h node) = 0 then Some Q else f)"
    obtain X1 Y1 where x: "x = mk dQ X1 Q cQ kQ Y1"
      using Node_as_mk[of l Q cQ kQ r dQ] unfolding Node by blast
    have lq: "link (h q) dir = Some Q" using Dq(4) by (simp add: x)
    have rQ: "repr h (Some Q) (mk dQ X1 Q cQ kQ Y1)" using Dq(6) by (simp add: x)
    note DQ = repr_mk_dest[OF rQ]
    have redX: "is_red h (link (h Q) dQ) = is_red_tree X1"
      using repr_is_red[OF DQ(6)] DQ(4) by simp
    have hn: "node \<notin> set (addrs t0) \<Longrightarrow> node \<noteq> Head \<Longrightarrow> h node = h0 node"
      using I(5) by blast
    have kQ: "kQ \<in> set (keys_of t0)"
      using keys_plug[of fs s] I(4) by (auto simp: s x keys_of_mk)
    have f1c: "f1 \<noteq> None \<longrightarrow> f \<noteq> None \<or> erase_hit t0 h0 node"
      using kQ DQ(3) hn by (auto simp: f1_def node_cmp_def erase_hit_def)
    have step: "erase_loop h node f g p q dir =
      (if \<not> cQ \<and> \<not> is_red_tree X1 then
         (case erase_push h p q Q dQ dir of Inl e \<Rightarrow> Some (Inl e)
          | Inr (h1, p2) \<Rightarrow> erase_loop h1 node f1 p (Some p2) Q dQ)
       else erase_loop h node f1 p (Some q) Q dQ)"
      apply (subst erase_loop.simps)
      apply (simp only: lq option.case Let_def dQ_def[symmetric] f1_def[symmetric] redX
          is_red_simps DQ(2))
      done
    show ?thesis
    proof (cases "cQ \<or> is_red_tree X1")
      case True
      have inv1: "erase_inv t0 h0 h node f1 (Some q) Q dQ ((dir, q, cq, kq, y) # fs)
           (mk dQ X1 Q cQ kQ Y1)"
        using inv _ f1c True by (rule erase_move) (simp add: s x)
      have sz: "size_of (mk dQ X1 Q cQ kQ Y1) < size_of s" by (simp add: s x)
      have e: "erase_loop h node f g p q dir = erase_loop h node f1 p (Some q) Q dQ"
        using step True by auto
      show ?thesis unfolding e by (rule less.hyps[OF sz inv1])
    next
      case False
      then have cQ: "\<not> cQ" and nX: "\<not> is_red_tree X1" by simp_all
      have x': "x = mk dQ X1 Q False kQ Y1" using x cQ by simp
      have ex: "\<exists>h1 p2 fs2 s2. erase_push h p q Q dQ dir = Inr (h1, p2) \<and>
           erase_inv t0 h0 h1 node f1 (Some p2) Q dQ fs2 s2 \<and> size_of s2 < size_of s"
      proof (cases "is_red_tree Y1")
        case True
        from red_mk_exhaust[OF True, of dQ] obtain B S kS A where
          Y1: "Y1 = mk dQ B S True kS A" by blast
        have s': "s = mk dir (mk dQ X1 Q False kQ (mk dQ B S True kS A)) q cq kq y"
          by (simp add: s x' Y1)
        show ?thesis using inv s' f1c nX by (rule erase_step_rotate_q)
      next
        case nY: False
        have "y \<noteq> Leaf" using bs unfolding x' by (auto split: if_splits)
        with mk_exhaust[of y dir] obtain Sl S cS kS Sn where y: "y = mk dir Sl S cS kS Sn"
          by blast
        have s': "s = mk dir (mk dQ X1 Q False kQ Y1) q cq kq (mk dir Sl S cS kS Sn)"
          by (simp add: s x' y)
        have pushed': "cq \<or> (fs = [] \<and> \<not> cS)" using pushed by (simp add: x' y)
        show ?thesis
        proof (cases "is_red_tree Sl")
          case True
          from red_mk_exhaust[OF True, of dir] obtain R1 r kr R2 where
            Sl: "Sl = mk dir R1 r True kr R2" by blast
          have s'': "s = mk dir (mk dQ X1 Q False kQ Y1) q cq kq
              (mk dir (mk dir R1 r True kr R2) S cS kS Sn)"
            by (simp add: s' Sl)
          show ?thesis using inv s'' pushed' f1c nX nY by (rule erase_step_double)
        next
          case nSl: False
          show ?thesis
          proof (cases "is_red_tree Sn")
            case True
            show ?thesis using inv s' pushed' f1c nX nY nSl True by (rule erase_step_single)
          next
            case False
            show ?thesis using inv s' pushed' f1c nX nY nSl False by (rule erase_step_flip)
          qed
        qed
      qed
      then obtain h1 p2 fs2 s2 where ep: "erase_push h p q Q dQ dir = Inr (h1, p2)"
        and inv2: "erase_inv t0 h0 h1 node f1 (Some p2) Q dQ fs2 s2"
        and sz: "size_of s2 < size_of s" by blast
      have e: "erase_loop h node f g p q dir = erase_loop h1 node f1 p (Some p2) Q dQ"
        using step cQ nX by (simp add: ep)
      show ?thesis unfolding e by (rule less.hyps[OF sz inv2])
    qed
  qed
qed

section \<open>Removal keeps the balance invariants\<close>

lemma repr_rekey:
  assumes "repr h p t"
    "\<forall>x. red (h' x) = red (h x) \<and> link0 (h' x) = link0 (h x) \<and> link1 (h' x) = link1 (h x)"
  shows "repr h' p (rekey h' t)"
  using assms by (induction t arbitrary: p) auto

lemma addrs_rekey [simp]: "addrs (rekey h t) = addrs t"
  by (induction t) auto

lemma is_red_tree_rekey [simp]: "is_red_tree (rekey h t) = is_red_tree t"
  by (cases t) auto

lemma no_red_red_rekey [simp]: "no_red_red (rekey h t) = no_red_red t"
  by (induction t) auto

lemma bheight_rekey [simp]: "bheight (rekey h t) = bheight t"
  by (induction t) auto

lemma balanced_rekey [simp]: "balanced (rekey h t) = balanced t"
  by (induction t) auto

lemma black_leaf: "bheight t = 0 \<Longrightarrow> \<not> is_red_tree t \<Longrightarrow> t = Leaf"
  by (cases t) auto

lemma repr_head_tree: "repr h (Some Head) (head_tree t) \<Longrightarrow> repr h (link1 (h Head)) t"
  by (simp add: head_tree_def)

lemma mk_eq_iff:
  "mk d x a c k y = mk d x' a' c' k' y' \<longleftrightarrow> x = x' \<and> a = a' \<and> c = c' \<and> k = k' \<and> y = y'"
  by (cases d) (auto simp: mk_def)

lemma erase_finish:
  assumes inv: "erase_inv t0 h0 h node f (Some (parent_ref fs)) q dir fs (mk dir Leaf q cq kq y)"
  shows "\<exists>h3 t'. erase_unlink h f (Some (parent_ref fs)) q = Inr h3 \<and>
           repr h3 (link1 (h3 Head)) t' \<and> distinct_nodes t' \<and> no_red_red t' \<and> balanced t' \<and>
           set (addrs t') \<subseteq> set (addrs t0) \<and>
           (f = None \<longrightarrow> keys_of t' = keys_of t0 \<and> set (addrs t') = set (addrs t0) \<and>
              addrs t' = addrs t0 \<and>
              (\<forall>x. x \<notin> set (addrs t0) \<longrightarrow> x \<noteq> Head \<longrightarrow> h3 x = h0 x))"
proof (cases f)
  case None
  note I = erase_invD[OF inv]
  have u: "erase_unlink h f (Some (parent_ref fs)) q = Inr h" by (simp add: None erase_unlink_def)
  have r: "repr h (link1 (h Head)) (plug fs (mk dir Leaf q cq kq y))"
    using I(1) by (rule repr_head_tree)
  have sub: "set (addrs (plug fs (mk dir Leaf q cq kq y))) \<subseteq> set (addrs t0)"
    using I(3) by simp
  show ?thesis
    apply (intro exI conjI impI)
            apply (rule u)
           apply (rule r)
          apply (rule I(2))
         apply (rule I(10))
        apply (rule I(11))
       apply (rule sub)
      apply (rule I(4))
     apply (rule I(3))
     apply (rule I(14))
    apply (rule I(5))
    done
next
  case (Some fa)
  note I = erase_invD[OF inv]
  let ?G = "parent_ref fs"
  let ?s = "mk dir Leaf q cq kq y"
  have bs: "balanced ?s" using I(11) by (rule plug_focus_bal)
  have ns: "no_red_red ?s" using I(10) by (rule plug_focus_nrr)
  have by0: "bheight y = 0" using bs by simp
  from I(12) have pushed: "cq \<or> (fs = [] \<and> \<not> is_red_tree y)" by (auto simp: mk_eq_iff)
  have "\<not> is_red_tree y" using pushed ns by auto
  with by0 have y: "y = Leaf" by (rule black_leaf)
  have col: "no_red_red (plug fs Leaf) \<and> balanced (plug fs Leaf)"
  proof (cases cq)
    case True
    show ?thesis by (rule plug_replace_inv[OF I(10) I(11)]) (simp_all add: True by0)
  next
    case False
    with pushed have "fs = []" by simp
    then show ?thesis by simp
  qed
  have ad: "set (addrs (plug fs Leaf)) \<subseteq> set (addrs t0)"
    using addrs_plug[of fs ?s] I(3) by blast
  have di: "distinct (addrs (plug fs Leaf))"
    using I(7) by (rule plug_replace_distinct) simp_all
  have dn: "distinct_nodes (plug fs Leaf)"
    using di ad I(6) by (auto simp: distinct_nodes_def)
  from parent_focus[OF I(1,2)] obtain dG cG kG yG where
    P1: "repr h (Some ?G) (mk dG ?s ?G cG kG yG)"
    and P2: "distinct (addrs (mk dG ?s ?G cG kG yG))"
    and P3: "set (addrs (mk dG ?s ?G cG kG yG)) \<subseteq> insert Head (set (addrs (plug fs ?s)))"
    and P4: "\<And>h' s'. repr h' (Some ?G) (mk dG s' ?G cG kG yG) \<Longrightarrow>
        set (addrs s') \<subseteq> set (addrs ?s) \<Longrightarrow>
        (\<forall>x. x \<notin> set (addrs (mk dG ?s ?G cG kG yG)) \<longrightarrow> h' x = h x) \<Longrightarrow>
        repr h' (Some Head) (head_tree (plug fs s'))"
    by blast
  note DG = repr_mk_dest[OF P1]
  have rq: "repr h (Some q) (mk dir Leaf q cq kq Leaf)" using DG(6) by (simp add: y)
  note Dq = repr_mk_dest[OF rq]
  have lq: "link0 (h q) = None" "link1 (h q) = None"
    using Dq(4,5) by (cases dir; simp)+
  have cd: "(link (h ?G) True = Some q) = dG"
    using P1 _ _ by (rule child_dir) (use P2 in auto)
  have qG: "q \<noteq> ?G" using P2 by auto
  define h1 where "h1 = h(fa := (h fa)\<lparr>key := key (h q)\<rparr>)"
  define h2 where "h2 = h1(q := (h1 q)\<lparr>key := key (h fa)\<rparr>)"
  define h3 where "h3 = h2(?G := set_link (h2 ?G) dG None)"
  define hu where "hu = h(?G := set_link (h ?G) dG None)"
  have same2: "red (h2 x) = red (h x) \<and> link0 (h2 x) = link0 (h x) \<and> link1 (h2 x) = link1 (h x)" for x
    by (simp add: h2_def h1_def)
  have l2: "link (h2 x) d = link (h x) d" for x d
    using same2[of x] by (cases d) simp_all
  have l2': "link0 (h2 x) = link0 (h x)" "link1 (h2 x) = link1 (h x)" for x
    using same2[of x] by simp_all
  have cd': "(link1 (h ?G) = Some q) = dG" using cd by simp
  have u: "erase_unlink h f (Some (parent_ref fs)) q = Inr h3"
    unfolding erase_unlink_def Some
    apply (simp only: option.case Let_def h1_def[symmetric])
    apply (simp only: h2_def[symmetric])
    apply (simp only: l2 l2' cd cd' lq link_simps h3_def[symmetric] simp_thms if_True)
    done
  have same3: "red (h3 x) = red (hu x) \<and> link0 (h3 x) = link0 (hu x) \<and> link1 (h3 x) = link1 (hu x)" for x
    using same2[of x] same2[of ?G] by (cases dG) (auto simp: h3_def hu_def set_link_def)
  have ru: "repr hu (Some ?G) (mk dG Leaf ?G cG kG yG)"
  proof -
    have "?G \<notin> set (addrs yG)" using P2 by auto
    then have "repr hu (rootptr yG) yG" using DG(7) by (simp add: hu_def)
    then show ?thesis using DG(2,3,5) by (cases dG) (auto simp: mk_def hu_def set_link_def)
  qed
  have "repr hu (Some Head) (head_tree (plug fs Leaf))"
    using ru by (rule P4) (auto simp: hu_def)
  then have "repr hu (link1 (hu Head)) (plug fs Leaf)" by (rule repr_head_tree)
  then have "repr h3 (link1 (hu Head)) (rekey h3 (plug fs Leaf))"
    by (rule repr_rekey) (use same3 in blast)
  then have r3: "repr h3 (link1 (h3 Head)) (rekey h3 (plug fs Leaf))"
    using same3[of Head] by simp
  show ?thesis
    apply (rule exI[of _ h3])
    apply (rule exI[of _ "rekey h3 (plug fs Leaf)"])
    using u r3 dn col ad by (simp add: Some distinct_nodes_def)
qed

lemma repr_key_in: "repr h p t \<Longrightarrow> a \<in> set (addrs t) \<Longrightarrow> key (h a) \<in> set (keys_of t)"
  by (induction t arbitrary: p) auto

lemma erase_start:
  assumes R: "repr h (Some r) t0" and D: "distinct_nodes t0" and N: "no_red_red t0"
    and B: "balanced t0" and K: "\<not> is_red_tree t0"
  shows "\<exists>h' f' q' dir' fs' cq kq y.
     erase_loop (h(Head := set_link head_init True (Some r))) node None None None Head True =
       Some (Inr (h', f', Some (parent_ref fs'), q')) \<and>
     erase_inv t0 h h' node f' (Some (parent_ref fs')) q' dir' fs' (mk dir' Leaf q' cq kq y)"
proof -
  define h1 where "h1 = h(Head := set_link head_init True (Some r))"
  have Hn: "Head \<notin> set (addrs t0)" using D by (simp add: distinct_nodes_def)
  have r1: "repr h1 (Some r) t0" using R Hn by (simp add: h1_def)
  have R1: "repr h1 (Some Head) (head_tree t0)"
    using r1 by (simp add: head_tree_def h1_def head_init_def)
  have frame: "\<forall>x. x \<notin> set (addrs t0) \<longrightarrow> x \<noteq> Head \<longrightarrow> h1 x = h x" by (simp add: h1_def)
  define dR where "dR = (node_cmp (h1 r) (h1 node) <s 0)"
  define f1 where "f1 = (if node_cmp (h1 r) (h1 node) = 0 then Some r else None)"
  have "t0 \<noteq> Leaf" using R by auto
  with mk_exhaust[of t0 dR] obtain X1 a c kr Y1 where t0': "t0 = mk dR X1 a c kr Y1" by blast
  have "a = r" using repr_mk_dest(1)[OF R[unfolded t0']] by simp
  moreover have "c = False" using K by (simp add: t0')
  ultimately have t0: "t0 = mk dR X1 r False kr Y1" using t0' by simp
  note Dr = repr_mk_dest[OF r1[unfolded t0]]
  have kr: "kr \<in> set (keys_of t0)" by (simp add: t0 keys_of_mk)
  have f1c: "f1 \<noteq> None \<longrightarrow> erase_hit t0 h node"
    using kr Dr(3) frame by (auto simp: f1_def node_cmp_def erase_hit_def)
  have base: "erase_base t0 h h1 node f1 [] t0"
    unfolding erase_base_def using R1 D N B frame f1c by simp
  have lH: "link (h1 Head) True = Some r" by (simp add: h1_def head_init_def)
  have redX: "is_red h1 (link (h1 r) dR) = is_red_tree X1"
    using repr_is_red[OF Dr(6)] Dr(4) by simp
  have step: "erase_loop h1 node None None None Head True =
      (if \<not> is_red_tree X1 then
         (case erase_push h1 None Head r dR True of Inl e \<Rightarrow> Some (Inl e)
          | Inr (h2, p2) \<Rightarrow> erase_loop h2 node f1 None (Some p2) r dR)
       else erase_loop h1 node f1 None (Some Head) r dR)"
    apply (subst erase_loop.simps)
    apply (simp only: lH option.case Let_def dR_def[symmetric] f1_def[symmetric] redX
        is_red_simps Dr(2) simp_thms)
    done
  have at_root: "erase_inv t0 h h1 node f1 (Some Head) r dR [] t0"
    if "is_red_tree X1 \<or> \<not> is_red_tree Y1"
  proof -
    have "\<exists>x cq kq y. t0 = mk dR x r cq kq y \<and>
         (cq \<or> is_red_tree x \<or> (([] :: frame list) = [] \<and> \<not> is_red_tree y))"
      using t0 that by blast
    then show ?thesis
      unfolding erase_inv_def using base by (simp add: parent_ref_def t0)
  qed
  show ?thesis
  proof (cases "is_red_tree X1")
    case True
    have e: "erase_loop h1 node None None None Head True
        = erase_loop h1 node f1 None (Some Head) r dR"
      using step True by simp
    show ?thesis unfolding h1_def[symmetric] e
      by (rule erase_loop_inv[OF at_root]) (simp add: True)
  next
    case nX: False
    show ?thesis
    proof (cases "is_red_tree Y1")
      case True
      from red_mk_exhaust[OF True, of dR] obtain B S kS A where
        Y1: "Y1 = mk dR B S True kS A" by blast
      let ?s' = "mk dR (mk dR X1 r True kr B) S False kS A"
      have RH: "repr h1 (Some Head)
          (mk True (mk dR X1 r False kr (mk dR B S True kS A)) Head False 0 Leaf)"
        using R1 unfolding head_tree_mk t0 Y1 .
      have DH: "distinct (addrs
          (mk True (mk dR X1 r False kr (mk dR B S True kS A)) Head False 0 Leaf))"
        using distinct_head_tree[OF D] unfolding head_tree_mk t0 Y1 .
      from erase_push_rotate_q[OF RH DH, of None] obtain h2 where
        ep: "erase_push h1 None Head r dR True = Inr (h2, S)"
        and r2: "repr h2 (Some Head) (mk True ?s' Head False 0 Leaf)"
        and fr2: "\<forall>x. x \<notin> set (addrs
          (mk True (mk dR X1 r False kr (mk dR B S True kS A)) Head False 0 Leaf)) \<longrightarrow> h2 x = h1 x"
        by blast
      have d0: "distinct (addrs t0)" using D by (simp add: distinct_nodes_def)
      have inv2: "erase_inv t0 h h2 node f1 (Some S) r dR [(dR, S, False, kS, A)]
          (mk dR X1 r True kr B)"
      proof (rule erase_inv_replace[OF base, where s' = ?s'])
        show "repr h2 (Some Head) (head_tree (plug [] ?s'))"
          using r2 by (simp add: head_tree_mk)
        show "\<forall>x. x \<notin> set (addrs (plug [] t0)) \<longrightarrow> x \<noteq> Head \<longrightarrow> h2 x = h1 x"
          using fr2 by (simp add: t0 Y1)
        show "set (addrs ?s') = set (addrs t0)" by (auto simp: t0 Y1)
        show "distinct (addrs ?s')" using d0 unfolding t0 Y1 by (simp; blast)
        show "keys_of ?s' = keys_of t0" by (simp add: t0 Y1 keys_of_mk)
        show "addrs ?s' = addrs t0" by (simp add: t0 Y1 addrs_mk_list)
        show "no_red_red ?s'" using N nX unfolding t0 Y1 by simp
        show "balanced ?s'" using B unfolding t0 Y1 by (auto split: if_splits)
        show "(bheight ?s' = bheight t0 \<and> (is_red_tree ?s' \<longrightarrow> is_red_tree t0)) \<or>
            ([] :: frame list) = []" by simp
        show "plug [] ?s' = plug [(dR, S, False, kS, A)] (mk dR X1 r True kr B)" by simp
        show "mk dR X1 r True kr B = mk dR X1 r True kr B" ..
        show "True \<or> is_red_tree X1 \<or> ([(dR, S, False, kS, A)] = [] \<and> \<not> is_red_tree B)" by simp
        show "Some S = Some (parent_ref [(dR, S, False, kS, A)])" by simp
        show "f1 \<noteq> None \<longrightarrow> f1 \<noteq> None \<or> erase_hit t0 h node" by simp
      qed
      have e: "erase_loop h1 node None None None Head True
          = erase_loop h2 node f1 None (Some S) r dR"
        using step nX by (simp add: ep)
      show ?thesis unfolding h1_def[symmetric] e by (rule erase_loop_inv[OF inv2])
    next
      case nY: False
      have RH: "repr h1 (Some Head) (mk True (mk dR X1 r False kr Y1) Head False 0 Leaf)"
        using R1 unfolding head_tree_mk t0 .
      have ep: "erase_push h1 None Head r dR True = Inr (h1, Head)"
        using RH nY by (rule erase_push_no_sibling)
      have e: "erase_loop h1 node None None None Head True
          = erase_loop h1 node f1 None (Some Head) r dR"
        using step nX by (simp add: ep)
      show ?thesis unfolding h1_def[symmetric] e
        by (rule erase_loop_inv[OF at_root]) (simp add: nY)
    qed
  qed
qed

text \<open>The rotations and the push-down step change no key.\<close>

lemma jsw_single_key: "jsw_single h r d = Inr (h', s) \<Longrightarrow> key (h' x) = key (h x)"
  by (auto simp: jsw_single_def Let_def set_link_def split: option.splits if_splits)

lemma jsw_double_key: "jsw_double h r d = Inr (h', s) \<Longrightarrow> key (h' x) = key (h x)"
proof -
  assume a: "jsw_double h r d = Inr (h', s)"
  then obtain rr where r: "r = Some rr" by (cases r) (auto simp: jsw_double_def)
  from a obtain h1 s1 where
    1: "jsw_single h (link (h rr) (\<not> d)) (\<not> d) = Inr (h1, s1)"
    and 2: "jsw_single (h1(rr := set_link (h1 rr) (\<not> d) s1)) (Some rr) d = Inr (h', s)"
    by (auto simp: jsw_double_def r split: sum.splits)
  have "key (h' x) = key ((h1(rr := set_link (h1 rr) (\<not> d) s1)) x)"
    using 2 by (rule jsw_single_key)
  also have "\<dots> = key (h1 x)" by simp
  also have "\<dots> = key (h x)" using 1 by (rule jsw_single_key)
  finally show ?thesis .
qed

lemma erase_recolor_key: "erase_recolor h gr qr d = Inr h' \<Longrightarrow> key (h' x) = key (h x)"
  by (auto simp: erase_recolor_def Let_def split: option.splits if_splits)

lemma jsw_single_keys: "jsw_single h r d = Inr (h', s) \<Longrightarrow> \<forall>x. key (h' x) = key (h x)"
  using jsw_single_key by blast

lemma jsw_double_keys: "jsw_double h r d = Inr (h', s) \<Longrightarrow> \<forall>x. key (h' x) = key (h x)"
  using jsw_double_key by blast

lemma erase_recolor_keys: "erase_recolor h gr qr d = Inr h' \<Longrightarrow> \<forall>x. key (h' x) = key (h x)"
  using erase_recolor_key by blast

lemma erase_push_key:
  assumes "erase_push h g pr qr d lastd = Inr (h', p2)"
  shows "key (h' x) = key (h x)"
  using assms unfolding erase_push_def Let_def
  by (auto split: if_splits option.splits sum.splits prod.splits
      dest!: jsw_single_keys jsw_double_keys erase_recolor_keys)

lemma erase_loop_key:
  assumes "erase_loop h node f g p q dir = Some r"
  shows "\<forall>h' f' p' q'. r = Inr (h', f', p', q') \<longrightarrow> key (h' x) = key (h x)"
proof (rule erase_loop.raw_induct[where P = "\<lambda>h node f g p q dir r.
    \<forall>h' f' p' q'. r = Inr (h', f', p', q') \<longrightarrow> key (h' x) = key (h x)", OF _ assms])
  fix erase_loop h node f g p q dir r
  assume IH: "\<And>h node f g p q dir r. erase_loop h node f g p q dir = Some r \<Longrightarrow>
      \<forall>h' f' p' q'. r = Inr (h', f', p', q') \<longrightarrow> key (h' x) = key (h x)"
    and body: "(case link (h q) dir of None \<Rightarrow> Some (Inr (h, f, p, q))
      | Some q1 \<Rightarrow>
          let lastd = dir; g1 = p; p1 = q;
              dir1 = (node_cmp (h q1) (h node) <s 0);
              f1 = (if node_cmp (h q1) (h node) = 0 then Some q1 else f)
          in if \<not> is_red h (Some q1) \<and> \<not> is_red h (link (h q1) dir1)
             then case erase_push h g1 p1 q1 dir1 lastd of
                  Inl e \<Rightarrow> Some (Inl e)
                  | Inr (h1, p2) \<Rightarrow> erase_loop h1 node f1 g1 (Some p2) q1 dir1
             else erase_loop h node f1 g1 (Some p1) q1 dir1) = Some r"
  show "\<forall>h' f' p' q'. r = Inr (h', f', p', q') \<longrightarrow> key (h' x) = key (h x)"
  proof (cases "link (h q) dir")
    case None
    then show ?thesis using body by auto
  next
    case (Some q1)
    define dir1 where "dir1 = (node_cmp (h q1) (h node) <s 0)"
    define f1 where "f1 = (if node_cmp (h q1) (h node) = 0 then Some q1 else f)"
    show ?thesis
    proof (cases "\<not> is_red h (Some q1) \<and> \<not> is_red h (link (h q1) dir1)")
      case True
      show ?thesis
      proof (intro allI impI)
        fix h' f' p' q' assume r: "r = Inr (h', f', p', q')"
        with body Some True obtain h1 p2 where ep: "erase_push h p q q1 dir1 dir = Inr (h1, p2)"
          and el: "erase_loop h1 node f1 p (Some p2) q1 dir1 = Some r"
          unfolding dir1_def f1_def by (auto simp: Let_def split: sum.splits)
        have "key (h' x) = key (h1 x)" using IH[OF el] r by blast
        then show "key (h' x) = key (h x)" using erase_push_key[OF ep, of x] by simp
      qed
    next
      case False
      with body Some have el: "erase_loop h node f1 p (Some q) q1 dir1 = Some r"
        unfolding dir1_def f1_def by (auto simp: Let_def)
      show ?thesis using el by (rule IH)
    qed
  qed
qed

lemma jsw_rberase_correct:
  assumes R: "repr h root t0" and D: "distinct_nodes t0" and I: "rb_inv t0"
  shows "\<exists>h' root' t'. jsw_rberase h root (Some node) = Some (Inr (h', root', 1)) \<and>
      repr h' root' t' \<and> distinct_nodes t' \<and> rb_inv t' \<and>
      set (addrs t') \<subseteq> set (addrs t0) \<and>
      (\<not> erase_hit t0 h node \<longrightarrow>
         keys_of t' = keys_of t0 \<and> set (addrs t') = set (addrs t0) \<and>
         addrs t' = addrs t0 \<and>
         (\<forall>x. x \<notin> set (addrs t0) \<longrightarrow> h' x = h x) \<and>
         (\<forall>x. key (h' x) = key (h x)))"
proof (cases root)
  case None
  then have "t0 = Leaf" using R by (cases t0) auto
  then show ?thesis using None by (simp add: jsw_rberase_def rb_inv_def root_black_def uniform_black_balanced)
next
  case (Some r)
  have N: "no_red_red t0" and B: "balanced t0" and K: "\<not> is_red_tree t0"
    using I by (simp_all add: rb_inv_def root_black_def uniform_black_balanced)
  define h1 where "h1 = h(Head := set_link head_init True (Some r))"
  from erase_start[OF R[unfolded Some] D N B K, of node] obtain h2 f q dir fs cq kq y where
    el: "erase_loop h1 node None None None Head True = Some (Inr (h2, f, Some (parent_ref fs), q))"
    and inv: "erase_inv t0 h h2 node f (Some (parent_ref fs)) q dir fs (mk dir Leaf q cq kq y)"
    unfolding h1_def by blast
  from erase_finish[OF inv] obtain h3 t' where
    eu: "erase_unlink h2 f (Some (parent_ref fs)) q = Inr h3"
    and r3: "repr h3 (link1 (h3 Head)) t'"
    and d3: "distinct_nodes t'" and n3: "no_red_red t'" and b3: "balanced t'"
    and a3: "set (addrs t') \<subseteq> set (addrs t0)"
    and f3: "f = None \<longrightarrow> keys_of t' = keys_of t0 \<and> set (addrs t') = set (addrs t0) \<and>
              addrs t' = addrs t0 \<and>
              (\<forall>x. x \<notin> set (addrs t0) \<longrightarrow> x \<noteq> Head \<longrightarrow> h3 x = h x)"
    by blast
  have fh: "f \<noteq> None \<longrightarrow> erase_hit t0 h node" by (rule erase_invD(13)[OF inv])
  have k2: "key (h2 x) = key (h1 x)" for x using erase_loop_key[OF el, of x] by blast
  have k1: "key (h1 x) = key (h x)" if "x \<noteq> Head" for x using that by (simp add: h1_def)
  have k3: "h3 = h2" if "f = None" using eu that by (simp add: erase_unlink_def)
  have Hn: "Head \<notin> set (addrs t')" using d3 by (simp add: distinct_nodes_def)
  have dt: "distinct (addrs t')" using d3 by (simp add: distinct_nodes_def)
  have hh: "(h(Head := head_init))(Head := set_link ((h(Head := head_init)) Head) True (Some r)) = h1"
    by (simp add: h1_def)
  have ev: "jsw_rberase h root (Some node) =
      (case link (h3 Head) True of
         None \<Rightarrow> Some (Inr (h3(Head := h Head), None, 1))
       | Some rr \<Rightarrow> Some (Inr ((h3(rr := (h3 rr)\<lparr>red := False\<rparr>))(Head := h Head), Some rr, 1)))"
    unfolding jsw_rberase_def Some
    by (simp only: Let_def hh el eu option.case sum.case prod.case if_True simp_thms option.distinct
        not_None_eq)
  show ?thesis
  proof (cases t')
    case Leaf
    have l: "link1 (h3 Head) = None" using r3 by (simp add: Leaf)
    have "jsw_rberase h root (Some node) = Some (Inr (h3(Head := h Head), None, 1))"
      using ev by (simp add: l)
    moreover have "\<forall>x. x \<notin> set (addrs t0) \<longrightarrow> (h3(Head := h Head)) x = h x" if "f = None"
      using f3 that by auto
    moreover have "\<forall>x. key ((h3(Head := h Head)) x) = key (h x)" if "f = None"
      using k3[OF that] k2 k1 by simp
    ultimately show ?thesis
      using f3 fh a3 unfolding Leaf
      by (auto simp: rb_inv_def root_black_def uniform_black_balanced)
  next
    case (Node l rr c k rt)
    have lk: "link1 (h3 Head) = Some rr" using r3 by (simp add: Node)
    define h4 where "h4 = (h3(rr := (h3 rr)\<lparr>red := False\<rparr>))(Head := h Head)"
    have e4: "jsw_rberase h root (Some node) = Some (Inr (h4, Some rr, 1))"
      using ev by (simp add: lk h4_def)
    have "repr h3 (Some rr) t'" using r3 lk by simp
    then have "repr (h3(rr := (h3 rr)\<lparr>red := False\<rparr>)) (Some rr) (paint False t')"
      using dt by (rule repr_paint)
    then have r4: "repr h4 (Some rr) (paint False t')"
      using Hn by (simp add: h4_def)
    have d4: "distinct_nodes (paint False t')" using d3 by (simp add: distinct_nodes_def)
    have i4: "rb_inv (paint False t')"
      using n3 b3 by (simp add: rb_inv_def root_black_def uniform_black_balanced no_red_red_paint_black)
    have rin: "rr \<in> set (addrs t0)" using a3 by (auto simp: Node)
    have fr4: "\<forall>x. x \<notin> set (addrs t0) \<longrightarrow> h4 x = h x" if "f = None"
      using f3 that rin by (auto simp: h4_def)
    have ky4: "\<forall>x. key (h4 x) = key (h x)" if "f = None"
      using k3[OF that] k2 k1 by (simp add: h4_def)
    show ?thesis
      apply (rule exI[of _ h4])
      apply (rule exI[of _ "Some rr"])
      apply (rule exI[of _ "paint False t'"])
      using e4 r4 d4 i4 a3 f3 fh fr4 ky4 by auto
  qed
qed

section \<open>Facts about the example stores\<close>

lemma ex_tree_repr: "repr ex_store (Some (Ptr 1)) ex_tree"
  by (simp add: ex_store_def ex_tree_def)

lemma ex_tree_distinct: "distinct_nodes ex_tree"
  by (simp add: ex_tree_def)

lemma ex_tree_rb: "rb_inv ex_tree"
  by (simp add: ex_tree_def rb_inv_def root_black_def uniform_black_def)

lemma ex_trav_first: "jsw_rbtfirst ex_store jsw_rbtnew (Some (Ptr 1)) = Some (Inr ex_trav)"
  by code_simp

lemma ex_trav_seeded: "seeded ex_store (Some (Ptr 1)) ex_trav"
  by (rule seeded_first[OF _ ex_trav_first]) (simp add: jsw_rbtnew_def)

lemma ex_empty_seeded: "seeded ex_store None (jsw_rbtnew\<lparr>tree := None, it := None, top := 0\<rparr>)"
  by (rule seeded_first[where ?trav0.0 = jsw_rbtnew])
     (simp_all add: jsw_rbtnew_def jsw_rbtfirst_def start_def)

lemma ex_find_dup: "jsw_rbfind ex_store (Some (Ptr 1)) (Some (Ptr 4)) = Some (Inr (Some (Ptr 2)))"
  by code_simp


lemma ex_fresh: "Ptr 4 \<notin> set (addrs ex_tree)" "Ptr 5 \<notin> set (addrs ex_tree)"
  by (simp_all add: ex_tree_def)

section \<open>The steps of insertion on a store\<close>

lemma frame_addr_simp [simp]: "frame_addr (d, a, c, k, y) = a"
  by (simp add: frame_addr_def)

lemma plug_frames_repr:
  assumes "repr h rt (plug fs s)" "repr h' (rootptr s) s'"
    "\<And>x. x \<in> set (addrs (plug fs Leaf)) \<Longrightarrow> h' x = h x"
  shows "repr h' rt (plug fs s')"
  using assms
proof (induction fs arbitrary: s s')
  case Nil
  then show ?case using repr_rootptr[of h rt s] by simp
next
  case (Cons f fs)
  obtain d a c k y where f: "f = (d, a, c, k, y)" by (cases f)
  have R: "repr h rt (plug fs (mk d s a c k y))" using Cons.prems(1) by (simp add: f)
  have foc: "repr h (Some a) (mk d s a c k y)"
    using repr_plug_focus[OF R] by simp
  have sub: "set (addrs (mk d Leaf a c k y)) \<subseteq> set (addrs (plug (f # fs) Leaf))"
    using addrs_sub_plug[of "mk d Leaf a c k y" fs] by (simp add: f)
  have a: "h' a = h a" using sub by (intro Cons.prems(3)) auto
  have y: "repr h' (rootptr y) y = repr h (rootptr y) y"
    using sub by (intro repr_cong Cons.prems(3)) auto
  have n: "repr h' (Some a) (mk d s' a c k y)"
    using repr_mk_dest[OF foc] Cons.prems(2) a y by simp
  have "repr h' rt (plug fs (mk d s' a c k y))"
  proof (rule Cons.IH[OF R])
    show "repr h' (rootptr (mk d s a c k y)) (mk d s' a c k y)" using n by simp
    fix x assume "x \<in> set (addrs (plug fs Leaf))"
    then have "x \<in> set (addrs (plug (f # fs) Leaf))"
      using addrs_plug[of fs "mk d Leaf a c k y"] by (simp add: f)
    then show "h' x = h x" by (rule Cons.prems(3))
  qed
  then show ?case by (simp add: f)
qed

lemma head_plug_repr:
  assumes "repr h (Some Head) (head_tree (plug fs s))" "repr h' (rootptr s) s'"
    "\<And>x. x \<in> set (addrs (plug fs Leaf)) \<Longrightarrow> h' x = h x" "h' Head = h Head"
  shows "repr h' (Some Head) (head_tree (plug fs s'))"
proof -
  have "repr h' (Some Head) (plug (fs @ [head_frame]) s')"
  proof (rule plug_frames_repr)
    show "repr h (Some Head) (plug (fs @ [head_frame]) s)"
      using assms(1) by (simp add: head_tree_plug)
    show "repr h' (rootptr s) s'" by (rule assms(2))
    fix x assume "x \<in> set (addrs (plug (fs @ [head_frame]) Leaf))"
    then have "x = Head \<or> x \<in> set (addrs (plug fs Leaf))"
      by (simp add: head_tree_plug[symmetric])
    then show "h' x = h x" using assms(3,4) by auto
  qed
  then show ?thesis by (simp add: head_tree_plug)
qed

lemma ins_attach_leaf:
  assumes "repr h (Some p) (mk d Leaf p cp kp C)" "distinct (addrs (mk d Leaf p cp kp C))"
    "node \<noteq> p" "node \<notin> set (addrs C)"
  shows "\<exists>h'. ins_attach h (Some node) (Some p) None d = Inr (h', Some node) \<and>
     repr h' (Some p) (mk d (Node Leaf node True (key (h node)) Leaf) p cp kp C) \<and>
     (\<forall>x. x \<noteq> p \<longrightarrow> x \<noteq> node \<longrightarrow> h' x = h x) \<and> key (h' node) = key (h node)"
proof -
  note A = repr_mk_dest[OF assms(1)]
  define h1 where "h1 = h(node := (h node)\<lparr>red := True, link0 := None, link1 := None\<rparr>)"
  define h2 where "h2 = h1(p := set_link (h1 p) d (Some node))"
  have e: "ins_attach h (Some node) (Some p) None d = Inr (h2, Some node)"
    by (simp add: ins_attach_def new_node_def h1_def h2_def)
  have pC: "p \<notin> set (addrs C)" using assms(2) by simp
  have C: "repr h2 (rootptr C) C"
  proof -
    have "repr h2 (rootptr C) C = repr h (rootptr C) C"
      using pC assms(4) by (intro repr_cong) (auto simp: h2_def h1_def)
    then show ?thesis using A(7) by simp
  qed
  have n: "repr h2 (Some node) (Node Leaf node True (key (h node)) Leaf)"
    using assms(3) by (simp add: h2_def h1_def)
  have "repr h2 (Some p) (mk d (Node Leaf node True (key (h node)) Leaf) p cp kp C)"
    using A(2,3,5) n C assms(3) by (simp add: h2_def h1_def)
  moreover have "\<forall>x. x \<noteq> p \<longrightarrow> x \<noteq> node \<longrightarrow> h2 x = h x" by (simp add: h2_def h1_def)
  moreover have "key (h2 node) = key (h node)" using assms(3) by (simp add: h2_def h1_def)
  ultimately show ?thesis using e by blast
qed

lemma ins_attach_flip:
  assumes "repr h (Some q) (Node l q c k r)" "distinct (addrs (Node l q c k r))"
    "is_red_tree l" "is_red_tree r"
  shows "\<exists>h'. ins_attach h node p (Some q) d = Inr (h', Some q) \<and>
     repr h' (Some q) (Node (paint False l) q True k (paint False r)) \<and>
     (\<forall>x. x \<notin> set (addrs (Node l q c k r)) \<longrightarrow> h' x = h x)"
proof -
  from assms(3) obtain ll a ka lr where l: "l = Node ll a True ka lr" by (cases l) auto
  from assms(4) obtain rl b kb rr where r: "r = Node rl b True kb rr" by (cases r) auto
  define h1 where "h1 = h(q := (h q)\<lparr>red := True\<rparr>)"
  define h2 where "h2 = h1(a := (h1 a)\<lparr>red := False\<rparr>)"
  define h3 where "h3 = h2(b := (h2 b)\<lparr>red := False\<rparr>)"
  have R: "repr h (Some q) (Node (Node ll a True ka lr) q c k (Node rl b True kb rr))"
    using assms(1) by (simp add: l r)
  have D: "distinct (addrs (Node (Node ll a True ka lr) q c k (Node rl b True kb rr)))"
    using assms(2) by (simp add: l r)
  have ne: "a \<noteq> q" "b \<noteq> q" "a \<noteq> b" using D by auto
  have e: "ins_attach h node p (Some q) d = Inr (h3, Some q)"
    using R ne by (simp add: ins_attach_def h1_def h2_def h3_def Let_def)
  have sub: "repr h3 x t = repr h x t" if "q \<notin> set (addrs t)" "a \<notin> set (addrs t)" "b \<notin> set (addrs t)" for x t
    using that by (intro repr_cong) (auto simp: h3_def h2_def h1_def)
  have "repr h3 (Some q) (Node (Node ll a False ka lr) q True k (Node rl b False kb rr))"
    using R D ne by (simp add: sub) (simp add: h3_def h2_def h1_def)
  then have "repr h3 (Some q) (Node (paint False l) q True k (paint False r))"
    by (simp add: l r)
  moreover have "\<forall>x. x \<notin> set (addrs (Node l q c k r)) \<longrightarrow> h3 x = h x"
    by (simp add: l r h3_def h2_def h1_def)
  ultimately show ?thesis using e by blast
qed

lemma ins_attach_none:
  assumes "repr h (Some q) (Node l q c k r)" "\<not> (is_red_tree l \<and> is_red_tree r)"
  shows "ins_attach h node p (Some q) d = Inr (h, Some q)"
proof -
  have "is_red h (link0 (h q)) = is_red_tree l" "is_red h (link1 (h q)) = is_red_tree r"
    using assms(1) repr_is_red by auto
  then show ?thesis using assms(2) by (auto simp: ins_attach_def)
qed

lemma ins_rotate_none: "\<not> (is_red h q \<and> is_red h p) \<Longrightarrow> ins_rotate h t g p q l = Inr h"
  by (auto simp: ins_rotate_def)

lemma ins_rotate_single_mk:
  assumes "repr h (Some t) (mk dT (mk l (mk l S p True kp C) g cg kg U) t cT kT YT)"
    "distinct (addrs (mk dT (mk l (mk l S p True kp C) g cg kg U) t cT kT YT))"
    "rootptr S = Some q" "is_red_tree S"
  shows "\<exists>h'. ins_rotate h (Some t) (Some g) (Some p) (Some q) l = Inr h' \<and>
      repr h' (Some t) (mk dT (mk l S p False kp (mk l C g True kg U)) t cT kT YT) \<and>
      (\<forall>x. x \<noteq> t \<longrightarrow> x \<noteq> g \<longrightarrow> x \<noteq> p \<longrightarrow> h' x = h x)"
proof -
  note A = repr_mk_dest[OF assms(1)]
  have Gr: "repr h (Some g) (mk (\<not> l) U g cg kg (mk (\<not> l) C p True kp S))"
    using A(6) by (simp add: mk_flip)
  have Gd: "distinct (addrs (mk (\<not> l) U g cg kg (mk (\<not> l) C p True kp S)))"
    using assms(2) by (simp add: mk_flip; blast)
  have Gr0: "repr h (Some g) (mk l (mk l S p True kp C) g cg kg U)" using A(6) by simp
  have Pr: "repr h (Some p) (mk l S p True kp C)"
    using repr_mk_dest(6)[OF Gr0] by simp
  note P = repr_mk_dest[OF Pr]
  have Sr: "repr h (Some q) S" using P(6) assms(3) by simp
  have redq: "red (h q) = True" using repr_is_red[OF Sr] assms(4) by simp
  have lp: "link (h p) l = Some q" using P(4) assms(3) by simp
  from jsw_single_mk[OF Gr Gd] obtain h1 where
    h1: "jsw_single h (Some g) (\<not> l) = Inr (h1, Some p)"
    and r1: "repr h1 (Some p) (mk (\<not> l) (mk (\<not> l) U g True kg C) p False kp S)"
    and f1: "\<forall>x. x \<noteq> g \<longrightarrow> x \<noteq> p \<longrightarrow> h1 x = h x"
    by auto
  have gY: "g \<notin> set (addrs YT)" using assms(2) by auto
  have cd: "(link (h t) True = Some g) = dT"
    using assms(1) _ gY by (rule child_dir) simp
  define h2 where "h2 = h1(t := set_link (h1 t) dT (Some p))"
  have ne: "t \<noteq> g" "t \<noteq> p" "t \<notin> set (addrs S)" "t \<notin> set (addrs C)" "t \<notin> set (addrs U)"
    using assms(2) by auto
  have Y: "repr h2 (rootptr YT) YT"
  proof -
    have "repr h2 (rootptr YT) YT = repr h (rootptr YT) YT"
      using assms(2) f1 by (intro repr_cong) (auto simp: h2_def)
    then show ?thesis using A(7) by simp
  qed
  have "ins_rotate h (Some t) (Some g) (Some p) (Some q) l = Inr h2"
    using redq P(2) lp cd h1 by (simp add: ins_rotate_def h2_def)
  moreover have "repr h2 (Some t) (mk dT (mk l S p False kp (mk l C g True kg U)) t cT kT YT)"
    using A(2,3,5) r1 Y f1 ne by (simp add: h2_def mk_flip)
  moreover have "\<forall>x. x \<noteq> t \<longrightarrow> x \<noteq> g \<longrightarrow> x \<noteq> p \<longrightarrow> h2 x = h x"
    using f1 by (simp add: h2_def)
  ultimately show ?thesis by blast
qed

lemma ins_rotate_double_mk:
  assumes "repr h (Some t) (mk dT (mk l (mk l C p True kp (mk l R1 q True kq R2)) g cg kg U) t cT kT YT)"
    "distinct (addrs (mk dT (mk l (mk l C p True kp (mk l R1 q True kq R2)) g cg kg U) t cT kT YT))"
  shows "\<exists>h'. ins_rotate h (Some t) (Some g) (Some p) (Some q) l = Inr h' \<and>
      repr h' (Some t) (mk dT (mk l (mk l C p True kp R1) q False kq (mk l R2 g True kg U)) t cT kT YT) \<and>
      (\<forall>x. x \<noteq> t \<longrightarrow> x \<noteq> g \<longrightarrow> x \<noteq> p \<longrightarrow> x \<noteq> q \<longrightarrow> h' x = h x)"
proof -
  note A = repr_mk_dest[OF assms(1)]
  have Gr: "repr h (Some g) (mk (\<not> l) U g cg kg (mk (\<not> l) (mk (\<not> l) R2 q True kq R1) p True kp C))"
    using A(6) by (simp add: mk_flip)
  have Gd: "distinct (addrs (mk (\<not> l) U g cg kg (mk (\<not> l) (mk (\<not> l) R2 q True kq R1) p True kp C)))"
    using assms(2) by (simp add: mk_flip; blast)
  have Gr0: "repr h (Some g) (mk l (mk l C p True kp (mk l R1 q True kq R2)) g cg kg U)"
    using A(6) by simp
  have Pr: "repr h (Some p) (mk l C p True kp (mk l R1 q True kq R2))"
    using repr_mk_dest(6)[OF Gr0] by simp
  note P = repr_mk_dest[OF Pr]
  have Sr: "repr h (Some q) (mk l R1 q True kq R2)" using P(7) by simp
  have redq: "red (h q) = True" using repr_mk_dest(2)[OF Sr] by simp
  have qC: "q \<notin> set (addrs C)" using assms(2) by auto
  have lp: "link (h p) l \<noteq> Some q"
    using P(4) P(6) qC repr_Some[of h q C] by auto
  from jsw_double_mk[OF Gr Gd] obtain h1 where
    h1: "jsw_double h (Some g) (\<not> l) = Inr (h1, Some q)"
    and r1: "repr h1 (Some q) (mk (\<not> l) (mk (\<not> l) U g True kg R2) q False kq (mk (\<not> l) R1 p True kp C))"
    and f1: "\<forall>x. x \<noteq> g \<longrightarrow> x \<noteq> p \<longrightarrow> x \<noteq> q \<longrightarrow> h1 x = h x"
    by auto
  have gY: "g \<notin> set (addrs YT)" using assms(2) by auto
  have cd: "(link (h t) True = Some g) = dT"
    using assms(1) _ gY by (rule child_dir) simp
  define h2 where "h2 = h1(t := set_link (h1 t) dT (Some q))"
  have ne: "t \<noteq> g" "t \<noteq> p" "t \<noteq> q" "t \<notin> set (addrs R1)" "t \<notin> set (addrs R2)"
    "t \<notin> set (addrs C)" "t \<notin> set (addrs U)"
    using assms(2) by auto
  have Y: "repr h2 (rootptr YT) YT"
  proof -
    have "repr h2 (rootptr YT) YT = repr h (rootptr YT) YT"
      using assms(2) f1 by (intro repr_cong) (auto simp: h2_def)
    then show ?thesis using A(7) by simp
  qed
  have "ins_rotate h (Some t) (Some g) (Some p) (Some q) l = Inr h2"
    using redq P(2) lp cd h1 by (simp add: ins_rotate_def h2_def)
  moreover have "repr h2 (Some t) (mk dT (mk l (mk l C p True kp R1) q False kq (mk l R2 g True kg U)) t cT kT YT)"
    using A(2,3,5) r1 Y f1 ne by (simp add: h2_def mk_flip)
  moreover have "\<forall>x. x \<noteq> t \<longrightarrow> x \<noteq> g \<longrightarrow> x \<noteq> p \<longrightarrow> x \<noteq> q \<longrightarrow> h2 x = h x"
    using f1 by (simp add: h2_def)
  ultimately show ?thesis by blast
qed

section \<open>The invariant of the insertion loop\<close>

lemma on_path_Cons [simp]:
  "on_path kn ((d, a, c, k, y) # fs) \<longleftrightarrow> kn - k \<noteq> 0 \<and> d = (kn - k <s 0) \<and> on_path kn fs"
  by (simp add: on_path_def)

lemma on_path_Nil [simp]: "on_path kn []"
  by (simp add: on_path_def)

lemma anc_simps [simp]:
  "anc [] i = None" "anc (f # fs) 0 = Some (frame_addr f)" "anc (f # fs) (Suc i) = anc fs i"
  by (simp_all add: anc_def)

lemma parent_ref_Nil [simp]: "parent_ref [] = Head"
  by (simp add: parent_ref_def)

lemma hits_paint [simp]: "hits kn (paint c t) = hits kn t"
  by (cases t) auto

lemma next_sub_mk [simp]:
  "next_sub kn (mk d x a c k y) = (if (kn - k <s 0) = d then x else y)"
  by (auto simp: mk_def)

lemma down_frame_mk [simp]:
  "down_frame kn (mk d x a c k y) = (kn - k <s 0, a, c, k, if (kn - k <s 0) = d then y else x)"
  by (auto simp: mk_def)

lemma hits_mk [simp]:
  "hits kn (mk d x a c k y) = (kn - k = 0 \<or> hits kn (if (kn - k <s 0) = d then x else y))"
  by (auto simp: mk_def)

lemma differs_mk [simp]: "differs kn (mk d x a c k y) = (kn - k \<noteq> 0)"
  by (simp add: mk_def)

lemma black_kids_mk [simp]:
  "black_kids (mk d x a c k y) = (\<not> is_red_tree x \<and> \<not> is_red_tree y)"
  by (auto simp: mk_def)

lemma red_kids_mk [simp]:
  "red_kids (mk d x a c k y) = (is_red_tree x \<and> is_red_tree y)"
  by (auto simp: mk_def)

lemma mk_not_Leaf [simp]: "mk d x a c k y \<noteq> Leaf"
  by (simp add: mk_def)

lemma size_next_sub: "s \<noteq> Leaf \<Longrightarrow> size_of (next_sub kn s) < size_of s"
  by (cases s) auto

lemma plug_not_Leaf: "s \<noteq> Leaf \<Longrightarrow> plug fs s \<noteq> Leaf"
proof (induction fs arbitrary: s)
  case Nil
  then show ?case by simp
next
  case (Cons f fs)
  obtain d a c k y where f: "f = (d, a, c, k, y)" by (cases f)
  have "plug fs (mk d s a c k y) \<noteq> Leaf" by (rule Cons.IH) simp
  then show ?case by (simp add: f)
qed

lemma plug_down: "s \<noteq> Leaf \<Longrightarrow> plug (down_frame kn s # fs) (next_sub kn s) = plug fs s"
proof (cases s)
  case Leaf
  assume "s \<noteq> Leaf"
  with Leaf show ?thesis by simp
next
  case (Node l a c k r)
  show ?thesis unfolding Node by (cases "kn - k <s 0") (simp_all add: mk_def)
qed

lemma plug_frames_disjoint:
  "distinct (addrs (plug fs s)) \<Longrightarrow> set (addrs s) \<inter> set (addrs (plug fs Leaf)) = {}"
proof (induction fs arbitrary: s)
  case Nil
  then show ?case by simp
next
  case (Cons f fs)
  obtain d a c k y where f: "f = (d, a, c, k, y)" by (cases f)
  have D: "distinct (addrs (plug fs (mk d s a c k y)))"
    using Cons.prems(1) by (simp add: f)
  have dis: "distinct (addrs (mk d s a c k y))"
    using distinct_plug_focus'[OF D] .
  have sub: "set (addrs (plug (f # fs) Leaf)) = set (addrs (plug fs Leaf)) \<union> insert a (set (addrs y))"
    using addrs_plug[of fs "mk d Leaf a c k y"] by (simp add: f)
  have "set (addrs (mk d s a c k y)) \<inter> set (addrs (plug fs Leaf)) = {}"
    using D by (rule Cons.IH)
  then have 1: "set (addrs s) \<inter> set (addrs (plug fs Leaf)) = {}" by auto
  have 2: "set (addrs s) \<inter> insert a (set (addrs y)) = {}" using dis by auto
  show ?case unfolding sub using 1 2 by blast
qed

lemma plug_grow_distinct:
  assumes "distinct (addrs (plug fs s))" "distinct (addrs s')"
    "\<And>x. x \<in> set (addrs s') \<Longrightarrow> x \<notin> set (addrs (plug fs Leaf))"
  shows "distinct (addrs (plug fs s'))"
  using assms
proof (induction fs arbitrary: s s')
  case Nil
  then show ?case by simp
next
  case (Cons f fs)
  obtain d a c k y where f: "f = (d, a, c, k, y)" by (cases f)
  have D: "distinct (addrs (plug fs (mk d s a c k y)))"
    using Cons.prems(1) by (simp add: f)
  have dis: "distinct (addrs (mk d s a c k y))"
    using distinct_plug_focus'[OF D] .
  have sub: "set (addrs (plug (f # fs) Leaf)) = set (addrs (plug fs Leaf)) \<union> insert a (set (addrs y))"
    using addrs_plug[of fs "mk d Leaf a c k y"] by (simp add: f)
  have n: "x \<notin> set (addrs (plug fs Leaf))" "x \<noteq> a" "x \<notin> set (addrs y)"
    if "x \<in> set (addrs s')" for x
    using Cons.prems(3)[OF that] unfolding sub by simp_all
  have na: "a \<notin> set (addrs s')" using n(2) by blast
  have ny: "set (addrs s') \<inter> set (addrs y) = {}" using n(3) by (simp add: disjoint_iff)
  have d': "distinct (addrs (mk d s' a c k y))"
    using dis Cons.prems(2) na ny by simp
  have fr: "set (addrs (mk d s a c k y)) \<inter> set (addrs (plug fs Leaf)) = {}"
    using D by (rule plug_frames_disjoint)
  have m: "x \<notin> set (addrs (plug fs Leaf))" if "x \<in> set (addrs (mk d s' a c k y))" for x
  proof -
    from that consider "x = a" | "x \<in> set (addrs s')" | "x \<in> set (addrs y)" by auto
    then show ?thesis
    proof cases
      case 1
      then show ?thesis using fr by simp
    next
      case 2
      then show ?thesis by (rule n(1))
    next
      case 3
      then show ?thesis using fr by (simp add: disjoint_iff)
    qed
  qed
  have "distinct (addrs (plug fs (mk d s' a c k y)))"
    using D d' m by (rule Cons.IH)
  then show ?case by (simp add: f)
qed

lemma ins_baseD:
  assumes "ins_base t0 h0 h node fs s"
  shows "repr h (Some Head) (head_tree (plug fs s))"
    "distinct_nodes (plug fs s)"
    "set (addrs (plug fs s)) = set (addrs t0)"
    "keys_of (plug fs s) = keys_of t0"
    "\<forall>x. x \<notin> set (addrs t0) \<longrightarrow> x \<noteq> Head \<longrightarrow> h x = h0 x"
    "node \<notin> set (addrs t0)" "node \<noteq> Head"
    "no_red_red (plug fs s)" "balanced (plug fs s)"
    "on_path (key (h0 node)) fs"
    "addrs (plug fs s) = addrs t0"
proof -
  note A = assms[unfolded ins_base_def]
  show "repr h (Some Head) (head_tree (plug fs s))" using A by (elim conjE)
  show "distinct_nodes (plug fs s)" using A by (elim conjE)
  show "set (addrs (plug fs s)) = set (addrs t0)" using A by (elim conjE)
  show "keys_of (plug fs s) = keys_of t0" using A by (elim conjE)
  show "\<forall>x. x \<notin> set (addrs t0) \<longrightarrow> x \<noteq> Head \<longrightarrow> h x = h0 x" using A by (elim conjE)
  show "node \<notin> set (addrs t0)" using A by (elim conjE)
  show "node \<noteq> Head" using A by (elim conjE)
  show "no_red_red (plug fs s)" using A by (elim conjE)
  show "balanced (plug fs s)" using A by (elim conjE)
  show "on_path (key (h0 node)) fs" using A by (elim conjE)
  show "addrs (plug fs s) = addrs t0" using A by (elim conjE)
qed

lemma ins_baseI:
  assumes "repr h (Some Head) (head_tree (plug fs s))"
    "distinct_nodes (plug fs s)"
    "set (addrs (plug fs s)) = set (addrs t0)"
    "keys_of (plug fs s) = keys_of t0"
    "\<forall>x. x \<notin> set (addrs t0) \<longrightarrow> x \<noteq> Head \<longrightarrow> h x = h0 x"
    "node \<notin> set (addrs t0)" "node \<noteq> Head"
    "no_red_red (plug fs s)" "balanced (plug fs s)"
    "on_path (key (h0 node)) fs"
    "addrs (plug fs s) = addrs t0"
  shows "ins_base t0 h0 h node fs s"
  unfolding ins_base_def using assms by (intro conjI)

lemma nrr_parent:
  assumes "no_red_red (plug ((d, a, c, k, y) # fs) s)" "c"
  shows "\<not> is_red_tree s" "\<not> is_red_tree y"
proof -
  have "no_red_red (mk d s a c k y)" using plug_focus_nrr[of fs "mk d s a c k y"] assms(1) by simp
  then show "\<not> is_red_tree s" "\<not> is_red_tree y" using assms(2) by simp_all
qed

lemma plug_replace_inv2:
  assumes "no_red_red (plug fs s)" "balanced (plug fs s)"
    "no_red_red s'" "balanced s'" "bheight s' = bheight s"
    "is_red_tree s' \<longrightarrow> is_red_tree s \<or> fs = [] \<or> \<not> frame_red (hd fs)"
  shows "no_red_red (plug fs s') \<and> balanced (plug fs s')"
proof (cases "is_red_tree s' \<longrightarrow> is_red_tree s")
  case True
  show ?thesis using assms(1-5) True by (rule plug_replace_inv)
next
  case False
  show ?thesis
  proof (cases fs)
    case Nil
    then show ?thesis using assms(3,4) by simp
  next
    case (Cons f rest)
    obtain d a c k y where f: "f = (d, a, c, k, y)" by (cases f)
    have c: "\<not> c" using assms(6) False by (simp add: Cons f)
    have N: "no_red_red (plug rest (mk d s a c k y))" and B: "balanced (plug rest (mk d s a c k y))"
      using assms(1,2) by (simp_all add: Cons f)
    have n: "no_red_red (mk d s a c k y)" using N by (rule plug_focus_nrr)
    have b: "balanced (mk d s a c k y)" using B by (rule plug_focus_bal)
    have "no_red_red (plug rest (mk d s' a c k y)) \<and> balanced (plug rest (mk d s' a c k y))"
    proof (rule plug_replace_inv[OF N B])
      show "no_red_red (mk d s' a c k y)" using n c assms(3) by simp
      show "balanced (mk d s' a c k y)" using b assms(4,5) by simp
      show "bheight (mk d s' a c k y) = bheight (mk d s a c k y)" using assms(5) by simp
      show "is_red_tree (mk d s' a c k y) \<longrightarrow> is_red_tree (mk d s a c k y)" by simp
    qed
    then show ?thesis by (simp add: Cons f)
  qed
qed

lemma keys_plug_split: "\<exists>ks1 ks2. \<forall>s. keys_of (plug fs s) = ks1 @ keys_of s @ ks2"
proof (induction fs)
  case Nil
  have "\<forall>s. keys_of (plug [] s) = [] @ keys_of s @ []" by simp
  then show ?case by blast
next
  case (Cons f fs)
  obtain d a c k y where f: "f = (d, a, c, k, y)" by (cases f)
  from Cons obtain ks1 ks2 where IH: "\<And>s. keys_of (plug fs s) = ks1 @ keys_of s @ ks2" by blast
  show ?case
  proof (cases d)
    case True
    have "\<forall>s. keys_of (plug (f # fs) s) = (ks1 @ keys_of y @ [k]) @ keys_of s @ ks2"
      by (simp add: f IH keys_of_mk True)
    then show ?thesis by blast
  next
    case False
    have "\<forall>s. keys_of (plug (f # fs) s) = ks1 @ keys_of s @ (k # keys_of y @ ks2)"
      by (simp add: f IH keys_of_mk False)
    then show ?thesis by blast
  qed
qed

lemma ins_base_replace:
  assumes old: "ins_base t0 h0 h node fs s"
    and heap: "repr h' (Some Head) (head_tree (plug fs s'))"
      "\<forall>x. x \<notin> set (addrs (plug fs s)) \<longrightarrow> x \<noteq> Head \<longrightarrow> h' x = h x"
    and loc: "set (addrs s') = set (addrs s)" "distinct (addrs s')" "keys_of s' = keys_of s"
      "addrs s' = addrs s"
    and col: "no_red_red s'" "balanced s'" "bheight s' = bheight s"
      "is_red_tree s' \<longrightarrow> is_red_tree s \<or> fs = [] \<or> \<not> frame_red (hd fs)"
    and new: "plug fs s' = plug fs2 s2" "on_path (key (h0 node)) fs2"
  shows "ins_base t0 h0 h' node fs2 s2"
proof -
  note O = ins_baseD[OF old]
  have dn: "distinct_nodes (plug fs s')"
  proof -
    have d: "distinct (addrs (plug fs s))" using O(2) by (simp add: distinct_nodes_def)
    have sub: "set (addrs s') \<subseteq> set (addrs s)" using loc(1) by simp
    have "distinct (addrs (plug fs s'))"
      using d loc(2) sub by (rule plug_replace_distinct)
    moreover have "set (addrs (plug fs s')) = set (addrs (plug fs s))"
      using loc(1) by (rule plug_replace_addrs)
    ultimately show ?thesis using O(2) by (simp add: distinct_nodes_def)
  qed
  have ad: "set (addrs (plug fs s')) = set (addrs t0)"
    using plug_replace_addrs[OF loc(1), of fs] O(3) by simp
  have ks: "keys_of (plug fs s') = keys_of t0"
    using plug_replace_keys[OF loc(3), of fs] O(4) by simp
  have al: "addrs (plug fs s') = addrs t0"
    using plug_replace_addrs_list[OF loc(4), of fs] O(11) by simp
  have inv: "no_red_red (plug fs s') \<and> balanced (plug fs s')"
    using O(8,9) col by (rule plug_replace_inv2)
  have fr: "\<forall>x. x \<notin> set (addrs t0) \<longrightarrow> x \<noteq> Head \<longrightarrow> h' x = h0 x"
    using heap(2) O(3,5) by simp
  show ?thesis
  proof (rule ins_baseI)
    show "repr h' (Some Head) (head_tree (plug fs2 s2))" using heap(1) by (simp add: new(1))
    show "distinct_nodes (plug fs2 s2)" using dn by (simp add: new(1))
    show "set (addrs (plug fs2 s2)) = set (addrs t0)" using ad by (simp add: new(1))
    show "keys_of (plug fs2 s2) = keys_of t0" using ks by (simp add: new(1))
    show "\<forall>x. x \<notin> set (addrs t0) \<longrightarrow> x \<noteq> Head \<longrightarrow> h' x = h0 x" by (rule fr)
    show "node \<notin> set (addrs t0)" by (rule O(6))
    show "node \<noteq> Head" by (rule O(7))
    show "no_red_red (plug fs2 s2)" using inv by (simp add: new(1))
    show "balanced (plug fs2 s2)" using inv by (simp add: new(1))
    show "on_path (key (h0 node)) fs2" by (rule new(2))
    show "addrs (plug fs2 s2) = addrs t0" using al by (simp add: new(1))
  qed
qed

lemma ins_break:
  assumes "ins_base t0 h0 h node fs s" "s \<noteq> Leaf" "hits (key (h0 node)) t0"
  shows "ins_post t0 h0 h node (plug fs s)"
proof -
  note B = ins_baseD[OF assms(1)]
  have nl: "plug fs s \<noteq> Leaf" using assms(2) by (rule plug_not_Leaf)
  show ?thesis
    unfolding ins_post_def using B(1,2,8,9,3,4,5,11) nl assms(3) by simp
qed

lemma ins_base_down:
  assumes "ins_base t0 h0 h node fs s" "s \<noteq> Leaf" "differs (key (h0 node)) s"
  shows "ins_base t0 h0 h node (down_frame (key (h0 node)) s # fs) (next_sub (key (h0 node)) s)"
proof -
  note B = ins_baseD[OF assms(1)]
  note pd = plug_down[OF assms(2), of "key (h0 node)" fs]
  from assms(2) obtain l a c k r where s: "s = Node l a c k r" by (cases s) auto
  have op: "on_path (key (h0 node)) (down_frame (key (h0 node)) s # fs)"
    using B(10) assms(3) by (simp add: s)
  show ?thesis
  proof (rule ins_baseI)
    show "repr h (Some Head) (head_tree (plug (down_frame (key (h0 node)) s # fs) (next_sub (key (h0 node)) s)))"
      using B(1) by (simp only: pd)
    show "distinct_nodes (plug (down_frame (key (h0 node)) s # fs) (next_sub (key (h0 node)) s))"
      using B(2) by (simp only: pd)
    show "set (addrs (plug (down_frame (key (h0 node)) s # fs) (next_sub (key (h0 node)) s))) = set (addrs t0)"
      using B(3) by (simp only: pd)
    show "keys_of (plug (down_frame (key (h0 node)) s # fs) (next_sub (key (h0 node)) s)) = keys_of t0"
      using B(4) by (simp only: pd)
    show "addrs (plug (down_frame (key (h0 node)) s # fs) (next_sub (key (h0 node)) s)) = addrs t0"
      using B(11) by (simp only: pd)
    show "\<forall>x. x \<notin> set (addrs t0) \<longrightarrow> x \<noteq> Head \<longrightarrow> h x = h0 x" by (rule B(5))
    show "node \<notin> set (addrs t0)" by (rule B(6))
    show "node \<noteq> Head" by (rule B(7))
    show "no_red_red (plug (down_frame (key (h0 node)) s # fs) (next_sub (key (h0 node)) s))"
      using B(8) by (simp only: pd)
    show "balanced (plug (down_frame (key (h0 node)) s # fs) (next_sub (key (h0 node)) s))"
      using B(9) by (simp only: pd)
    show "on_path (key (h0 node)) (down_frame (key (h0 node)) s # fs)" by (rule op)
  qed
qed

lemma insert_loop_step:
  assumes "ins_attach h (Some node) p q dir = Inr (h1, Some qr)"
    "ins_rotate h1 t g p (Some qr) lastd = Inr h2"
  shows "insert_loop h node t g p q dir lastd =
     (if node_cmp (h2 qr) (h2 node) = 0 then Some (Inr (h2, None))
      else insert_loop h2 node (if g \<noteq> None then g else t) p (Some qr)
             (link (h2 qr) (node_cmp (h2 qr) (h2 node) <s 0))
             (node_cmp (h2 qr) (h2 node) <s 0) dir)"
  by (subst insert_loop.simps) (simp add: assms Let_def)

lemma ins_continue:
  assumes att: "ins_attach h (Some node) p q dir = Inr (h1, Some qr)"
    and rot: "ins_rotate h1 t g p (Some qr) lastd = Inr h2"
    and base: "ins_base t0 h0 h2 node fs2 s2"
    and root: "rootptr s2 = Some qr"
    and hit: "hits (key (h0 node)) s2 = hits (key (h0 node)) t0"
    and ph: "differs (key (h0 node)) s2 \<Longrightarrow>
       ins_phase ph' (key (h0 node)) (hits (key (h0 node)) t0) (if g \<noteq> None then g else t) p dir
         (down_frame (key (h0 node)) s2 # fs2) (next_sub (key (h0 node)) s2) \<and>
       ins_measure ph' (key (h0 node)) (next_sub (key (h0 node)) s2) < ins_measure ph (key (h0 node)) s"
  shows "ins_next ph t0 h0 node (insert_loop h node t g p q dir lastd) s"
proof -
  let ?kn = "key (h0 node)"
  note B = ins_baseD[OF base]
  from root obtain l c k r where s2: "s2 = Node l qr c k r" by (cases s2) auto
  have nl: "s2 \<noteq> Leaf" by (simp add: s2)
  note F = node_focus[OF B(1,2)]
  have rq: "repr h2 (Some qr) (Node l qr c k r)" using F(1) by (simp add: s2)
  have hn: "h2 node = h0 node" using B(5,6,7) by blast
  have cmp: "node_cmp (h2 qr) (h2 node) = ?kn - k"
    using rq by (simp add: node_cmp_def hn)
  have lnk: "link (h2 qr) (?kn - k <s 0) = rootptr (next_sub ?kn s2)"
    using rq repr_rootptr[of h2 "link0 (h2 qr)" l] repr_rootptr[of h2 "link1 (h2 qr)" r]
    by (auto simp: s2)
  note step = insert_loop_step[OF att rot, unfolded cmp lnk]
  show ?thesis
  proof (cases "?kn - k = 0")
    case True
    have e: "insert_loop h node t g p q dir lastd = Some (Inr (h2, None))"
      using step True by simp
    have "hits ?kn t0" using hit True by (simp add: s2)
    then have "ins_post t0 h0 h2 node (plug fs2 s2)"
      using base nl by (intro ins_break)
    then show ?thesis unfolding ins_next_def ins_goal_def using e by blast
  next
    case False
    let ?fs' = "down_frame ?kn s2 # fs2"
    let ?s' = "next_sub ?kn s2"
    have df: "differs ?kn s2" using False by (simp add: s2)
    have e: "insert_loop h node t g p q dir lastd =
        insert_loop h2 node (if g \<noteq> None then g else t) p (Some qr) (rootptr ?s') (?kn - k <s 0) dir"
      using step False by simp
    have base': "ins_base t0 h0 h2 node ?fs' ?s'" using base nl df by (rule ins_base_down)
    have inv': "ins_inv ph' t0 h0 h2 node (if g \<noteq> None then g else t) p (Some qr) (rootptr ?s')
        (?kn - k <s 0) dir ?fs' ?s'"
      unfolding ins_inv_def using base' ph[OF df] by (simp add: s2)
    show ?thesis unfolding ins_next_def using e inv' ph[OF df] by blast
  qed
qed

section \<open>One pass through the body of the insertion loop\<close>

lemma ins_invD:
  assumes "ins_inv ph t0 h0 h node t g p q dir lastd fs s"
  shows "ins_base t0 h0 h node fs s" "rootptr s = q" "p = anc fs 0"
    "fs \<noteq> [] \<longrightarrow> dir = frame_dir (fs ! 0)"
    "ins_phase ph (key (h0 node)) (hits (key (h0 node)) t0) t g lastd fs s"
proof -
  note A = assms[unfolded ins_inv_def]
  show "ins_base t0 h0 h node fs s" using A by (elim conjE)
  show "rootptr s = q" using A by (elim conjE)
  show "p = anc fs 0" using A by (elim conjE)
  show "fs \<noteq> [] \<longrightarrow> dir = frame_dir (fs ! 0)" using A by (elim conjE)
  show "ins_phase ph (key (h0 node)) (hits (key (h0 node)) t0) t g lastd fs s"
    using A by (elim conjE)
qed

lemma parent_red:
  assumes "ins_base t0 h0 h node fs s"
  shows "is_red h (anc fs 0) = (fs \<noteq> [] \<and> frame_red (hd fs))"
proof (cases fs)
  case Nil
  then show ?thesis by simp
next
  case (Cons f rest)
  obtain d a c k y where f: "f = (d, a, c, k, y)" by (cases f)
  note B = ins_baseD[OF assms]
  have R: "repr h (Some Head) (head_tree (plug rest (mk d s a c k y)))"
    and D: "distinct_nodes (plug rest (mk d s a c k y))"
    using B(1,2) by (simp_all add: Cons f)
  have "repr h (Some a) (mk d s a c k y)" using node_focus(1)[OF R D] by simp
  then have "red (h a) = c" by (rule repr_mk_dest(2))
  then show ?thesis by (simp add: Cons f)
qed

lemma hits_next: "differs kn s \<Longrightarrow> hits kn (next_sub kn s) = hits kn s"
  by (cases s) auto

lemma align_down:
  assumes "g = anc fs 1" "length fs < 2 \<longrightarrow> t = Some Head"
  shows "(if g \<noteq> None then g else t) = Some (parent_ref (drop 2 (f # fs)))"
proof (cases fs)
  case Nil
  then show ?thesis using assms by simp
next
  case (Cons f1 fs1)
  show ?thesis
  proof (cases fs1)
    case Nil
    then show ?thesis using assms Cons by simp
  next
    case (Cons f2 fs2)
    then show ?thesis using assms \<open>fs = f1 # fs1\<close> by (simp add: parent_ref_def)
  qed
qed

lemma ins_plain:
  assumes base: "ins_base t0 h0 h node fs s"
    and root: "rootptr s = Some qr"
    and p: "p = anc fs 0"
    and nf: "\<not> red_kids s"
    and hit: "hits (key (h0 node)) s = hits (key (h0 node)) t0"
    and ph: "differs (key (h0 node)) s \<Longrightarrow>
       ins_phase ph' (key (h0 node)) (hits (key (h0 node)) t0) (if g \<noteq> None then g else t) p dir
         (down_frame (key (h0 node)) s # fs) (next_sub (key (h0 node)) s) \<and>
       ins_measure ph' (key (h0 node)) (next_sub (key (h0 node)) s) < ins_measure ph (key (h0 node)) s"
  shows "ins_next ph t0 h0 node (insert_loop h node t g p (Some qr) dir lastd) s"
proof -
  note B = ins_baseD[OF base]
  from root obtain l c k r where s: "s = Node l qr c k r" by (cases s) auto
  note F = node_focus[OF B(1,2)]
  have rq: "repr h (Some qr) (Node l qr c k r)" using F(1) by (simp add: s)
  have att: "ins_attach h (Some node) p (Some qr) dir = Inr (h, Some qr)"
  proof (rule ins_attach_none[OF rq])
    show "\<not> (is_red_tree l \<and> is_red_tree r)" using nf by (simp add: s)
  qed
  have "\<not> (is_red_tree s \<and> fs \<noteq> [] \<and> frame_red (hd fs))"
  proof
    assume a: "is_red_tree s \<and> fs \<noteq> [] \<and> frame_red (hd fs)"
    then obtain d a' c' k' y rest where fs: "fs = (d, a', c', k', y) # rest"
      by (cases fs) auto
    have "c'" using a by (simp add: fs)
    from nrr_parent(1)[OF B(8)[unfolded fs] this] a show False by simp
  qed
  moreover have "is_red h (Some qr) = is_red_tree s" using rq by (simp add: s)
  ultimately have "\<not> (is_red h (Some qr) \<and> is_red h p)"
    using parent_red[OF base] by (simp add: p)
  then have rot: "ins_rotate h t g p (Some qr) lastd = Inr h" by (rule ins_rotate_none)
  show ?thesis using att rot base root hit ph by (rule ins_continue)
qed

lemma anc_Cons_1 [simp]: "anc (f # fs) 1 = anc fs 0"
  by (simp add: anc_def)

lemma frame_of_down [simp]:
  "frame_red (down_frame kn (Node l a c k r)) = c"
  "frame_addr (down_frame kn (Node l a c k r)) = a"
  "frame_dir (down_frame kn (Node l a c k r)) = (kn - k <s 0)"
  "frame_sib (down_frame kn (Node l a c k r)) = (if kn - k <s 0 then l else r)"
  by simp_all

lemma phase_down_aligned:
  assumes "g = anc fs 1" "length fs < 2 \<longrightarrow> t = Some Head"
    "fs \<noteq> [] \<longrightarrow> dir = frame_dir (fs ! 0)" "p = anc fs 0"
    "hits kn s = hit" "differs kn s" "s \<noteq> Leaf"
    "if is_red_tree s then fs \<noteq> [] \<and> \<not> is_red_tree (frame_sib (hd fs)) else \<not> red_kids s"
  shows "ins_phase Aligned kn hit (if g \<noteq> None then g else t) p dir
           (down_frame kn s # fs) (next_sub kn s)"
proof -
  from assms(7) obtain l a c k r where s: "s = Node l a c k r" by (cases s) auto
  have 1: "p = anc (down_frame kn s # fs) 1" using assms(4) by simp
  have 2: "1 < length (down_frame kn s # fs) \<longrightarrow> dir = frame_dir ((down_frame kn s # fs) ! 1)"
    using assms(3) by simp
  have 3: "(if g \<noteq> None then g else t) = Some (parent_ref (drop 2 (down_frame kn s # fs)))"
    using assms(1,2) by (rule align_down)
  have 4: "hits kn (next_sub kn s) = hit" using hits_next[OF assms(6)] assms(5) by simp
  have 5: "if frame_red (down_frame kn s) then
             (case fs of [] \<Rightarrow> False | f' # x \<Rightarrow> \<not> is_red_tree (frame_sib f'))
           else \<not> (is_red_tree (next_sub kn s) \<and> is_red_tree (frame_sib (down_frame kn s)))"
    using assms(8) unfolding s by (cases fs) auto
  show ?thesis unfolding ins_phase_def using 1 2 3 4 5 by simp
qed

lemma phase_down_quiet:
  assumes "p = anc fs 0" "fs \<noteq> [] \<longrightarrow> dir = frame_dir (fs ! 0)"
    "fs = [] \<longrightarrow> t' = Some Head"
    "hits kn (next_sub kn s) = hit" "quiet (next_sub kn s)"
  shows "ins_phase Quiet kn hit t' p dir (down_frame kn s # fs) (next_sub kn s)"
proof -
  have 1: "p = anc (down_frame kn s # fs) 1" using assms(1) by simp
  have 2: "1 < length (down_frame kn s # fs) \<longrightarrow> dir = frame_dir ((down_frame kn s # fs) ! 1)"
    using assms(2) by simp
  have 3: "length (down_frame kn s # fs) < 2 \<longrightarrow> t' = Some Head"
    using assms(3) by (cases fs) auto
  show ?thesis unfolding ins_phase_def using 1 2 3 assms(4,5) by simp
qed

lemma ins_step_quiet:
  assumes inv: "ins_inv Quiet t0 h0 h node t g p q dir lastd fs s"
  shows "ins_next Quiet t0 h0 node (insert_loop h node t g p q dir lastd) s"
proof -
  let ?kn = "key (h0 node)"
  note I = ins_invD[OF inv]
  from I(5) have P: "g = anc fs 1" "length fs < 2 \<longrightarrow> t = Some Head"
    "hits ?kn s = hits ?kn t0" "quiet s"
    by (simp_all add: ins_phase_def)
  from P(4) have nl: "s \<noteq> Leaf" and blk: "\<not> is_red_tree s" and bk: "black_kids s"
    by (simp_all add: quiet_def)
  from nl I(2) obtain qr where q: "q = Some qr" by (cases s) auto
  have nf: "\<not> red_kids s" using bk by (cases s) auto
  show ?thesis unfolding q
  proof (rule ins_plain[OF I(1) _ I(3) nf P(3), where ph' = Aligned])
    show "rootptr s = Some qr" using I(2) q by simp
    assume df: "differs ?kn s"
    have "ins_phase Aligned ?kn (hits ?kn t0) (if g \<noteq> None then g else t) p dir
           (down_frame ?kn s # fs) (next_sub ?kn s)"
      using P(1,2) I(4,3) P(3) df nl
    proof (rule phase_down_aligned)
      show "if is_red_tree s then fs \<noteq> [] \<and> \<not> is_red_tree (frame_sib (hd fs)) else \<not> red_kids s"
        using blk nf by simp
    qed
    moreover have "ins_measure Aligned ?kn (next_sub ?kn s) < ins_measure Quiet ?kn s"
      using size_next_sub[OF nl, of ?kn] by (simp add: ins_measure_def)
    ultimately show "ins_phase Aligned ?kn (hits ?kn t0) (if g \<noteq> None then g else t) p dir
           (down_frame ?kn s # fs) (next_sub ?kn s) \<and>
        ins_measure Aligned ?kn (next_sub ?kn s) < ins_measure Quiet ?kn s" by blast
  qed
qed

lemma ins_step_revisit:
  assumes inv: "ins_inv Revisit t0 h0 h node t g p q dir lastd fs s"
  shows "ins_next Revisit t0 h0 node (insert_loop h node t g p q dir lastd) s"
proof -
  let ?kn = "key (h0 node)"
  note I = ins_invD[OF inv]
  from I(5) have P: "fs \<noteq> []" "is_red_tree s" "black_kids s" "differs ?kn s"
    "quiet (next_sub ?kn s)" "hits ?kn (next_sub ?kn s) = hits ?kn t0"
    by (simp_all add: ins_phase_def)
  from P(2) have nl: "s \<noteq> Leaf" by auto
  from nl I(2) obtain qr where q: "q = Some qr" by (cases s) auto
  have nf: "\<not> red_kids s" using P(3) by (cases s) auto
  have hit: "hits ?kn s = hits ?kn t0" using hits_next[OF P(4)] P(6) by simp
  show ?thesis unfolding q
  proof (rule ins_plain[OF I(1) _ I(3) nf hit, where ph' = Quiet])
    show "rootptr s = Some qr" using I(2) q by simp
    have "ins_phase Quiet ?kn (hits ?kn t0) (if g \<noteq> None then g else t) p dir
           (down_frame ?kn s # fs) (next_sub ?kn s)"
      using I(3,4) _ P(6,5) by (rule phase_down_quiet) (simp add: P(1))
    moreover have "ins_measure Quiet ?kn (next_sub ?kn s) < ins_measure Revisit ?kn s"
      by (simp add: ins_measure_def)
    ultimately show "ins_phase Quiet ?kn (hits ?kn t0) (if g \<noteq> None then g else t) p dir
           (down_frame ?kn s # fs) (next_sub ?kn s) \<and>
        ins_measure Quiet ?kn (next_sub ?kn s) < ins_measure Revisit ?kn s" by blast
  qed
qed

lemma ins_step_aligned_plain:
  assumes inv: "ins_inv Aligned t0 h0 h node t g p q dir lastd fs s"
    and nl: "s \<noteq> Leaf" and nf: "\<not> red_kids s"
  shows "ins_next Aligned t0 h0 node (insert_loop h node t g p q dir lastd) s"
proof -
  let ?kn = "key (h0 node)"
  note I = ins_invD[OF inv]
  note B = ins_baseD[OF I(1)]
  from I(5) have P: "g = anc fs 1" "t = Some (parent_ref (drop 2 fs))"
    "hits ?kn s = hits ?kn t0"
    "case fs of [] \<Rightarrow> s \<noteq> Leaf \<and> \<not> is_red_tree s
     | f # fs' \<Rightarrow> if frame_red f then
           (case fs' of [] \<Rightarrow> False | f' # _ \<Rightarrow> \<not> is_red_tree (frame_sib f'))
         else \<not> (is_red_tree s \<and> is_red_tree (frame_sib f))"
    by (simp_all add: ins_phase_def)
  have tH: "length fs < 2 \<longrightarrow> t = Some Head" using P(2) by simp
  from nl I(2) obtain qr where q: "q = Some qr" by (cases s) auto
  have col: "if is_red_tree s then fs \<noteq> [] \<and> \<not> is_red_tree (frame_sib (hd fs)) else \<not> red_kids s"
  proof (cases "is_red_tree s")
    case False
    then show ?thesis using nf by simp
  next
    case True
    show ?thesis
    proof (cases fs)
      case Nil
      then show ?thesis using P(4) True by simp
    next
      case (Cons f rest)
      obtain d a c k y where f: "f = (d, a, c, k, y)" by (cases f)
      have "\<not> c" using nrr_parent(1)[OF B(8)[unfolded Cons f]] True by blast
      then show ?thesis using P(4) True by (simp add: Cons f)
    qed
  qed
  show ?thesis unfolding q
  proof (rule ins_plain[OF I(1) _ I(3) nf P(3), where ph' = Aligned])
    show "rootptr s = Some qr" using I(2) q by simp
    assume df: "differs ?kn s"
    have "ins_phase Aligned ?kn (hits ?kn t0) (if g \<noteq> None then g else t) p dir
           (down_frame ?kn s # fs) (next_sub ?kn s)"
      using P(1) tH I(4,3) P(3) df nl col by (rule phase_down_aligned)
    moreover have "ins_measure Aligned ?kn (next_sub ?kn s) < ins_measure Aligned ?kn s"
      using size_next_sub[OF nl, of ?kn] by (simp add: ins_measure_def)
    ultimately show "ins_phase Aligned ?kn (hits ?kn t0) (if g \<noteq> None then g else t) p dir
           (down_frame ?kn s # fs) (next_sub ?kn s) \<and>
        ins_measure Aligned ?kn (next_sub ?kn s) < ins_measure Aligned ?kn s" by blast
  qed
qed

lemma quiet_paint: "is_red_tree x \<Longrightarrow> no_red_red x \<Longrightarrow> quiet (paint False x)"
  by (cases x) (auto simp: quiet_def)

lemma bheight_paint_red: "is_red_tree x \<Longrightarrow> bheight (paint False x) = Suc (bheight x)"
  by (cases x) auto

lemma ins_flip_tree:
  assumes base: "ins_base t0 h0 h node fs (Node l qr c k r)"
    and red: "is_red_tree l" "is_red_tree r"
  shows "\<exists>h1. ins_attach h (Some node) p (Some qr) dir = Inr (h1, Some qr) \<and>
     repr h1 (Some Head) (head_tree (plug fs (Node (paint False l) qr True k (paint False r)))) \<and>
     distinct_nodes (plug fs (Node (paint False l) qr True k (paint False r))) \<and>
     (\<forall>x. x \<notin> set (addrs (plug fs (Node l qr c k r))) \<longrightarrow> x \<noteq> Head \<longrightarrow> h1 x = h x)"
proof -
  let ?s = "Node l qr c k r"
  let ?s1 = "Node (paint False l) qr True k (paint False r)"
  note B = ins_baseD[OF base]
  note F = node_focus[OF B(1,2)]
  have rq: "repr h (Some qr) ?s" using F(1) by simp
  from ins_attach_flip[OF rq F(2) red, of "Some node" p dir] obtain h1 where
    att: "ins_attach h (Some node) p (Some qr) dir = Inr (h1, Some qr)"
    and r1: "repr h1 (Some qr) ?s1"
    and fr: "\<forall>x. x \<notin> set (addrs ?s) \<longrightarrow> h1 x = h x"
    by blast
  have R1: "repr h1 (Some Head) (head_tree (plug fs ?s1))"
  proof (rule F(3))
    show "repr h1 (rootptr ?s) ?s1" using r1 by simp
    show "set (addrs ?s1) \<subseteq> set (addrs ?s)" by simp
    show "\<forall>x. x \<notin> set (addrs ?s) \<longrightarrow> h1 x = h x" by (rule fr)
  qed
  have d: "distinct (addrs (plug fs ?s))" using B(2) by (simp add: distinct_nodes_def)
  have "distinct (addrs (plug fs ?s1))"
    using d by (rule plug_replace_distinct) (use F(2) in simp_all)
  moreover have "set (addrs (plug fs ?s1)) = set (addrs (plug fs ?s))"
    by (rule plug_replace_addrs) simp
  ultimately have D1: "distinct_nodes (plug fs ?s1)" using B(2) by (simp add: distinct_nodes_def)
  have "\<forall>x. x \<notin> set (addrs (plug fs ?s)) \<longrightarrow> x \<noteq> Head \<longrightarrow> h1 x = h x"
    using fr addrs_sub_plug[of ?s fs] by blast
  with att R1 D1 show ?thesis by blast
qed

lemma ins_step_flip:
  assumes inv: "ins_inv Aligned t0 h0 h node t g p q dir lastd fs s"
    and rk: "red_kids s" and pb: "fs = [] \<or> \<not> frame_red (hd fs)"
  shows "ins_next Aligned t0 h0 node (insert_loop h node t g p q dir lastd) s"
proof -
  let ?kn = "key (h0 node)"
  note I = ins_invD[OF inv]
  note B = ins_baseD[OF I(1)]
  from I(5) have P: "g = anc fs 1" "t = Some (parent_ref (drop 2 fs))"
    "hits ?kn s = hits ?kn t0"
    by (simp_all add: ins_phase_def)
  from rk obtain l qr c k r where s: "s = Node l qr c k r" and red: "is_red_tree l" "is_red_tree r"
    by (cases s) auto
  let ?s1 = "Node (paint False l) qr True k (paint False r)"
  have q: "q = Some qr" using I(2) by (simp add: s)
  have ns: "no_red_red s" using B(8) by (rule plug_focus_nrr)
  have bs: "balanced s" using B(9) by (rule plug_focus_bal)
  have c: "\<not> c" using ns red by (auto simp: s)
  note F = node_focus[OF B(1,2)]
  from ins_flip_tree[OF I(1)[unfolded s] red, of p dir] obtain h1 where
    att: "ins_attach h (Some node) p (Some qr) dir = Inr (h1, Some qr)"
    and R1: "repr h1 (Some Head) (head_tree (plug fs ?s1))"
    and fr: "\<forall>x. x \<notin> set (addrs (plug fs s)) \<longrightarrow> x \<noteq> Head \<longrightarrow> h1 x = h x"
    unfolding s by blast
  have base1: "ins_base t0 h0 h1 node fs ?s1"
  proof (rule ins_base_replace[OF I(1) R1 fr])
    show "set (addrs ?s1) = set (addrs s)" by (simp add: s)
    show "distinct (addrs ?s1)" using F(2) by (simp add: s)
    show "keys_of ?s1 = keys_of s" by (simp add: s)
    show "addrs ?s1 = addrs s" by (simp add: s)
    show "no_red_red ?s1" using ns by (simp add: s no_red_red_paint_black)
    show "balanced ?s1" using bs red by (simp add: s bheight_paint_red)
    show "bheight ?s1 = bheight s" using red c by (simp add: s bheight_paint_red)
    show "is_red_tree ?s1 \<longrightarrow> is_red_tree s \<or> fs = [] \<or> \<not> frame_red (hd fs)"
      using pb by blast
    show "plug fs ?s1 = plug fs ?s1" ..
    show "on_path ?kn fs" by (rule B(10))
  qed
  have "\<not> is_red h1 p" using parent_red[OF base1] pb by (simp add: I(3))
  then have rot: "ins_rotate h1 t g p (Some qr) lastd = Inr h1" by (intro ins_rotate_none) simp
  have "hits ?kn ?s1 = hits ?kn s" by (simp add: s)
  then have hit1: "hits ?kn ?s1 = hits ?kn t0" using P(3) by simp
  show ?thesis unfolding q
  proof (rule ins_continue[OF att rot base1 _ hit1, where ph' = Quiet])
    show "rootptr ?s1 = Some qr" by simp
    assume df: "differs ?kn ?s1"
    have tH: "fs = [] \<longrightarrow> (if g \<noteq> None then g else t) = Some Head"
      using P(1,2) by simp
    have qn: "quiet (next_sub ?kn ?s1)"
      using red ns by (auto simp: s intro: quiet_paint)
    have "ins_phase Quiet ?kn (hits ?kn t0) (if g \<noteq> None then g else t) p dir
           (down_frame ?kn ?s1 # fs) (next_sub ?kn ?s1)"
      using I(3,4) tH _ qn by (rule phase_down_quiet) (use hits_next[OF df] hit1 in simp)
    moreover have "ins_measure Quiet ?kn (next_sub ?kn ?s1) < ins_measure Aligned ?kn s"
      by (simp add: ins_measure_def s)
    ultimately show "ins_phase Quiet ?kn (hits ?kn t0) (if g \<noteq> None then g else t) p dir
           (down_frame ?kn ?s1 # fs) (next_sub ?kn ?s1) \<and>
        ins_measure Quiet ?kn (next_sub ?kn ?s1) < ins_measure Aligned ?kn s" by blast
  qed
qed

lemma rot_single_tree:
  assumes R: "repr h1 (Some Head) (head_tree (plug rest (mk l (mk l S1 p True kp C) g cg kg U)))"
    and D: "distinct_nodes (plug rest (mk l (mk l S1 p True kp C) g cg kg U))"
    and q: "rootptr S1 = Some q" "is_red_tree S1"
  shows "\<exists>h2. ins_rotate h1 (Some (parent_ref rest)) (Some g) (Some p) (Some q) l = Inr h2 \<and>
      repr h2 (Some Head) (head_tree (plug rest (mk l S1 p False kp (mk l C g True kg U)))) \<and>
      (\<forall>x. x \<notin> set (addrs (plug rest (mk l (mk l S1 p True kp C) g cg kg U))) \<longrightarrow>
           x \<noteq> Head \<longrightarrow> h2 x = h1 x)"
proof -
  let ?G = "parent_ref rest"
  let ?s = "mk l (mk l S1 p True kp C) g cg kg U"
  let ?s' = "mk l S1 p False kp (mk l C g True kg U)"
  from parent_focus[OF R D] obtain dG cG kG yG where
    PF: "repr h1 (Some ?G) (mk dG ?s ?G cG kG yG)"
      "distinct (addrs (mk dG ?s ?G cG kG yG))"
      "set (addrs (mk dG ?s ?G cG kG yG)) \<subseteq> insert Head (set (addrs (plug rest ?s)))"
      "\<And>h' s'. repr h' (Some ?G) (mk dG s' ?G cG kG yG) \<Longrightarrow>
        set (addrs s') \<subseteq> set (addrs ?s) \<Longrightarrow>
        (\<forall>x. x \<notin> set (addrs (mk dG ?s ?G cG kG yG)) \<longrightarrow> h' x = h1 x) \<Longrightarrow>
        repr h' (Some Head) (head_tree (plug rest s'))"
    by blast
  from ins_rotate_single_mk[OF PF(1,2) q] obtain h2 where
    rot: "ins_rotate h1 (Some ?G) (Some g) (Some p) (Some q) l = Inr h2"
    and r2: "repr h2 (Some ?G) (mk dG ?s' ?G cG kG yG)"
    and f2: "\<forall>x. x \<noteq> ?G \<longrightarrow> x \<noteq> g \<longrightarrow> x \<noteq> p \<longrightarrow> h2 x = h1 x"
    by blast
  have fr: "\<forall>x. x \<notin> set (addrs (mk dG ?s ?G cG kG yG)) \<longrightarrow> h2 x = h1 x"
    using f2 by simp
  have R2: "repr h2 (Some Head) (head_tree (plug rest ?s'))"
    using r2 _ fr by (rule PF(4)) auto
  have "\<forall>x. x \<notin> set (addrs (plug rest ?s)) \<longrightarrow> x \<noteq> Head \<longrightarrow> h2 x = h1 x"
    using fr PF(3) by blast
  with rot R2 show ?thesis by blast
qed

lemma rot_double_tree:
  assumes R: "repr h1 (Some Head)
      (head_tree (plug rest (mk l (mk l C p True kp (mk l R1 q True kq R2)) g cg kg U)))"
    and D: "distinct_nodes (plug rest (mk l (mk l C p True kp (mk l R1 q True kq R2)) g cg kg U))"
  shows "\<exists>h2. ins_rotate h1 (Some (parent_ref rest)) (Some g) (Some p) (Some q) l = Inr h2 \<and>
      repr h2 (Some Head)
        (head_tree (plug rest (mk l (mk l C p True kp R1) q False kq (mk l R2 g True kg U)))) \<and>
      (\<forall>x. x \<notin> set (addrs (plug rest (mk l (mk l C p True kp (mk l R1 q True kq R2)) g cg kg U))) \<longrightarrow>
           x \<noteq> Head \<longrightarrow> h2 x = h1 x)"
proof -
  let ?G = "parent_ref rest"
  let ?s = "mk l (mk l C p True kp (mk l R1 q True kq R2)) g cg kg U"
  let ?s' = "mk l (mk l C p True kp R1) q False kq (mk l R2 g True kg U)"
  from parent_focus[OF R D] obtain dG cG kG yG where
    PF: "repr h1 (Some ?G) (mk dG ?s ?G cG kG yG)"
      "distinct (addrs (mk dG ?s ?G cG kG yG))"
      "set (addrs (mk dG ?s ?G cG kG yG)) \<subseteq> insert Head (set (addrs (plug rest ?s)))"
      "\<And>h' s'. repr h' (Some ?G) (mk dG s' ?G cG kG yG) \<Longrightarrow>
        set (addrs s') \<subseteq> set (addrs ?s) \<Longrightarrow>
        (\<forall>x. x \<notin> set (addrs (mk dG ?s ?G cG kG yG)) \<longrightarrow> h' x = h1 x) \<Longrightarrow>
        repr h' (Some Head) (head_tree (plug rest s'))"
    by blast
  from ins_rotate_double_mk[OF PF(1,2)] obtain h2 where
    rot: "ins_rotate h1 (Some ?G) (Some g) (Some p) (Some q) l = Inr h2"
    and r2: "repr h2 (Some ?G) (mk dG ?s' ?G cG kG yG)"
    and f2: "\<forall>x. x \<noteq> ?G \<longrightarrow> x \<noteq> g \<longrightarrow> x \<noteq> p \<longrightarrow> x \<noteq> q \<longrightarrow> h2 x = h1 x"
    by blast
  have fr: "\<forall>x. x \<notin> set (addrs (mk dG ?s ?G cG kG yG)) \<longrightarrow> h2 x = h1 x"
    using f2 by simp
  have R2: "repr h2 (Some Head) (head_tree (plug rest ?s'))"
    using r2 _ fr by (rule PF(4)) auto
  have "\<forall>x. x \<notin> set (addrs (plug rest ?s)) \<longrightarrow> x \<noteq> Head \<longrightarrow> h2 x = h1 x"
    using fr PF(3) by blast
  with rot R2 show ?thesis by blast
qed

lemma ins_base_up:
  assumes "ins_base t0 h0 h node ((d, a, c, k, y) # fs) s"
  shows "ins_base t0 h0 h node fs (mk d s a c k y)"
proof -
  note B = ins_baseD[OF assms]
  show ?thesis
  proof (rule ins_baseI)
    show "repr h (Some Head) (head_tree (plug fs (mk d s a c k y)))" using B(1) by simp
    show "distinct_nodes (plug fs (mk d s a c k y))" using B(2) by simp
    show "set (addrs (plug fs (mk d s a c k y))) = set (addrs t0)" using B(3) by simp
    show "keys_of (plug fs (mk d s a c k y)) = keys_of t0" using B(4) by simp
    show "\<forall>x. x \<notin> set (addrs t0) \<longrightarrow> x \<noteq> Head \<longrightarrow> h x = h0 x" by (rule B(5))
    show "node \<notin> set (addrs t0)" by (rule B(6))
    show "node \<noteq> Head" by (rule B(7))
    show "no_red_red (plug fs (mk d s a c k y))" using B(8) by simp
    show "balanced (plug fs (mk d s a c k y))" using B(9) by simp
    show "on_path (key (h0 node)) fs" using B(10) by simp
    show "addrs (plug fs (mk d s a c k y)) = addrs t0" using B(11) by simp
  qed
qed

lemma ins_step_flip_single:
  assumes inv: "ins_inv Aligned t0 h0 h node t g p q dir lastd fs s"
    and rk: "red_kids s"
    and fs: "fs = (l, pa, True, kp, C) # (l, ga, cg, kg, U) # rest"
  shows "ins_next Aligned t0 h0 node (insert_loop h node t g p q dir lastd) s"
proof -
  let ?kn = "key (h0 node)"
  note I = ins_invD[OF inv]
  note B = ins_baseD[OF I(1)]
  from I(5) have P: "g = Some ga" "lastd = l" "t = Some (parent_ref rest)"
    "hits ?kn s = hits ?kn t0" "\<not> is_red_tree U"
    by (simp_all add: ins_phase_def fs)
  have p: "p = Some pa" using I(3) by (simp add: fs)
  have dir: "dir = l" using I(4) by (simp add: fs)
  from rk obtain l0 qr c k r0 where s: "s = Node l0 qr c k r0"
    and red: "is_red_tree l0" "is_red_tree r0"
    by (cases s) auto
  let ?s1 = "Node (paint False l0) qr True k (paint False r0)"
  let ?G = "mk l (mk l s pa True kp C) ga cg kg U"
  let ?G1 = "mk l (mk l ?s1 pa True kp C) ga cg kg U"
  let ?G2 = "mk l ?s1 pa False kp (mk l C ga True kg U)"
  let ?fs2 = "(l, pa, False, kp, mk l C ga True kg U) # rest"
  have q: "q = Some qr" using I(2) by (simp add: s)
  have baseP: "ins_base t0 h0 h node ((l, ga, cg, kg, U) # rest) (mk l s pa True kp C)"
    using I(1) unfolding fs by (rule ins_base_up)
  have baseG: "ins_base t0 h0 h node rest ?G" using baseP by (rule ins_base_up)
  note BG = ins_baseD[OF baseG]
  have nG: "no_red_red ?G" using BG(8) by (rule plug_focus_nrr)
  have bG: "balanced ?G" using BG(9) by (rule plug_focus_bal)
  have dG: "distinct (addrs ?G)" using node_focus(2)[OF BG(1,2)] .
  have c: "\<not> c" using nG red by (auto simp: s)
  have cg: "\<not> cg" using nG by auto
  have nC: "\<not> is_red_tree C" using nG by auto
  from ins_flip_tree[OF I(1)[unfolded s] red, of p dir] obtain h1 where
    att: "ins_attach h (Some node) p (Some qr) dir = Inr (h1, Some qr)"
    and R1: "repr h1 (Some Head) (head_tree (plug fs ?s1))"
    and D1: "distinct_nodes (plug fs ?s1)"
    and fr1: "\<forall>x. x \<notin> set (addrs (plug fs s)) \<longrightarrow> x \<noteq> Head \<longrightarrow> h1 x = h x"
    unfolding s by blast
  have R1': "repr h1 (Some Head) (head_tree (plug rest ?G1))" using R1 by (simp add: fs)
  have D1': "distinct_nodes (plug rest ?G1)" using D1 by (simp add: fs)
  from rot_single_tree[OF R1' D1', of qr] obtain h2 where
    rot0: "ins_rotate h1 (Some (parent_ref rest)) (Some ga) (Some pa) (Some qr) l = Inr h2"
    and R2: "repr h2 (Some Head) (head_tree (plug rest ?G2))"
    and fr2: "\<forall>x. x \<notin> set (addrs (plug rest ?G1)) \<longrightarrow> x \<noteq> Head \<longrightarrow> h2 x = h1 x"
    by auto
  have rot: "ins_rotate h1 t g p (Some qr) lastd = Inr h2"
    using rot0 by (simp add: P p)
  have ad1: "set (addrs (plug rest ?G1)) = set (addrs (plug rest ?G))"
    by (rule plug_replace_addrs) (simp add: s)
  have fr: "\<forall>x. x \<notin> set (addrs (plug rest ?G)) \<longrightarrow> x \<noteq> Head \<longrightarrow> h2 x = h x"
    using fr1 fr2 unfolding ad1 by (simp add: fs)
  have base2: "ins_base t0 h0 h2 node ?fs2 ?s1"
  proof (rule ins_base_replace[OF baseG R2 fr])
    show "set (addrs ?G2) = set (addrs ?G)" by (auto simp: s)
    show "distinct (addrs ?G2)" using dG by (simp add: s; blast)
    show "keys_of ?G2 = keys_of ?G" by (simp add: s keys_of_mk)
    show "addrs ?G2 = addrs ?G" by (simp add: s addrs_mk_list)
    show "no_red_red ?G2" using nG P(5) by (simp add: s no_red_red_paint_black)
    show "balanced ?G2" using bG red c by (auto simp: s bheight_paint_red split: if_splits)
    show "bheight ?G2 = bheight ?G" using bG red c cg by (auto simp: s bheight_paint_red split: if_splits)
    show "is_red_tree ?G2 \<longrightarrow> is_red_tree ?G \<or> rest = [] \<or> \<not> frame_red (hd rest)" by simp
    show "plug rest ?G2 = plug ?fs2 ?s1" by simp
    show "on_path ?kn ?fs2" using B(10) by (simp add: fs)
  qed
  have "hits ?kn ?s1 = hits ?kn s" by (simp add: s)
  then have hit1: "hits ?kn ?s1 = hits ?kn t0" using P(4) by simp
  have ns: "no_red_red s" using B(8) by (rule plug_focus_nrr)
  show ?thesis unfolding q
  proof (rule ins_continue[OF att rot base2 _ hit1, where ph' = Quiet])
    show "rootptr ?s1 = Some qr" by simp
    assume df: "differs ?kn ?s1"
    have qn: "quiet (next_sub ?kn ?s1)"
      using red ns by (auto simp: s intro: quiet_paint)
    have "ins_phase Quiet ?kn (hits ?kn t0) (if g \<noteq> None then g else t) p dir
           (down_frame ?kn ?s1 # ?fs2) (next_sub ?kn ?s1)"
    proof (rule phase_down_quiet)
      show "p = anc ?fs2 0" by (simp add: p)
      show "?fs2 \<noteq> [] \<longrightarrow> dir = frame_dir (?fs2 ! 0)" by (simp add: dir)
      show "?fs2 = [] \<longrightarrow> (if g \<noteq> None then g else t) = Some Head" by simp
      show "hits ?kn (next_sub ?kn ?s1) = hits ?kn t0" using hits_next[OF df] hit1 by simp
      show "quiet (next_sub ?kn ?s1)" by (rule qn)
    qed
    moreover have "ins_measure Quiet ?kn (next_sub ?kn ?s1) < ins_measure Aligned ?kn s"
      by (simp add: ins_measure_def s)
    ultimately show "ins_phase Quiet ?kn (hits ?kn t0) (if g \<noteq> None then g else t) p dir
           (down_frame ?kn ?s1 # ?fs2) (next_sub ?kn ?s1) \<and>
        ins_measure Quiet ?kn (next_sub ?kn ?s1) < ins_measure Aligned ?kn s" by blast
  qed
qed

lemma ins_step_flip_double:
  assumes inv: "ins_inv Aligned t0 h0 h node t g p q dir lastd fs s"
    and rk: "red_kids s"
    and fs: "fs = (\<not> l, pa, True, kp, C) # (l, ga, cg, kg, U) # rest"
  shows "ins_next Aligned t0 h0 node (insert_loop h node t g p q dir lastd) s"
proof -
  let ?kn = "key (h0 node)"
  note I = ins_invD[OF inv]
  note B = ins_baseD[OF I(1)]
  from I(5) have P: "g = Some ga" "lastd = l" "t = Some (parent_ref rest)"
    "hits ?kn s = hits ?kn t0" "\<not> is_red_tree U"
    by (simp_all add: ins_phase_def fs)
  have p: "p = Some pa" using I(3) by (simp add: fs)
  have dir: "dir = (\<not> l)" using I(4) by (simp add: fs)
  have op: "?kn - kp \<noteq> 0" "(\<not> l) = (?kn - kp <s 0)" "?kn - kg \<noteq> 0" "l = (?kn - kg <s 0)"
    using B(10)[unfolded fs on_path_Cons] by blast+
  from rk obtain l0 qr c k r0 where s0: "s = Node l0 qr c k r0"
    and red0: "is_red_tree l0" "is_red_tree r0"
    by (cases s) auto
  define X where "X = (if l then r0 else l0)"
  define Y where "Y = (if l then l0 else r0)"
  have s: "s = mk l X qr c k Y" by (simp add: s0 X_def Y_def mk_def)
  have red: "is_red_tree X" "is_red_tree Y" using red0 by (simp_all add: X_def Y_def)
  let ?R1 = "paint False X"
  let ?R2 = "paint False Y"
  let ?s1 = "mk l ?R1 qr True k ?R2"
  have s1: "Node (paint False l0) qr True k (paint False r0) = ?s1"
    by (simp add: X_def Y_def mk_def)
  let ?G = "mk l (mk l C pa True kp s) ga cg kg U"
  let ?G1 = "mk l (mk l C pa True kp ?s1) ga cg kg U"
  let ?G2 = "mk l (mk l C pa True kp ?R1) qr False k (mk l ?R2 ga True kg U)"
  have q: "q = Some qr" using I(2) by (simp add: s0)
  have baseP: "ins_base t0 h0 h node ((l, ga, cg, kg, U) # rest) (mk l C pa True kp s)"
    using ins_base_up[OF I(1)[unfolded fs]] by (simp add: mk_flip)
  have baseG: "ins_base t0 h0 h node rest ?G" using baseP by (rule ins_base_up)
  note BG = ins_baseD[OF baseG]
  have nG: "no_red_red ?G" using BG(8) by (rule plug_focus_nrr)
  have bG: "balanced ?G" using BG(9) by (rule plug_focus_bal)
  have dG: "distinct (addrs ?G)" using node_focus(2)[OF BG(1,2)] .
  have c: "\<not> c" using nG red by (auto simp: s)
  have cg: "\<not> cg" using nG by auto
  have nC: "\<not> is_red_tree C" using nG by auto
  have nX: "no_red_red X" "no_red_red Y" using nG by (simp_all add: s)
  from ins_flip_tree[OF I(1)[unfolded s0] red0, of p dir] obtain h1 where
    att: "ins_attach h (Some node) p (Some qr) dir = Inr (h1, Some qr)"
    and R1: "repr h1 (Some Head) (head_tree (plug fs ?s1))"
    and D1: "distinct_nodes (plug fs ?s1)"
    and fr1: "\<forall>x. x \<notin> set (addrs (plug fs s)) \<longrightarrow> x \<noteq> Head \<longrightarrow> h1 x = h x"
    unfolding s1 s0[symmetric] by blast
  have pl: "plug fs x = plug rest (mk l (mk l C pa True kp x) ga cg kg U)" for x
    by (simp add: fs mk_flip)
  have R1': "repr h1 (Some Head) (head_tree (plug rest ?G1))" using R1 by (simp only: pl)
  have D1': "distinct_nodes (plug rest ?G1)" using D1 by (simp only: pl)
  from rot_double_tree[OF R1' D1'] obtain h2 where
    rot0: "ins_rotate h1 (Some (parent_ref rest)) (Some ga) (Some pa) (Some qr) l = Inr h2"
    and R2: "repr h2 (Some Head) (head_tree (plug rest ?G2))"
    and fr2: "\<forall>x. x \<notin> set (addrs (plug rest ?G1)) \<longrightarrow> x \<noteq> Head \<longrightarrow> h2 x = h1 x"
    by auto
  have rot: "ins_rotate h1 t g p (Some qr) lastd = Inr h2"
    using rot0 by (simp add: P p)
  have ad1: "set (addrs (plug rest ?G1)) = set (addrs (plug rest ?G))"
    by (rule plug_replace_addrs) (simp add: s)
  have fr: "\<forall>x. x \<notin> set (addrs (plug rest ?G)) \<longrightarrow> x \<noteq> Head \<longrightarrow> h2 x = h x"
    using fr1 fr2 unfolding ad1 by (simp only: pl) simp
  have base2: "ins_base t0 h0 h2 node rest ?G2"
  proof (rule ins_base_replace[OF baseG R2 fr])
    show "set (addrs ?G2) = set (addrs ?G)" by (auto simp: s)
    show "distinct (addrs ?G2)" using dG by (simp add: s; blast)
    show "keys_of ?G2 = keys_of ?G" by (simp add: s keys_of_mk)
    show "addrs ?G2 = addrs ?G" by (simp add: s addrs_mk_list)
    show "no_red_red ?G2" using nG P(5) by (simp add: s no_red_red_paint_black)
    show "balanced ?G2" using bG red c by (auto simp: s bheight_paint_red split: if_splits)
    show "bheight ?G2 = bheight ?G" using bG red c cg by (auto simp: s bheight_paint_red split: if_splits)
    show "is_red_tree ?G2 \<longrightarrow> is_red_tree ?G \<or> rest = [] \<or> \<not> frame_red (hd rest)" by simp
    show "plug rest ?G2 = plug rest ?G2" ..
    show "on_path ?kn rest" using B(10) by (simp add: fs)
  qed
  have hs: "hits ?kn s = (?kn - k = 0 \<or> hits ?kn (if (?kn - k <s 0) = l then X else Y))"
    by (simp add: s)
  have nsub: "next_sub ?kn (next_sub ?kn ?G2) = (if (?kn - k <s 0) = l then ?R1 else ?R2)"
    using op by auto
  have hit2: "hits ?kn ?G2 = hits ?kn t0"
  proof -
    have "hits ?kn ?G2 = (?kn - k = 0 \<or> hits ?kn (if (?kn - k <s 0) = l then X else Y))"
      using op by auto
    then show ?thesis using hs P(4) by simp
  qed
  show ?thesis unfolding q
  proof (rule ins_continue[OF att rot base2 _ hit2, where ph' = Revisit])
    show "rootptr ?G2 = Some qr" by simp
    assume df: "differs ?kn ?G2"
    then have dk: "?kn - k \<noteq> 0" by simp
    have 1: "is_red_tree (next_sub ?kn ?G2)" by simp
    have 2: "black_kids (next_sub ?kn ?G2)" using nC P(5) by simp
    have 3: "differs ?kn (next_sub ?kn ?G2)" using op by simp
    have 4: "quiet (next_sub ?kn (next_sub ?kn ?G2))"
      unfolding nsub using red nX by (simp add: quiet_paint)
    have 5: "hits ?kn (next_sub ?kn (next_sub ?kn ?G2)) = hits ?kn t0"
      unfolding nsub using hs P(4) dk by auto
    have "ins_phase Revisit ?kn (hits ?kn t0) (if g \<noteq> None then g else t) p dir
           (down_frame ?kn ?G2 # rest) (next_sub ?kn ?G2)"
      unfolding ins_phase_def using 1 2 3 4 5 by simp
    moreover have "ins_measure Revisit ?kn (next_sub ?kn ?G2) < ins_measure Aligned ?kn s"
      unfolding ins_measure_def nsub by (simp add: s)
    ultimately show "ins_phase Revisit ?kn (hits ?kn t0) (if g \<noteq> None then g else t) p dir
           (down_frame ?kn ?G2 # rest) (next_sub ?kn ?G2) \<and>
        ins_measure Revisit ?kn (next_sub ?kn ?G2) < ins_measure Aligned ?kn s" by blast
  qed
qed

lemma ins_rotate_key:
  assumes "ins_rotate h t g p q l = Inr h'"
  shows "key (h' x) = key (h x)"
  using assms unfolding ins_rotate_def Let_def
  by (auto split: if_splits option.splits sum.splits prod.splits
      dest!: jsw_single_keys jsw_double_keys)

lemma ins_attach_tree:
  assumes base: "ins_base t0 h0 h node ((d, pa, cp, kp, C) # rest) Leaf"
  shows "\<exists>h1. ins_attach h (Some node) (Some pa) None d = Inr (h1, Some node) \<and>
     repr h1 (Some Head)
       (head_tree (plug ((d, pa, cp, kp, C) # rest) (Node Leaf node True (key (h0 node)) Leaf))) \<and>
     distinct_nodes (plug ((d, pa, cp, kp, C) # rest) (Node Leaf node True (key (h0 node)) Leaf)) \<and>
     (\<forall>x. x \<noteq> pa \<longrightarrow> x \<noteq> node \<longrightarrow> h1 x = h x) \<and> key (h1 node) = key (h0 node)"
proof -
  let ?N = "Node Leaf node True (key (h0 node)) Leaf"
  let ?P = "mk d Leaf pa cp kp C"
  let ?P1 = "mk d ?N pa cp kp C"
  note B = ins_baseD[OF base]
  have baseU: "ins_base t0 h0 h node rest ?P" using base by (rule ins_base_up)
  note BU = ins_baseD[OF baseU]
  note F = node_focus[OF BU(1,2)]
  have rp: "repr h (Some pa) ?P" using F(1) by simp
  have hn: "h node = h0 node" using B(5,6,7) by blast
  have sub: "set (addrs ?P) \<subseteq> set (addrs t0)" using addrs_sub_plug[of ?P rest] BU(3) by simp
  have np: "node \<noteq> pa" using sub B(6) by auto
  have nC: "node \<notin> set (addrs C)" using sub B(6) by auto
  have Hn: "Head \<notin> set (addrs t0)" using BU(2,3) by (simp add: distinct_nodes_def)
  have Hp: "Head \<noteq> pa" using sub Hn by auto
  from ins_attach_leaf[OF rp F(2) np nC] obtain h1 where
    att: "ins_attach h (Some node) (Some pa) None d = Inr (h1, Some node)"
    and r1: "repr h1 (Some pa) ?P1"
    and fr: "\<forall>x. x \<noteq> pa \<longrightarrow> x \<noteq> node \<longrightarrow> h1 x = h x"
    and ky: "key (h1 node) = key (h node)"
    unfolding hn by blast
  have dP: "distinct (addrs (plug rest ?P))" using BU(2) by (simp add: distinct_nodes_def)
  have dis: "set (addrs ?P) \<inter> set (addrs (plug rest Leaf)) = {}"
    using dP by (rule plug_frames_disjoint)
  have fsub: "set (addrs (plug rest Leaf)) \<subseteq> set (addrs t0)"
    using addrs_plug[of rest ?P] BU(3) by blast
  have R1: "repr h1 (Some Head) (head_tree (plug rest ?P1))"
  proof (rule head_plug_repr[OF BU(1)])
    show "repr h1 (rootptr ?P) ?P1" using r1 by simp
    show "h1 Head = h Head" using fr Hp B(7) by auto
    fix x assume x: "x \<in> set (addrs (plug rest Leaf))"
    have "x \<noteq> pa" using x dis by auto
    moreover have "x \<noteq> node" using x fsub B(6) by auto
    ultimately show "h1 x = h x" using fr by simp
  qed
  have d1: "distinct (addrs (plug rest ?P1))"
  proof (rule plug_grow_distinct[OF dP])
    show "distinct (addrs ?P1)" using F(2) np nC by simp
    fix x assume "x \<in> set (addrs ?P1)"
    then have "x = node \<or> x \<in> set (addrs ?P)" by auto
    then show "x \<notin> set (addrs (plug rest Leaf))" using dis fsub B(6) by auto
  qed
  have "set (addrs (plug rest ?P1)) = insert node (set (addrs t0))"
    using addrs_plug[of rest ?P1] addrs_plug[of rest ?P] BU(3) by auto
  then have D1: "distinct_nodes (plug rest ?P1)"
    using d1 Hn B(7) by (auto simp: distinct_nodes_def)
  show ?thesis using att R1 D1 fr ky hn by auto
qed

lemma ins_post_grow:
  assumes base: "ins_base t0 h0 h node fs Leaf"
    and hit: "\<not> hits (key (h0 node)) t0"
    and R: "repr h' (Some Head) (head_tree t')"
    and D: "distinct_nodes t'"
    and col: "no_red_red t'" "balanced t'"
    and ad: "set (addrs t') = insert node (set (addrs t0))"
    and ks: "keys_of t' = keys_of (plug fs (Node Leaf node True (key (h0 node)) Leaf))"
    and ky: "key (h' node) = key (h0 node)"
    and fr: "\<forall>x. x \<notin> set (addrs t0) \<longrightarrow> x \<noteq> Head \<longrightarrow> x \<noteq> node \<longrightarrow> h' x = h0 x"
  shows "ins_post t0 h0 h' node t'"
proof -
  note B = ins_baseD[OF base]
  have nl: "t' \<noteq> Leaf" using ad by auto
  from keys_plug_split[of fs] obtain ks1 ks2 where
    sp: "\<And>s. keys_of (plug fs s) = ks1 @ keys_of s @ ks2" by blast
  have k0: "keys_of t0 = ks1 @ ks2" using sp[of Leaf] B(4) by simp
  have k1: "keys_of t' = ks1 @ key (h0 node) # ks2" using sp ks by simp
  have "\<exists>ks1 ks2. keys_of t0 = ks1 @ ks2 \<and> keys_of t' = ks1 @ key (h0 node) # ks2"
    using k0 k1 by blast
  then show ?thesis
    unfolding ins_post_def using hit R D col nl ad ky fr by simp
qed

lemma ins_attach_done:
  assumes att: "ins_attach h (Some node) p None dir = Inr (h1, Some node)"
    and rot: "ins_rotate h1 t g p (Some node) lastd = Inr h2"
    and post: "ins_post t0 h0 h2 node t'"
  shows "ins_next ph t0 h0 node (insert_loop h node t g p None dir lastd) s"
proof -
  have "insert_loop h node t g p None dir lastd = Some (Inr (h2, None))"
    using insert_loop_step[OF att rot] by (simp add: node_cmp_def)
  then show ?thesis unfolding ins_next_def ins_goal_def using post by blast
qed

lemma ins_step_attach:
  assumes inv: "ins_inv Aligned t0 h0 h node t g p q dir lastd fs s"
    and s: "s = Leaf" and fs: "fs = (d, pa, False, kp, C) # rest"
  shows "ins_next Aligned t0 h0 node (insert_loop h node t g p q dir lastd) s"
proof -
  let ?kn = "key (h0 node)"
  let ?N = "Node Leaf node True ?kn Leaf"
  note I = ins_invD[OF inv]
  note B = ins_baseD[OF I(1)]
  from I(5) have hit: "\<not> hits ?kn t0" by (simp add: ins_phase_def s)
  have p: "p = Some pa" using I(3) by (simp add: fs)
  have dir: "dir = d" using I(4) by (simp add: fs)
  have q: "q = None" using I(2) by (simp add: s)
  have base: "ins_base t0 h0 h node ((d, pa, False, kp, C) # rest) Leaf"
    using I(1) by (simp add: s fs)
  from ins_attach_tree[OF base] obtain h1 where
    att: "ins_attach h (Some node) (Some pa) None d = Inr (h1, Some node)"
    and R1: "repr h1 (Some Head) (head_tree (plug fs ?N))"
    and D1: "distinct_nodes (plug fs ?N)"
    and fr1: "\<forall>x. x \<noteq> pa \<longrightarrow> x \<noteq> node \<longrightarrow> h1 x = h x"
    and ky: "key (h1 node) = ?kn"
    unfolding fs by blast
  have R1': "repr h1 (Some Head) (head_tree (plug rest (mk d ?N pa False kp C)))"
    using R1 by (simp add: fs)
  have D1': "distinct_nodes (plug rest (mk d ?N pa False kp C))" using D1 by (simp add: fs)
  have "repr h1 (Some pa) (mk d ?N pa False kp C)" using node_focus(1)[OF R1' D1'] by simp
  then have "red (h1 pa) = False" by (rule repr_mk_dest(2))
  then have rot: "ins_rotate h1 t g (Some pa) (Some node) lastd = Inr h1"
    by (intro ins_rotate_none) simp
  have col: "no_red_red (plug fs ?N) \<and> balanced (plug fs ?N)"
    using B(8,9)[unfolded s] by (rule plug_replace_inv2) (simp_all add: fs)
  have pin: "pa \<in> set (addrs t0)"
    using addrs_sub_plug[of "mk d Leaf pa False kp C" rest] B(3) by (simp add: s fs)
  have post: "ins_post t0 h0 h1 node (plug fs ?N)"
  proof (rule ins_post_grow[OF I(1)[unfolded s] hit R1 D1])
    show "no_red_red (plug fs ?N)" "balanced (plug fs ?N)" using col by simp_all
    show "set (addrs (plug fs ?N)) = insert node (set (addrs t0))"
      using addrs_plug[of fs ?N] addrs_plug[of fs Leaf] B(3) by (simp add: s)
    show "keys_of (plug fs ?N) = keys_of (plug fs ?N)" ..
    show "key (h1 node) = ?kn" by (rule ky)
    show "\<forall>x. x \<notin> set (addrs t0) \<longrightarrow> x \<noteq> Head \<longrightarrow> x \<noteq> node \<longrightarrow> h1 x = h0 x"
      using fr1 pin B(5) by auto
  qed
  show ?thesis unfolding q p dir
    using att rot post by (rule ins_attach_done)
qed

lemma ins_step_attach_single:
  assumes inv: "ins_inv Aligned t0 h0 h node t g p q dir lastd fs s"
    and s: "s = Leaf"
    and fs: "fs = (l, pa, True, kp, C) # (l, ga, cg, kg, U) # rest"
  shows "ins_next Aligned t0 h0 node (insert_loop h node t g p q dir lastd) s"
proof -
  let ?kn = "key (h0 node)"
  let ?N = "Node Leaf node True ?kn Leaf"
  let ?G = "mk l (mk l Leaf pa True kp C) ga cg kg U"
  let ?G1 = "mk l (mk l ?N pa True kp C) ga cg kg U"
  let ?G2 = "mk l ?N pa False kp (mk l C ga True kg U)"
  note I = ins_invD[OF inv]
  note B = ins_baseD[OF I(1)]
  from I(5) have P: "g = Some ga" "lastd = l" "t = Some (parent_ref rest)"
    "\<not> hits ?kn t0" "\<not> is_red_tree U"
    by (simp_all add: ins_phase_def fs s)
  have p: "p = Some pa" using I(3) by (simp add: fs)
  have dir: "dir = l" using I(4) by (simp add: fs)
  have q: "q = None" using I(2) by (simp add: s)
  have base: "ins_base t0 h0 h node ((l, pa, True, kp, C) # (l, ga, cg, kg, U) # rest) Leaf"
    using I(1) by (simp add: s fs)
  have baseG: "ins_base t0 h0 h node rest ?G"
    using ins_base_up[OF ins_base_up[OF base]] .
  note BG = ins_baseD[OF baseG]
  have nG: "no_red_red ?G" using BG(8) by (rule plug_focus_nrr)
  have bG: "balanced ?G" using BG(9) by (rule plug_focus_bal)
  have cg: "\<not> cg" using nG by auto
  from ins_attach_tree[OF base] obtain h1 where
    att: "ins_attach h (Some node) (Some pa) None l = Inr (h1, Some node)"
    and R1: "repr h1 (Some Head) (head_tree (plug rest ?G1))"
    and D1: "distinct_nodes (plug rest ?G1)"
    and fr1: "\<forall>x. x \<noteq> pa \<longrightarrow> x \<noteq> node \<longrightarrow> h1 x = h x"
    and ky: "key (h1 node) = ?kn"
    by auto
  from rot_single_tree[OF R1 D1, of node] obtain h2 where
    rot0: "ins_rotate h1 (Some (parent_ref rest)) (Some ga) (Some pa) (Some node) l = Inr h2"
    and R2: "repr h2 (Some Head) (head_tree (plug rest ?G2))"
    and fr2: "\<forall>x. x \<notin> set (addrs (plug rest ?G1)) \<longrightarrow> x \<noteq> Head \<longrightarrow> h2 x = h1 x"
    by auto
  have rot: "ins_rotate h1 t g (Some pa) (Some node) lastd = Inr h2"
    using rot0 by (simp add: P)
  have ad1: "set (addrs (plug rest ?G1)) = insert node (set (addrs t0))"
    using addrs_plug[of rest ?G1] addrs_plug[of rest ?G] BG(3) by auto
  have ad2: "set (addrs (plug rest ?G2)) = set (addrs (plug rest ?G1))"
    by (rule plug_replace_addrs) auto
  have d1: "distinct (addrs (plug rest ?G1))" using D1 by (simp add: distinct_nodes_def)
  have dG1: "distinct (addrs ?G1)" using d1 by (rule distinct_plug_focus')
  have "distinct (addrs (plug rest ?G2))"
    using d1 by (rule plug_replace_distinct) (use dG1 in \<open>simp; blast\<close>, auto)
  then have D2: "distinct_nodes (plug rest ?G2)"
    using D1 ad2 by (simp add: distinct_nodes_def)
  have col: "no_red_red (plug rest ?G2) \<and> balanced (plug rest ?G2)"
  proof (rule plug_replace_inv2[OF BG(8,9)])
    show "no_red_red ?G2" using nG P(5) by simp
    show "balanced ?G2" using bG by (auto split: if_splits)
    show "bheight ?G2 = bheight ?G" using bG cg by (auto split: if_splits)
    show "is_red_tree ?G2 \<longrightarrow> is_red_tree ?G \<or> rest = [] \<or> \<not> frame_red (hd rest)" by simp
  qed
  have pin: "pa \<in> set (addrs t0)"
    using addrs_sub_plug[of ?G rest] BG(3) by auto
  have post: "ins_post t0 h0 h2 node (plug rest ?G2)"
  proof (rule ins_post_grow[OF I(1)[unfolded s] P(4) R2 D2])
    show "no_red_red (plug rest ?G2)" "balanced (plug rest ?G2)" using col by simp_all
    show "set (addrs (plug rest ?G2)) = insert node (set (addrs t0))"
      using ad1 ad2 by simp
    have "keys_of (plug rest ?G2) = keys_of (plug rest ?G1)"
      by (rule plug_replace_keys) (simp add: keys_of_mk)
    then show "keys_of (plug rest ?G2) = keys_of (plug fs ?N)" by (simp add: fs)
    show "key (h2 node) = ?kn" using ins_rotate_key[OF rot, of node] ky by simp
    show "\<forall>x. x \<notin> set (addrs t0) \<longrightarrow> x \<noteq> Head \<longrightarrow> x \<noteq> node \<longrightarrow> h2 x = h0 x"
      using fr1 fr2 pin B(5) unfolding ad1 by auto
  qed
  show ?thesis unfolding q p dir
    using att rot post by (rule ins_attach_done)
qed

lemma ins_step_attach_double:
  assumes inv: "ins_inv Aligned t0 h0 h node t g p q dir lastd fs s"
    and s: "s = Leaf"
    and fs: "fs = (\<not> l, pa, True, kp, C) # (l, ga, cg, kg, U) # rest"
  shows "ins_next Aligned t0 h0 node (insert_loop h node t g p q dir lastd) s"
proof -
  let ?kn = "key (h0 node)"
  let ?N = "Node Leaf node True ?kn Leaf"
  let ?G = "mk l (mk l C pa True kp Leaf) ga cg kg U"
  let ?G1 = "mk l (mk l C pa True kp (mk l Leaf node True ?kn Leaf)) ga cg kg U"
  let ?G2 = "mk l (mk l C pa True kp Leaf) node False ?kn (mk l Leaf ga True kg U)"
  note I = ins_invD[OF inv]
  note B = ins_baseD[OF I(1)]
  from I(5) have P: "g = Some ga" "lastd = l" "t = Some (parent_ref rest)"
    "\<not> hits ?kn t0" "\<not> is_red_tree U"
    by (simp_all add: ins_phase_def fs s)
  have p: "p = Some pa" using I(3) by (simp add: fs)
  have dir: "dir = (\<not> l)" using I(4) by (simp add: fs)
  have q: "q = None" using I(2) by (simp add: s)
  have N: "?N = mk l Leaf node True ?kn Leaf" by (simp add: mk_def)
  have base: "ins_base t0 h0 h node ((\<not> l, pa, True, kp, C) # (l, ga, cg, kg, U) # rest) Leaf"
    using I(1) by (simp add: s fs)
  have baseG: "ins_base t0 h0 h node rest ?G"
    using ins_base_up[OF ins_base_up[OF base]] by (simp add: mk_flip)
  note BG = ins_baseD[OF baseG]
  have nG: "no_red_red ?G" using BG(8) by (rule plug_focus_nrr)
  have bG: "balanced ?G" using BG(9) by (rule plug_focus_bal)
  have cg: "\<not> cg" using nG by auto
  have pl: "plug fs x = plug rest (mk l (mk l C pa True kp x) ga cg kg U)" for x
    by (simp add: fs mk_flip)
  from ins_attach_tree[OF base] obtain h1 where
    att: "ins_attach h (Some node) (Some pa) None (\<not> l) = Inr (h1, Some node)"
    and R1: "repr h1 (Some Head) (head_tree (plug fs ?N))"
    and D1: "distinct_nodes (plug fs ?N)"
    and fr1: "\<forall>x. x \<noteq> pa \<longrightarrow> x \<noteq> node \<longrightarrow> h1 x = h x"
    and ky: "key (h1 node) = ?kn"
    unfolding fs by blast
  have R1': "repr h1 (Some Head) (head_tree (plug rest ?G1))"
    using R1 unfolding pl N .
  have D1': "distinct_nodes (plug rest ?G1)" using D1 unfolding pl N .
  from rot_double_tree[OF R1' D1'] obtain h2 where
    rot0: "ins_rotate h1 (Some (parent_ref rest)) (Some ga) (Some pa) (Some node) l = Inr h2"
    and R2: "repr h2 (Some Head) (head_tree (plug rest ?G2))"
    and fr2: "\<forall>x. x \<notin> set (addrs (plug rest ?G1)) \<longrightarrow> x \<noteq> Head \<longrightarrow> h2 x = h1 x"
    by auto
  have rot: "ins_rotate h1 t g (Some pa) (Some node) lastd = Inr h2"
    using rot0 by (simp add: P)
  have ad1: "set (addrs (plug rest ?G1)) = insert node (set (addrs t0))"
    using addrs_plug[of rest ?G1] addrs_plug[of rest ?G] BG(3) by auto
  have ad2: "set (addrs (plug rest ?G2)) = set (addrs (plug rest ?G1))"
    by (rule plug_replace_addrs) auto
  have d1: "distinct (addrs (plug rest ?G1))" using D1' by (simp add: distinct_nodes_def)
  have dG1: "distinct (addrs ?G1)" using d1 by (rule distinct_plug_focus')
  have "distinct (addrs (plug rest ?G2))"
    using d1 by (rule plug_replace_distinct) (use dG1 in \<open>simp; blast\<close>, auto)
  then have D2: "distinct_nodes (plug rest ?G2)"
    using D1' ad2 by (simp add: distinct_nodes_def)
  have col: "no_red_red (plug rest ?G2) \<and> balanced (plug rest ?G2)"
  proof (rule plug_replace_inv2[OF BG(8,9)])
    show "no_red_red ?G2" using nG P(5) by simp
    show "balanced ?G2" using bG by (auto split: if_splits)
    show "bheight ?G2 = bheight ?G" using bG cg by (auto split: if_splits)
    show "is_red_tree ?G2 \<longrightarrow> is_red_tree ?G \<or> rest = [] \<or> \<not> frame_red (hd rest)" by simp
  qed
  have pin: "pa \<in> set (addrs t0)"
    using addrs_sub_plug[of ?G rest] BG(3) by auto
  have post: "ins_post t0 h0 h2 node (plug rest ?G2)"
  proof (rule ins_post_grow[OF I(1)[unfolded s] P(4) R2 D2])
    show "no_red_red (plug rest ?G2)" "balanced (plug rest ?G2)" using col by simp_all
    show "set (addrs (plug rest ?G2)) = insert node (set (addrs t0))"
      using ad1 ad2 by simp
    have "keys_of (plug rest ?G2) = keys_of (plug rest ?G1)"
      by (rule plug_replace_keys) (simp add: keys_of_mk)
    then show "keys_of (plug rest ?G2) = keys_of (plug fs ?N)" unfolding pl N .
    show "key (h2 node) = ?kn" using ins_rotate_key[OF rot, of node] ky by simp
    show "\<forall>x. x \<notin> set (addrs t0) \<longrightarrow> x \<noteq> Head \<longrightarrow> x \<noteq> node \<longrightarrow> h2 x = h0 x"
      using fr1 fr2 pin B(5) unfolding ad1 by auto
  qed
  show ?thesis unfolding q p dir
    using att rot post by (rule ins_attach_done)
qed

section \<open>The insertion loop and \<^verbatim>\<open>jsw_rbinsert\<close>\<close>

lemma ins_step_aligned:
  assumes inv: "ins_inv Aligned t0 h0 h node t g p q dir lastd fs s"
  shows "ins_next Aligned t0 h0 node (insert_loop h node t g p q dir lastd) s"
proof -
  note I = ins_invD[OF inv]
  from I(5) have col: "case fs of [] \<Rightarrow> s \<noteq> Leaf \<and> \<not> is_red_tree s
     | f # fs' \<Rightarrow> if frame_red f then
           (case fs' of [] \<Rightarrow> False | f' # _ \<Rightarrow> \<not> is_red_tree (frame_sib f'))
         else \<not> (is_red_tree s \<and> is_red_tree (frame_sib f))"
    by (simp add: ins_phase_def)
  consider (plain) "s \<noteq> Leaf" "\<not> red_kids s"
    | (black) "s = Leaf \<or> red_kids s" "fs = [] \<or> \<not> frame_red (hd fs)"
    | (red) "s = Leaf \<or> red_kids s" "fs \<noteq> []" "frame_red (hd fs)"
    by blast
  then show ?thesis
  proof cases
    case plain
    with inv show ?thesis by (rule ins_step_aligned_plain)
  next
    case black
    show ?thesis
    proof (cases "s = Leaf")
      case True
      with col obtain f rest where fs: "fs = f # rest" by (cases fs) auto
      obtain d pa cp kp C where f: "f = (d, pa, cp, kp, C)" by (cases f)
      have "\<not> cp" using black(2) by (simp add: fs f)
      then have "fs = (d, pa, False, kp, C) # rest" by (simp add: fs f)
      with inv True show ?thesis by (rule ins_step_attach)
    next
      case False
      with black(1) have "red_kids s" by simp
      with inv show ?thesis using black(2) by (rule ins_step_flip)
    qed
  next
    case red
    from red(2) obtain f fs1 where fs: "fs = f # fs1" by (cases fs) auto
    obtain d pa cp kp C where f: "f = (d, pa, cp, kp, C)" by (cases f)
    have cp: "cp" using red(3) by (simp add: fs f)
    from col cp obtain f' rest where fs1: "fs1 = f' # rest" by (cases fs1) (auto simp: fs f)
    obtain l ga cg kg U where f': "f' = (l, ga, cg, kg, U)" by (cases f')
    show ?thesis
    proof (cases "d = l")
      case True
      have fss: "fs = (l, pa, True, kp, C) # (l, ga, cg, kg, U) # rest"
        using cp True by (simp add: fs f fs1 f')
      show ?thesis
      proof (cases "s = Leaf")
        case True
        with inv show ?thesis using fss by (rule ins_step_attach_single)
      next
        case False
        with red(1) have "red_kids s" by simp
        with inv show ?thesis using fss by (rule ins_step_flip_single)
      qed
    next
      case False
      then have "d = (\<not> l)" by simp
      then have fss: "fs = (\<not> l, pa, True, kp, C) # (l, ga, cg, kg, U) # rest"
        using cp by (simp add: fs f fs1 f')
      show ?thesis
      proof (cases "s = Leaf")
        case True
        with inv show ?thesis using fss by (rule ins_step_attach_double)
      next
        case False
        with red(1) have "red_kids s" by simp
        with inv show ?thesis using fss by (rule ins_step_flip_double)
      qed
    qed
  qed
qed

lemma ins_step:
  assumes "ins_inv ph t0 h0 h node t g p q dir lastd fs s"
  shows "ins_next ph t0 h0 node (insert_loop h node t g p q dir lastd) s"
proof (cases ph)
  case Aligned
  with assms show ?thesis using ins_step_aligned by blast
next
  case Quiet
  with assms show ?thesis using ins_step_quiet by blast
next
  case Revisit
  with assms show ?thesis using ins_step_revisit by blast
qed

lemma insert_loop_inv:
  assumes "ins_inv ph t0 h0 h node t g p q dir lastd fs s"
  shows "ins_goal t0 h0 node (insert_loop h node t g p q dir lastd)"
  using assms
proof (induction "ins_measure ph (key (h0 node)) s"
    arbitrary: ph h t g p q dir lastd fs s rule: less_induct)
  case less
  from ins_step[OF less.prems] show ?case
    unfolding ins_next_def
  proof (elim disjE exE conjE)
    assume "ins_goal t0 h0 node (insert_loop h node t g p q dir lastd)"
    then show ?thesis .
  next
    fix ph' h' t' g' p' q' dir' lastd' fs' s'
    assume e: "insert_loop h node t g p q dir lastd = insert_loop h' node t' g' p' q' dir' lastd'"
      and inv': "ins_inv ph' t0 h0 h' node t' g' p' q' dir' lastd' fs' s'"
      and m: "ins_measure ph' (key (h0 node)) s' < ins_measure ph (key (h0 node)) s"
    show ?thesis unfolding e using m inv' by (rule less.hyps)
  qed
qed

lemma ins_attach_keys:
  "ins_attach h node p q d = Inr (h', q') \<Longrightarrow> \<forall>x. key (h' x) = key (h x)"
  unfolding ins_attach_def new_node_def Let_def
  by (auto split: if_splits option.splits sum.splits prod.splits)

lemma ins_rotate_keys:
  "ins_rotate h t g p q l = Inr h' \<Longrightarrow> \<forall>x. key (h' x) = key (h x)"
  using ins_rotate_key by blast

lemma insert_loop_key:
  assumes "insert_loop h node t g p q dir lastd = Some r"
  shows "\<forall>h' v. r = Inr (h', v) \<longrightarrow> key (h' x) = key (h x)"
proof (rule insert_loop.raw_induct[where P = "\<lambda>h node t g p q dir lastd r.
    \<forall>h' v. r = Inr (h', v) \<longrightarrow> key (h' x) = key (h x)", OF _ assms])
  fix insert_loop ::
    "heap \<Rightarrow> ref \<Rightarrow> ptr \<Rightarrow> ptr \<Rightarrow> ptr \<Rightarrow> ptr \<Rightarrow> bool \<Rightarrow> bool \<Rightarrow> (fault + heap \<times> int option) option"
    and h node t g p q dir lastd r
  assume IH: "\<And>h node t g p q dir lastd r. insert_loop h node t g p q dir lastd = Some r \<Longrightarrow>
      \<forall>h' v. r = Inr (h', v) \<longrightarrow> key (h' x) = key (h x)"
    and body: "(case ins_attach h (Some node) p q dir of Inl e \<Rightarrow> Some (Inl e)
      | Inr (h1, q1) \<Rightarrow>
        (case q1 of None \<Rightarrow> Some (Inr (h1, Some 0))
         | Some qr \<Rightarrow>
           (case ins_rotate h1 t g p q1 lastd of Inl e \<Rightarrow> Some (Inl e)
            | Inr h2 \<Rightarrow>
               if node_cmp (h2 qr) (h2 node) = 0 then Some (Inr (h2, None))
               else
                 let lastd' = dir;
                     dir' = (node_cmp (h2 qr) (h2 node) <s 0);
                     t' = (if g \<noteq> None then g else t)
                 in insert_loop h2 node t' p q1 (link (h2 qr) dir') dir' lastd'))) = Some r"
  show "\<forall>h' v. r = Inr (h', v) \<longrightarrow> key (h' x) = key (h x)"
  proof (intro allI impI)
    fix h' v assume r: "r = Inr (h', v)"
    from body r obtain h1 q1 where att: "ins_attach h (Some node) p q dir = Inr (h1, q1)"
      by (cases "ins_attach h (Some node) p q dir") auto
    note k1 = ins_attach_keys[OF att]
    show "key (h' x) = key (h x)"
    proof (cases q1)
      case None
      then show ?thesis using body r att k1 by simp
    next
      case (Some qr)
      from body r att Some obtain h2 where rot: "ins_rotate h1 t g p (Some qr) lastd = Inr h2"
        by (cases "ins_rotate h1 t g p (Some qr) lastd") auto
      note k2 = ins_rotate_keys[OF rot]
      show ?thesis
      proof (cases "node_cmp (h2 qr) (h2 node) = 0")
        case True
        then show ?thesis using body r att Some rot k1 k2 by simp
      next
        case False
        then have "insert_loop h2 node (if g \<noteq> None then g else t) p (Some qr)
            (link (h2 qr) (node_cmp (h2 qr) (h2 node) <s 0))
            (node_cmp (h2 qr) (h2 node) <s 0) dir = Some r"
          using body att Some rot by (simp add: Let_def)
        from IH[OF this] r have "key (h' x) = key (h2 x)" by blast
        then show ?thesis using k1 k2 by simp
      qed
    qed
  qed
qed

lemma find_loop_hits:
  "repr h p t \<Longrightarrow> \<exists>r. find_loop h p node = Some r \<and> (r \<noteq> None \<longleftrightarrow> hits (key (h node)) t)"
proof (induction t arbitrary: p)
  case Leaf
  then show ?case by (subst find_loop.simps) simp
next
  case (Node l a c k r)
  from Node.prems have p: "p = Some a" and k: "key (h a) = k"
    and rl: "repr h (link0 (h a)) l" and rr: "repr h (link1 (h a)) r" by auto
  have cmp: "node_cmp (h a) (h node) = key (h node) - k" by (simp add: node_cmp_def k)
  show ?case
  proof (cases "key (h node) - k = 0")
    case True
    have "find_loop h p node = Some (Some a)"
      by (subst find_loop.simps) (simp add: p cmp True)
    then show ?thesis using True by simp
  next
    case False
    have ne: "key (h node) \<noteq> k" using False by simp
    have e: "find_loop h p node = find_loop h (link (h a) (key (h node) - k <s 0)) node"
      by (subst find_loop.simps) (simp add: p cmp ne Let_def)
    show ?thesis
    proof (cases "key (h node) - k <s 0")
      case True
      from Node.IH(2)[OF rr] show ?thesis unfolding e using True False by simp
    next
      case nl: False
      from Node.IH(1)[OF rl] show ?thesis unfolding e using nl False by simp
    qed
  qed
qed

lemma jsw_rbfind_hits:
  assumes "repr h root t"
  shows "\<exists>r. jsw_rbfind h root (Some node) = Some (Inr r) \<and> (r \<noteq> None \<longleftrightarrow> hits (key (h node)) t)"
  using find_loop_hits[OF assms, of node] by (auto simp: jsw_rbfind_def)

lemma jsw_rbinsert_correct:
  assumes R: "repr h root t0" and D: "distinct_nodes t0" and I: "rb_inv t0"
    and nd: "node \<notin> set (addrs t0)" "node \<noteq> Head"
  shows "\<exists>h' root' t'. jsw_rbinsert h root (Some node) = Some (Inr (h', root', 1)) \<and>
      repr h' root' t' \<and> distinct_nodes t' \<and> rb_inv t' \<and> (\<forall>x. key (h' x) = key (h x)) \<and>
      (if hits (key (h node)) t0 then
         set (addrs t') = set (addrs t0) \<and> keys_of t' = keys_of t0 \<and>
         (\<forall>x. x \<notin> set (addrs t0) \<longrightarrow> h' x = h x) \<and>
         addrs t' = addrs t0
       else
         set (addrs t') = insert node (set (addrs t0)) \<and>
         (\<exists>ks1 ks2. keys_of t0 = ks1 @ ks2 \<and> keys_of t' = ks1 @ key (h node) # ks2) \<and>
         (\<forall>x. x \<notin> set (addrs t0) \<longrightarrow> x \<noteq> node \<longrightarrow> h' x = h x))"
proof (cases root)
  case None
  then have t0: "t0 = Leaf" using R by (cases t0) auto
  define h1 where "h1 = h(node := (h node)\<lparr>red := True, link0 := None, link1 := None\<rparr>)"
  define h2 where "h2 = h1(node := (h1 node)\<lparr>red := False\<rparr>)"
  let ?t = "Node Leaf node False (key (h node)) Leaf"
  have e: "jsw_rbinsert h root (Some node) = Some (Inr (h2, Some node, 1))"
    by (simp add: jsw_rbinsert_def None new_node_def h1_def h2_def)
  have r: "repr h2 (Some node) ?t" by (simp add: h2_def h1_def)
  have d: "distinct_nodes ?t" using nd(2) by (simp add: distinct_nodes_def)
  have i: "rb_inv ?t" by (simp add: rb_inv_def root_black_def uniform_black_balanced)
  have k: "\<forall>x. key (h2 x) = key (h x)" by (simp add: h2_def h1_def)
  have f: "\<forall>x. x \<noteq> node \<longrightarrow> h2 x = h x" by (simp add: h2_def h1_def)
  have ks: "\<exists>ks1 ks2. keys_of t0 = ks1 @ ks2 \<and> keys_of ?t = ks1 @ key (h node) # ks2"
    by (simp add: t0)
  show ?thesis
    apply (rule exI[of _ h2])
    apply (rule exI[of _ "Some node"])
    apply (rule exI[of _ ?t])
    using e r d i k f ks by (simp add: t0)
next
  case (Some r)
  let ?kn = "key (h node)"
  have N: "no_red_red t0" and B: "balanced t0" and K: "\<not> is_red_tree t0"
    using I by (simp_all add: rb_inv_def root_black_def uniform_black_balanced)
  define h1 where "h1 = h(Head := set_link head_init True (Some r))"
  have Hn: "Head \<notin> set (addrs t0)" using D by (simp add: distinct_nodes_def)
  have r1: "repr h1 (Some r) t0" using R Hn by (simp add: h1_def Some)
  have R1: "repr h1 (Some Head) (head_tree t0)"
    using r1 by (simp add: head_tree_def h1_def head_init_def)
  have nl: "t0 \<noteq> Leaf" using R Some by auto
  have base: "ins_base t0 h h1 node [] t0"
  proof (rule ins_baseI)
    show "repr h1 (Some Head) (head_tree (plug [] t0))" using R1 by simp
    show "distinct_nodes (plug [] t0)" using D by simp
    show "\<forall>x. x \<notin> set (addrs t0) \<longrightarrow> x \<noteq> Head \<longrightarrow> h1 x = h x" by (simp add: h1_def)
    show "no_red_red (plug [] t0)" using N by simp
    show "balanced (plug [] t0)" using B by simp
  qed (use nd in simp_all)
  have inv: "ins_inv Aligned t0 h h1 node (Some Head) None None (Some r) False False [] t0"
    unfolding ins_inv_def ins_phase_def using base nl K R Some repr_rootptr[OF R] by simp
  from insert_loop_inv[OF inv] obtain h2 t' where
    el: "insert_loop h1 node (Some Head) None None (Some r) False False = Some (Inr (h2, None))"
    and post: "ins_post t0 h h2 node t'"
    unfolding ins_goal_def by blast
  note Q = post[unfolded ins_post_def]
  have R2: "repr h2 (Some Head) (head_tree t')" using Q by (elim conjE)
  have D2: "distinct_nodes t'" using Q by (elim conjE)
  have N2: "no_red_red t'" using Q by (elim conjE)
  have B2: "balanced t'" using Q by (elim conjE)
  have nl2: "t' \<noteq> Leaf" using Q by (elim conjE)
  have Q6: "if hits ?kn t0 then
         set (addrs t') = set (addrs t0) \<and> keys_of t' = keys_of t0 \<and>
         (\<forall>x. x \<notin> set (addrs t0) \<longrightarrow> x \<noteq> Head \<longrightarrow> h2 x = h x) \<and>
         addrs t' = addrs t0
       else
         set (addrs t') = insert node (set (addrs t0)) \<and>
         (\<exists>ks1 ks2. keys_of t0 = ks1 @ ks2 \<and> keys_of t' = ks1 @ ?kn # ks2) \<and>
         key (h2 node) = ?kn \<and>
         (\<forall>x. x \<notin> set (addrs t0) \<longrightarrow> x \<noteq> Head \<longrightarrow> x \<noteq> node \<longrightarrow> h2 x = h x)"
    using Q by (elim conjE)
  from nl2 obtain l rr c k rt where t': "t' = Node l rr c k rt" by (cases t') auto
  have r2: "repr h2 (link1 (h2 Head)) t'" using R2 by (rule repr_head_tree)
  have lk: "link1 (h2 Head) = Some rr" using r2 by (simp add: t')
  define h4 where "h4 = (h2(rr := (h2 rr)\<lparr>red := False\<rparr>))(Head := h Head)"
  have hh: "(h(Head := head_init))(Head := set_link ((h(Head := head_init)) Head) True (Some r)) = h1"
    by (simp add: h1_def)
  have e: "jsw_rbinsert h root (Some node) = Some (Inr (h4, Some rr, 1))"
    unfolding jsw_rbinsert_def Some
    by (simp only: Let_def hh el option.case sum.case prod.case if_False simp_thms
        option.distinct lk link_simps h4_def[symmetric])
  have Hn2: "Head \<notin> set (addrs t')" and dt: "distinct (addrs t')"
    using D2 by (simp_all add: distinct_nodes_def)
  have "repr h2 (Some rr) t'" using r2 lk by simp
  then have "repr (h2(rr := (h2 rr)\<lparr>red := False\<rparr>)) (Some rr) (paint False t')"
    using dt by (rule repr_paint)
  then have r4: "repr h4 (Some rr) (paint False t')" using Hn2 by (simp add: h4_def)
  have d4: "distinct_nodes (paint False t')" using D2 by (simp add: distinct_nodes_def)
  have i4: "rb_inv (paint False t')"
    using N2 B2 by (simp add: rb_inv_def root_black_def uniform_black_balanced no_red_red_paint_black)
  have k2: "key (h2 x) = key (h1 x)" for x using insert_loop_key[OF el, of x] by blast
  have k4: "\<forall>x. key (h4 x) = key (h x)" using k2 by (simp add: h4_def h1_def)
  have rin: "rr \<in> set (addrs t')" by (simp add: t')
  have fin: "if hits ?kn t0 then
         set (addrs (paint False t')) = set (addrs t0) \<and> keys_of (paint False t') = keys_of t0 \<and>
         (\<forall>x. x \<notin> set (addrs t0) \<longrightarrow> h4 x = h x) \<and>
         addrs (paint False t') = addrs t0
       else
         set (addrs (paint False t')) = insert node (set (addrs t0)) \<and>
         (\<exists>ks1 ks2. keys_of t0 = ks1 @ ks2 \<and> keys_of (paint False t') = ks1 @ ?kn # ks2) \<and>
         (\<forall>x. x \<notin> set (addrs t0) \<longrightarrow> x \<noteq> node \<longrightarrow> h4 x = h x)"
  proof (cases "hits ?kn t0")
    case True
    with Q6 have a: "set (addrs t') = set (addrs t0)" and ks: "keys_of t' = keys_of t0"
      and fr: "\<forall>x. x \<notin> set (addrs t0) \<longrightarrow> x \<noteq> Head \<longrightarrow> h2 x = h x"
      and al: "addrs t' = addrs t0" by simp_all
    have "\<forall>x. x \<notin> set (addrs t0) \<longrightarrow> h4 x = h x"
      using fr rin a by (auto simp: h4_def)
    then show ?thesis using True a ks al by simp
  next
    case False
    with Q6 have a: "set (addrs t') = insert node (set (addrs t0))"
      and ks: "\<exists>ks1 ks2. keys_of t0 = ks1 @ ks2 \<and> keys_of t' = ks1 @ ?kn # ks2"
      and fr: "\<forall>x. x \<notin> set (addrs t0) \<longrightarrow> x \<noteq> Head \<longrightarrow> x \<noteq> node \<longrightarrow> h2 x = h x"
      by simp_all
    have "\<forall>x. x \<notin> set (addrs t0) \<longrightarrow> x \<noteq> node \<longrightarrow> h4 x = h x"
      using fr rin a by (auto simp: h4_def)
    then show ?thesis using False a ks by simp
  qed
  show ?thesis
    apply (rule exI[of _ h4])
    apply (rule exI[of _ "Some rr"])
    apply (rule exI[of _ "paint False t'"])
    using e r4 d4 i4 k4 fin by simp
qed

section \<open>The claims\<close>

subsection \<open>The comparison\<close>

text \<open>
  C7. There are keys \<open>a < b\<close> in integer order for which \<^verbatim>\<open>node_cmp\<close> reports the
  opposite order because the subtraction wraps around. For the neighbouring keys 1 and 2
  the result is positive; for \<open>a = - 2^31\<close> and \<open>b = 1\<close> it is negative. The sign of
  \<^verbatim>\<open>node_cmp\<close> is therefore no total order on the 32-bit keys: the keys 0, 1500000000
  and \<open>- 1500000000\<close> are each reported smaller than the next and the last smaller than
  the first.
\<close>

theorem node_cmp_wraps_around:
  "0 <s node_cmp (head_init\<lparr>key := 1\<rparr>) (head_init\<lparr>key := 2\<rparr>) \<and>
   (\<exists>n1 n2. key n1 <s key n2 \<and> node_cmp n1 n2 <s 0) \<and>
   (\<exists>n1 n2 n3. 0 <s node_cmp n1 n2 \<and> 0 <s node_cmp n2 n3 \<and> node_cmp n1 n3 <s 0)"
proof -
  have near: "0 <s node_cmp (head_init\<lparr>key := 1\<rparr>) (head_init\<lparr>key := 2\<rparr>)"
    by (simp add: node_cmp_def head_init_def word_sless_alt)
  have far: "key (head_init\<lparr>key := - 2147483648\<rparr>) <s key (head_init\<lparr>key := 1\<rparr>) \<and>
      node_cmp (head_init\<lparr>key := - 2147483648\<rparr>) (head_init\<lparr>key := 1\<rparr>) <s 0"
    by (simp add: node_cmp_def head_init_def word_sless_alt)
  have cycle: "0 <s node_cmp (head_init\<lparr>key := 0\<rparr>) (head_init\<lparr>key := 1500000000\<rparr>) \<and>
      0 <s node_cmp (head_init\<lparr>key := 1500000000\<rparr>) (head_init\<lparr>key := - 1500000000\<rparr>) \<and>
      node_cmp (head_init\<lparr>key := 0\<rparr>) (head_init\<lparr>key := - 1500000000\<rparr>) <s 0"
    by (simp add: node_cmp_def head_init_def word_sless_alt)
  from near far cycle show ?thesis by blast
qed

subsection \<open>Removal from the empty tree\<close>

text \<open>
  C10. For the empty tree (no root) \<^verbatim>\<open>jsw_rberase\<close> returns 1 and changes nothing: the
  store it leaves is the store it was given, no node of it is read or written, and the
  root stays absent.
\<close>

theorem erase_empty_tree:
  "jsw_rberase h None node = Some (Inr (h, None, 1))"
  by (simp add: jsw_rberase_def)

subsection \<open>Cursor order\<close>

text \<open>
  C2 on the code. The keys 10, 20, 5, 15, 3 are inserted in this order. Seeding with
  \<^verbatim>\<open>jsw_rbtfirst\<close> and stepping with \<^verbatim>\<open>jsw_rbtnext\<close> visits 20, 15, 10, 5, 3: the keys in
  decreasing order, starting at the largest. \<^verbatim>\<open>jsw_rbtlast\<close> with \<^verbatim>\<open>jsw_rbtprev\<close> visits
  them in increasing order. The comparison \<^verbatim>\<open>node_cmp\<close> sends smaller keys to
  \<^verbatim>\<open>link[1]\<close>, while \<^verbatim>\<open>start\<close> walks \<^verbatim>\<open>link[0]\<close> for what it calls the minimum.
\<close>

theorem cursor_first_next_descends:
  "forward_keys (run_calls (store_of [10, 20, 5, 15, 3]) None
      [Insert 1, Insert 2, Insert 3, Insert 4, Insert 5]) 5 = Some [20, 15, 10, 5, 3] \<and>
   backward_keys (run_calls (store_of [10, 20, 5, 15, 3]) None
      [Insert 1, Insert 2, Insert 3, Insert 4, Insert 5]) 5 = Some [3, 5, 10, 15, 20]"
  by code_simp

subsection \<open>Search after insertions and removals\<close>

text \<open>
  C3 on the code. The keys 0, 2000000000 and \<open>- 2000000000\<close> are inserted and the key 0 is
  erased. The tree then holds 2000000000 at the root and \<open>- 2000000000\<close> below its
  \<^verbatim>\<open>link[1]\<close>, yet \<^verbatim>\<open>jsw_rbfind\<close> for \<open>- 2000000000\<close> (the key of node 5) returns the null
  pointer: the difference of the two keys wraps around and the search turns to
  \<^verbatim>\<open>link[0]\<close>.
\<close>

theorem find_misses_inserted_key:
  "leaves_tree (run_calls (store_of [0, 2000000000, - 2000000000, 0, - 2000000000]) None
      [Insert 1, Insert 2, Insert 3, Erase 4])
      (Node Leaf (Ptr 1) False 2000000000 (Node Leaf (Ptr 3) True (- 2000000000) Leaf)) \<and>
   then_find (run_calls (store_of [0, 2000000000, - 2000000000, 0, - 2000000000]) None
      [Insert 1, Insert 2, Insert 3, Erase 4]) 5 = Some (Inr None)"
  by code_simp

subsection \<open>Duplicate insertion\<close>

text \<open>
  Against C4 as stated. The keys 1 to 7 are inserted in this order; the tree then has
  node 2 at the root and holds the key 5 in node 5. Inserting node 8, which carries the
  key 5 again, leaves a tree with node 4 at the root: the colour flips and the rotation
  on the way down to the equal key have changed links and colours.
\<close>

theorem duplicate_insert_rewires_tree:
  "leaves_tree (run_calls (store_of [1, 2, 3, 4, 5, 6, 7, 5]) None
      [Insert 1, Insert 2, Insert 3, Insert 4, Insert 5, Insert 6, Insert 7])
      (Node (Node (Node (Node Leaf (Ptr 7) True 7 Leaf) (Ptr 6) False 6
                        (Node Leaf (Ptr 5) True 5 Leaf)) (Ptr 4) True 4
                  (Node Leaf (Ptr 3) False 3 Leaf)) (Ptr 2) False 2
            (Node Leaf (Ptr 1) False 1 Leaf)) \<and>
   leaves_tree (run_calls (store_of [1, 2, 3, 4, 5, 6, 7, 5]) None
      [Insert 1, Insert 2, Insert 3, Insert 4, Insert 5, Insert 6, Insert 7, Insert 8])
      (Node (Node (Node Leaf (Ptr 7) False 7 Leaf) (Ptr 6) True 6
                  (Node Leaf (Ptr 5) False 5 Leaf)) (Ptr 4) False 4
            (Node (Node Leaf (Ptr 3) False 3 Leaf) (Ptr 2) True 2
                  (Node Leaf (Ptr 1) False 1 Leaf)))"
  by code_simp

text \<open>
  C4, amended. On a tree that satisfies the balance invariants and in which the search
  of \<^verbatim>\<open>jsw_rbfind\<close> finds a node with the key of \<open>node\<close>, \<^verbatim>\<open>jsw_rbinsert\<close> with \<open>node\<close> (a
  node of the caller, not linked in the tree) returns 1 and leaves a tree of the same
  nodes in the same order from left to right, hence with the same key sequence, which
  satisfies the balance invariants again. Every node keeps its key, and no cell outside
  the tree is changed:
  \<open>node\<close> is neither linked nor written. What may change is the links and the colours
  of the nodes of the tree.
\<close>

theorem duplicate_insert_keeps_keys:
  assumes "repr h root t" and "distinct_nodes t" and "rb_inv t"
    and "node \<notin> set (addrs t)" and "node \<noteq> Head"
    and "jsw_rbfind h root (Some node) = Some (Inr (Some x))"
  shows "\<exists>h' root' t'. jsw_rbinsert h root (Some node) = Some (Inr (h', root', 1)) \<and>
           repr h' root' t' \<and> distinct_nodes t' \<and> rb_inv t' \<and>
           keys_of t' = keys_of t \<and> addrs t' = addrs t \<and>
           (\<forall>x. x \<notin> set (addrs t) \<longrightarrow> h' x = h x) \<and>
           (\<forall>x. key (h' x) = key (h x))"
proof -
  from jsw_rbfind_hits[OF assms(1), of node] assms(6) have hit: "hits (key (h node)) t" by auto
  from jsw_rbinsert_correct[OF assms(1-5)] hit show ?thesis by auto
qed

theorem duplicate_insert_keeps_keys_witness:
  "repr ex_store (Some (Ptr 1)) ex_tree \<and> distinct_nodes ex_tree \<and> rb_inv ex_tree \<and>
   Ptr 4 \<notin> set (addrs ex_tree) \<and> Ptr 4 \<noteq> Head \<and>
   jsw_rbfind ex_store (Some (Ptr 1)) (Some (Ptr 4)) = Some (Inr (Some (Ptr 2))) \<and>
   (\<exists>h' root' t'. jsw_rbinsert ex_store (Some (Ptr 1)) (Some (Ptr 4)) = Some (Inr (h', root', 1)) \<and>
           repr h' root' t' \<and> distinct_nodes t' \<and> rb_inv t' \<and>
           keys_of t' = keys_of ex_tree \<and> addrs t' = addrs ex_tree \<and>
           (\<forall>x. x \<notin> set (addrs ex_tree) \<longrightarrow> h' x = ex_store x) \<and>
           (\<forall>x. key (h' x) = key (ex_store x)))"
proof -
  have nh: "Ptr 4 \<noteq> Head" by simp
  from duplicate_insert_keeps_keys[OF ex_tree_repr ex_tree_distinct ex_tree_rb ex_fresh(1) nh ex_find_dup]
  show ?thesis using ex_tree_repr ex_tree_distinct ex_tree_rb ex_fresh(1) nh ex_find_dup by blast
qed

subsection \<open>Removal of an absent key\<close>

text \<open>
  Against C5 as stated. The keys 1 and 2 are inserted; node 1 is the black root and
  node 2 its red \<^verbatim>\<open>link[0]\<close> child. Erasing the key 0, which is not in the tree, returns
  1 and leaves node 2 as the black root with node 1 as its red \<^verbatim>\<open>link[1]\<close> child: the
  rotation made on the way down is not undone.
\<close>

theorem absent_erase_rewires_tree:
  "leaves_tree (run_calls (store_of [1, 2, 0]) None [Insert 1, Insert 2])
      (Node (Node Leaf (Ptr 2) True 2 Leaf) (Ptr 1) False 1 Leaf) \<and>
   leaves_tree (run_calls (store_of [1, 2, 0]) None [Insert 1, Insert 2, Erase 3])
      (Node Leaf (Ptr 2) False 2 (Node Leaf (Ptr 1) True 1 Leaf)) \<and>
   returned (run_calls (store_of [1, 2, 0]) None [Insert 1, Insert 2, Erase 3]) = Some [1, 1, 1]"
  by code_simp

text \<open>
  C5, amended. On a tree that satisfies the balance invariants, \<^verbatim>\<open>jsw_rberase\<close> with a
  node whose key is not in the tree returns 1 and leaves a tree of the same nodes in
  the same order from left to right, hence with the same key sequence, which satisfies
  the balance invariants again. Every node of the store keeps its key, and no cell outside the tree is changed at
  all: what may change is the links and the colours of the nodes of the tree.
\<close>

theorem absent_erase_keeps_keys:
  assumes "repr h root t" and "distinct_nodes t" and "rb_inv t"
    and "node \<noteq> Head" and "key (h node) \<notin> set (keys_of t)"
  shows "\<exists>h' root' t'. jsw_rberase h root (Some node) = Some (Inr (h', root', 1)) \<and>
           repr h' root' t' \<and> distinct_nodes t' \<and> rb_inv t' \<and>
           keys_of t' = keys_of t \<and> addrs t' = addrs t \<and>
           (\<forall>x. x \<notin> set (addrs t) \<longrightarrow> h' x = h x) \<and>
           (\<forall>x. key (h' x) = key (h x))"
proof -
  have "node \<notin> set (addrs t)" using repr_key_in[OF assms(1), of node] assms(5) by blast
  then have nh: "\<not> erase_hit t h node" using assms(4,5) by (simp add: erase_hit_def)
  from jsw_rberase_correct[OF assms(1,2,3), of node] nh show ?thesis by blast
qed

theorem absent_erase_keeps_keys_witness:
  "repr ex_store (Some (Ptr 1)) ex_tree \<and> distinct_nodes ex_tree \<and> rb_inv ex_tree \<and>
   Ptr 5 \<noteq> Head \<and> key (ex_store (Ptr 5)) \<notin> set (keys_of ex_tree) \<and>
   (\<exists>h' root' t'. jsw_rberase ex_store (Some (Ptr 1)) (Some (Ptr 5)) = Some (Inr (h', root', 1)) \<and>
           repr h' root' t' \<and> distinct_nodes t' \<and> rb_inv t' \<and>
           keys_of t' = keys_of ex_tree \<and> addrs t' = addrs ex_tree \<and>
           (\<forall>x. x \<notin> set (addrs ex_tree) \<longrightarrow> h' x = ex_store x) \<and>
           (\<forall>x. key (h' x) = key (ex_store x)))"
proof -
  have nh: "Ptr 5 \<noteq> Head" by simp
  have k: "key (ex_store (Ptr 5)) \<notin> set (keys_of ex_tree)"
    by (simp add: ex_store_def ex_tree_def store_of_def)
  from absent_erase_keeps_keys[OF ex_tree_repr ex_tree_distinct ex_tree_rb nh k]
  show ?thesis using ex_tree_repr ex_tree_distinct ex_tree_rb nh k by blast
qed

subsection \<open>The value returned by insertion\<close>




subsection \<open>The path array of a cursor\<close>



subsection \<open>The precondition of stepping\<close>

text \<open>
  C9. \<^verbatim>\<open>jsw_rbtnext\<close> and \<^verbatim>\<open>jsw_rbtprev\<close> need a current node. On a cursor that was
  seeded and stepped on the tree of an unchanged store, a step from an empty current
  node dereferences the null pointer (the cursor was seeded on the empty tree, or an
  earlier step returned empty), while a step from a non-empty current node returns and
  dereferences no null pointer.
\<close>

theorem step_requires_current_node:
  assumes "repr h root t" "distinct_nodes t" "seeded h root trav"
  shows "(it trav = None \<longrightarrow>
            jsw_rbtnext h trav = Some (Inl NullDeref) \<and> jsw_rbtprev h trav = Some (Inl NullDeref)) \<and>
         (it trav \<noteq> None \<longrightarrow>
            jsw_rbtnext h trav \<noteq> None \<and> jsw_rbtnext h trav \<noteq> Some (Inl NullDeref) \<and>
            jsw_rbtprev h trav \<noteq> None \<and> jsw_rbtprev h trav \<noteq> Some (Inl NullDeref))"
proof (intro conjI impI)
  assume "it trav = None"
  then show "jsw_rbtnext h trav = Some (Inl NullDeref)" "jsw_rbtprev h trav = Some (Inl NullDeref)"
    by (simp_all add: jsw_rbtnext_def jsw_rbtprev_def move_def)
next
  assume it: "it trav \<noteq> None"
  have ta: "trav_at t trav" using assms(3,1,2) by (rule seeded_trav_at)
  note n = move_tree[OF assms(1,2) ta it, of True]
  note p = move_tree[OF assms(1,2) ta it, of False]
  show "jsw_rbtnext h trav \<noteq> None" "jsw_rbtnext h trav \<noteq> Some (Inl NullDeref)"
    using n by (auto simp: jsw_rbtnext_def)
  show "jsw_rbtprev h trav \<noteq> None" "jsw_rbtprev h trav \<noteq> Some (Inl NullDeref)"
    using p by (auto simp: jsw_rbtprev_def)
qed

theorem step_requires_current_node_witness:
  "repr ex_store (Some (Ptr 1)) ex_tree \<and> distinct_nodes ex_tree \<and>
   seeded ex_store (Some (Ptr 1)) ex_trav \<and> it ex_trav \<noteq> None \<and>
   jsw_rbtnext ex_store ex_trav \<noteq> None \<and> jsw_rbtnext ex_store ex_trav \<noteq> Some (Inl NullDeref) \<and>
   jsw_rbtprev ex_store ex_trav \<noteq> None \<and> jsw_rbtprev ex_store ex_trav \<noteq> Some (Inl NullDeref) \<and>
   repr ex_store None Leaf \<and> distinct_nodes Leaf \<and>
   seeded ex_store None (jsw_rbtnew\<lparr>tree := None, it := None, top := 0\<rparr>) \<and>
   it (jsw_rbtnew\<lparr>tree := None, it := None, top := 0\<rparr>) = None \<and>
   jsw_rbtnext ex_store (jsw_rbtnew\<lparr>tree := None, it := None, top := 0\<rparr>) = Some (Inl NullDeref) \<and>
   jsw_rbtprev ex_store (jsw_rbtnew\<lparr>tree := None, it := None, top := 0\<rparr>) = Some (Inl NullDeref)"
proof -
  have it: "it ex_trav \<noteq> None" by (simp add: ex_trav_def)
  have e: "repr ex_store None Leaf" "distinct_nodes Leaf"
    "it (jsw_rbtnew\<lparr>tree := None, it := None, top := 0\<rparr>) = None" by simp_all
  from step_requires_current_node[OF ex_tree_repr ex_tree_distinct ex_trav_seeded]
    step_requires_current_node[OF e(1,2) ex_empty_seeded]
  show ?thesis using it e ex_tree_repr ex_tree_distinct ex_trav_seeded ex_empty_seeded by blast
qed

subsection \<open>Insertion and removal keep the balance invariants\<close>



end
